(* ===== verification/Kaka_Prelude.thy ===== *)
theory Kaka_Prelude
  imports Complex_Main "HOL-Library.Word" "HOL-Library.AList"
begin

section \<open>Prelude: Go machine integers and generic facts\<close>

text \<open>
  The vocabulary the components share: Go's 64-bit signed integers as \<^typ>\<open>int\<close> with the
  wrap-around and the saturation written out, truncating division, and facts on lists and
  association lists that more than one component uses.
\<close>

named_theorems store_view \<open>what a key of the store maps to, read off the entries of its shard\<close>

subsection \<open>Go integers\<close>

type_synonym int64 = int

definition min_int64 :: int64 where "min_int64 = - (2 ^ 63)"
definition max_int64 :: int64 where "max_int64 = 2 ^ 63 - 1"

definition in_int64 :: "int \<Rightarrow> bool" where
  "in_int64 x \<longleftrightarrow> min_int64 \<le> x \<and> x \<le> max_int64"

text \<open>Two's complement wrap-around of an \<open>int64\<close> operation.\<close>

definition wrap64 :: "int \<Rightarrow> int64" where
  "wrap64 x = (x + 2 ^ 63) mod 2 ^ 64 - 2 ^ 63"

text \<open>Saturation, as \<open>time.Time.Sub\<close> does it.\<close>

definition sat64 :: "int \<Rightarrow> int64" where
  "sat64 x = max min_int64 (min max_int64 x)"

text \<open>Go's integer division and remainder truncate towards zero.\<close>

definition go_div :: "int \<Rightarrow> int \<Rightarrow> int" where
  "go_div a b = sgn a * sgn b * (\<bar>a\<bar> div \<bar>b\<bar>)"

definition go_rem :: "int \<Rightarrow> int \<Rightarrow> int" where
  "go_rem a b = a - b * go_div a b"

lemma wrap64_in_int64: "in_int64 (wrap64 x)"
proof -
  have "0 \<le> (x + 2 ^ 63) mod 2 ^ 64" "(x + 2 ^ 63) mod 2 ^ 64 < (2 ^ 64 :: int)"
    by simp_all
  then show ?thesis
    by (simp add: in_int64_def wrap64_def min_int64_def max_int64_def)
qed

lemma wrap64_id: "in_int64 x \<Longrightarrow> wrap64 x = x"
  unfolding in_int64_def wrap64_def min_int64_def max_int64_def by simp

lemma sat64_in_int64: "in_int64 (sat64 x)"
  by (simp add: in_int64_def sat64_def min_int64_def max_int64_def)

lemma sat64_id: "in_int64 x \<Longrightarrow> sat64 x = x"
  by (simp add: in_int64_def sat64_def)

lemma sat64_mono: "x \<le> y \<Longrightarrow> sat64 x \<le> sat64 y"
  by (simp add: sat64_def)

lemma sat64_nonneg: "0 \<le> sat64 x \<longleftrightarrow> 0 \<le> x"
  by (auto simp: sat64_def min_int64_def max_int64_def max_def min_def)

lemma sat64_nonneg_le: "0 \<le> x \<Longrightarrow> sat64 x \<le> x"
  by (simp add: sat64_def min_int64_def max_int64_def)

lemma sat64_less_iff:
  assumes "min_int64 < c" "c \<le> max_int64"
  shows "sat64 x < c \<longleftrightarrow> x < c"
  using assms by (auto simp: sat64_def)

lemma go_div_pos: "0 \<le> a \<Longrightarrow> 0 < b \<Longrightarrow> go_div a b = a div b"
  by (cases "a = 0") (simp_all add: go_div_def)

lemma go_rem_pos: "0 \<le> a \<Longrightarrow> 0 < b \<Longrightarrow> go_rem a b = a mod b"
  by (simp add: go_rem_def go_div_pos minus_mult_div_eq_mod)

subsection \<open>Lists and association lists\<close>

lemma length_filter_partition:
  "length (filter P xs) + length (filter (\<lambda>x. \<not> P x) xs) = length xs"
  by (rule sum_length_filter_compl)

lemma sum_list_update_int:
  fixes f :: "'a \<Rightarrow> int"
  shows "i < length xs \<Longrightarrow> (\<Sum>x\<leftarrow>xs[i := y]. f x) = (\<Sum>x\<leftarrow>xs. f x) - f (xs ! i) + f y"
proof (induction xs arbitrary: i)
  case Nil
  then show ?case by simp
next
  case (Cons a xs)
  then show ?case by (cases i) simp_all
qed

lemma length_filter_imp:
  "(\<And>x. x \<in> set xs \<Longrightarrow> P x \<Longrightarrow> Q x) \<Longrightarrow> length (filter P xs) \<le> length (filter Q xs)"
  by (induction xs) (auto simp: le_SucI)

end
