(* ===== verification/Go_Float64.thy ===== *)
theory Go_Float64
  imports Kaka_Prelude "HOL-Library.Log_Nat"
begin

section \<open>IEEE binary64 arithmetic\<close>

text \<open>
  Go's \<open>float64\<close> and Lua's numbers. A finite value is the rational it denotes; an arithmetic
  operation computes the exact rational result and rounds it to 53 significant bits, ties to
  even, with gradual underflow at \<open>2\<^sup>-\<^sup>1\<^sup>0\<^sup>7\<^sup>4\<close> and overflow to an infinity at \<open>2\<^sup>1\<^sup>0\<^sup>2\<^sup>4\<close>. No
  operation is fused (the amd64 port). The sign of a zero is dropped: no code modelled here
  divides by a value that can be zero or inspects a sign bit.
\<close>

subsection \<open>Rounding a rational\<close>

definition round_half_even :: "rat \<Rightarrow> int" where
  "round_half_even q =
     (let n = \<lfloor>q\<rfloor>; d = q - of_int n
      in if d < 1 / 2 then n else if 1 / 2 < d then n + 1 else if even n then n else n + 1)"

definition ilog2 :: "rat \<Rightarrow> int" where
  "ilog2 x =
     (let (p, q) = quotient_of x; k = bitlen p - bitlen q
      in if 2 powi k \<le> x then k else k - 1)"

definition ulp_exp :: "rat \<Rightarrow> int" where
  "ulp_exp x = max (ilog2 \<bar>x\<bar> - 52) (- 1074)"

definition rnd :: "rat \<Rightarrow> rat" where
  "rnd x = (if x = 0 then 0
            else of_int (round_half_even (x / 2 powi ulp_exp x)) * 2 powi ulp_exp x)"

text \<open>
  Code equations for evaluation: powers of two as integers, and results as reduced fractions.
\<close>

definition pow2 :: "int \<Rightarrow> rat" where
  "pow2 e = (if 0 \<le> e then of_int (2 ^ nat e) else 1 / of_int (2 ^ nat (- e)))"

lemma powi_pow2: "2 powi e = pow2 e"
  by (simp add: pow2_def power_int_def power_one_over)

definition reduced :: "rat \<Rightarrow> rat" where
  "reduced x = (case quotient_of x of (p, q) \<Rightarrow> of_int p / of_int q)"

lemma reduced [simp]: "reduced x = x"
  by (simp add: reduced_def case_prod_beta quotient_of_div [symmetric])

definition rnd_to :: "rat \<Rightarrow> rat \<Rightarrow> rat" where
  "rnd_to x s = reduced (of_int (round_half_even (x / s)) * s)"

lemma rnd_code [code]: "rnd x = (if x = 0 then 0 else rnd_to x (pow2 (ulp_exp x)))"
  by (simp add: rnd_def rnd_to_def powi_pow2)

lemma ilog2_code [code]:
  "ilog2 x = (let (p, q) = quotient_of x; k = bitlen p - bitlen q in if pow2 k \<le> x then k else k - 1)"
  by (simp add: ilog2_def powi_pow2)

definition half_even_step :: "int \<Rightarrow> rat \<Rightarrow> int" where
  "half_even_step n d = (if d < 1 / 2 then n else if 1 / 2 < d then n + 1 else if even n then n else n + 1)"

definition half_even_from :: "rat \<Rightarrow> int \<Rightarrow> int" where
  "half_even_from q n = half_even_step n (reduced (q - of_int n))"

lemma round_half_even_code [code]: "round_half_even q = half_even_from (reduced q) \<lfloor>q\<rfloor>"
  by (simp add: round_half_even_def half_even_from_def half_even_step_def Let_def)

text \<open>The rationals that 53 bits and an exponent of at least \<open>-1074\<close> can represent.\<close>

definition F64 :: "rat set" where
  "F64 = {x. \<exists>m e. x = of_int m * 2 powi e \<and> \<bar>m\<bar> \<le> 2 ^ 53 \<and> - 1074 \<le> e}"

definition u64 :: rat where "u64 = 2 powi (- 53)"
definition eta64 :: rat where "eta64 = 2 powi (- 1075)"
definition huge64 :: rat where "huge64 = 2 powi 1024"

subsection \<open>Floating-point values\<close>

datatype float64 = Fin rat | PInf | NInf | NaN

definition rnd64 :: "rat \<Rightarrow> float64" where
  "rnd64 x = (let y = rnd x
              in if y \<noteq> 0 \<and> 1024 \<le> ilog2 \<bar>y\<bar> then (if 0 < y then PInf else NInf) else Fin y)"

fun fneg :: "float64 \<Rightarrow> float64" where
  "fneg (Fin a) = Fin (- a)"
| "fneg PInf = NInf"
| "fneg NInf = PInf"
| "fneg NaN = NaN"

fun fadd :: "float64 \<Rightarrow> float64 \<Rightarrow> float64" where
  "fadd (Fin a) (Fin b) = rnd64 (a + b)"
| "fadd NaN _ = NaN"
| "fadd _ NaN = NaN"
| "fadd PInf NInf = NaN"
| "fadd NInf PInf = NaN"
| "fadd PInf _ = PInf"
| "fadd NInf _ = NInf"
| "fadd _ PInf = PInf"
| "fadd _ NInf = NInf"

definition fsub :: "float64 \<Rightarrow> float64 \<Rightarrow> float64" where
  "fsub x y = fadd x (fneg y)"

fun inf_of_sign :: "rat \<Rightarrow> float64" where
  "inf_of_sign s = (if 0 < s then PInf else if s < 0 then NInf else NaN)"

fun fsign :: "float64 \<Rightarrow> rat" where
  "fsign (Fin a) = sgn a"
| "fsign PInf = 1"
| "fsign NInf = - 1"
| "fsign NaN = 0"

fun fmul :: "float64 \<Rightarrow> float64 \<Rightarrow> float64" where
  "fmul (Fin a) (Fin b) = rnd64 (a * b)"
| "fmul NaN _ = NaN"
| "fmul _ NaN = NaN"
| "fmul x y = inf_of_sign (fsign x * fsign y)"

fun fdiv :: "float64 \<Rightarrow> float64 \<Rightarrow> float64" where
  "fdiv (Fin a) (Fin b) = (if b = 0 then inf_of_sign (sgn a) else rnd64 (a / b))"
| "fdiv NaN _ = NaN"
| "fdiv _ NaN = NaN"
| "fdiv (Fin a) _ = Fin 0"
| "fdiv x (Fin b) = (if b = 0 then x else inf_of_sign (fsign x * sgn b))"
| "fdiv _ _ = NaN"

text \<open>Comparisons: every comparison with a NaN is false.\<close>

fun flt :: "float64 \<Rightarrow> float64 \<Rightarrow> bool" where
  "flt (Fin a) (Fin b) = (a < b)"
| "flt NaN _ = False"
| "flt _ NaN = False"
| "flt NInf y = (y \<noteq> NInf)"
| "flt x PInf = (x \<noteq> PInf)"
| "flt _ _ = False"

fun fle :: "float64 \<Rightarrow> float64 \<Rightarrow> bool" where
  "fle (Fin a) (Fin b) = (a \<le> b)"
| "fle NaN _ = False"
| "fle _ NaN = False"
| "fle NInf _ = True"
| "fle _ PInf = True"
| "fle _ _ = False"

text \<open>The values a \<open>float64\<close> variable can hold: rounding leaves them alone.\<close>

fun is_f64 :: "float64 \<Rightarrow> bool" where
  "is_f64 (Fin a) = (rnd64 a = Fin a)"
| "is_f64 _ = True"

text \<open>The functions of package \<open>math\<close> the code calls.\<close>

fun IsNaN :: "float64 \<Rightarrow> bool" where
  "IsNaN x = (x = NaN)"

fun IsInf0 :: "float64 \<Rightarrow> bool" where
  "IsInf0 x = (x = PInf \<or> x = NInf)"

text \<open>\<open>math.Round\<close> rounds half away from zero.\<close>

definition round_half_away :: "rat \<Rightarrow> int" where
  "round_half_away q = (if 0 \<le> q then \<lfloor>q + 1 / 2\<rfloor> else - \<lfloor>- q + 1 / 2\<rfloor>)"

fun on_fin :: "(rat \<Rightarrow> int) \<Rightarrow> float64 \<Rightarrow> float64" where
  "on_fin f (Fin a) = Fin (of_int (f a))"
| "on_fin f x = x"

definition fRound :: "float64 \<Rightarrow> float64" where "fRound = on_fin round_half_away"
definition fCeil :: "float64 \<Rightarrow> float64" where "fCeil = on_fin ceiling"
definition fFloor :: "float64 \<Rightarrow> float64" where "fFloor = on_fin floor"

fun fAbs :: "float64 \<Rightarrow> float64" where
  "fAbs (Fin a) = Fin \<bar>a\<bar>"
| "fAbs NInf = PInf"
| "fAbs x = x"

text \<open>
  Conversions. An \<open>int64\<close> is rounded to the nearest float; a float is truncated towards zero,
  and a value out of range (or a NaN) gives the smallest \<open>int64\<close>, as the amd64 instruction does.
\<close>

definition f64_of_int :: "int \<Rightarrow> float64" where
  "f64_of_int n = rnd64 (of_int n)"

definition trunc :: "rat \<Rightarrow> int" where
  "trunc q = (if 0 \<le> q then \<lfloor>q\<rfloor> else \<lceil>q\<rceil>)"

fun int64_of_f64 :: "float64 \<Rightarrow> int64" where
  "int64_of_f64 (Fin a) = (if in_int64 (trunc a) then trunc a else min_int64)"
| "int64_of_f64 _ = min_int64"

subsection \<open>Correctness of the rounding\<close>

lemma ilog2_bounds:
  assumes "0 < x"
  shows "2 powi ilog2 x \<le> x" and "x < 2 powi (ilog2 x + 1)"
proof -
  obtain p q where pq: "quotient_of x = (p, q)" by (cases "quotient_of x")
  have q: "0 < q" using pq by (rule quotient_of_denom_pos)
  have x: "x = of_int p / of_int q" using pq by (rule quotient_of_div)
  have p: "0 < p" using assms q by (simp add: x zero_less_divide_iff)
  let ?k = "bitlen p - bitlen q"
  have bp: "1 \<le> bitlen p" and bq: "1 \<le> bitlen q"
    using p q bitlen_nonneg[of p] bitlen_nonneg[of q] bitlen_eq_zero_iff[of p] bitlen_eq_zero_iff[of q] by linarith+
  have P: "(2::rat) powi (bitlen p - 1) \<le> of_int p \<and> of_int p < (2::rat) powi bitlen p"
    using bitlen_bounds[OF p] bp
    by (simp add: power_int_def)
  have Q: "(2::rat) powi (bitlen q - 1) \<le> of_int q \<and> of_int q < (2::rat) powi bitlen q"
    using bitlen_bounds[OF q] bq
    by (simp add: power_int_def)
  have up: "x < 2 powi (?k + 1)"
  proof -
    have "of_int p < (2::rat) powi (?k + 1) * 2 powi (bitlen q - 1)"
      using P by (simp flip: power_int_add)
    also have "\<dots> \<le> 2 powi (?k + 1) * of_int q"
      using Q by simp
    finally show ?thesis using q by (simp add: x pos_divide_less_eq)
  qed
  have low: "2 powi (?k - 1) \<le> x"
  proof -
    have "(2::rat) powi (?k - 1) * of_int q \<le> 2 powi (?k - 1) * 2 powi bitlen q"
      using Q by simp
    also have "\<dots> = 2 powi (bitlen p - 1)"
      by (simp flip: power_int_add)
    also have "\<dots> \<le> of_int p" using P by simp
    finally show ?thesis using q by (simp add: x pos_le_divide_eq)
  qed
  show "2 powi ilog2 x \<le> x" "x < 2 powi (ilog2 x + 1)"
    using up low by (auto simp: ilog2_def pq Let_def)
qed

lemma round_half_even_of_int [simp]: "round_half_even (of_int n) = n"
  by (simp add: round_half_even_def)

lemma round_half_even_err: "\<bar>of_int (round_half_even q) - q\<bar> \<le> 1 / 2"
proof -
  have "of_int \<lfloor>q\<rfloor> \<le> q" "q < of_int \<lfloor>q\<rfloor> + 1" by linarith+
  then show ?thesis
    unfolding round_half_even_def Let_def abs_le_iff by (auto simp: field_simps) linarith?
qed

lemma round_half_even_mono:
  assumes "p \<le> q" shows "round_half_even p \<le> round_half_even q"
proof (cases "\<lfloor>p\<rfloor> = \<lfloor>q\<rfloor>")
  case True
  then show ?thesis using assms by (auto simp: round_half_even_def Let_def)
next
  case False
  then have "\<lfloor>p\<rfloor> + 1 \<le> \<lfloor>q\<rfloor>" using floor_mono[OF assms] by linarith
  then show ?thesis by (auto simp: round_half_even_def Let_def)
qed

lemma round_half_even_minus: "round_half_even (- q) = - round_half_even q"
proof (cases "of_int \<lfloor>q\<rfloor> = q")
  case True
  then obtain n where q: "q = of_int n" by metis
  show ?thesis
    using round_half_even_of_int [of "- n"] by (simp add: q)
next
  case False
  then have f: "\<lfloor>- q\<rfloor> = - \<lfloor>q\<rfloor> - 1"
    by (simp add: floor_minus ceiling_altdef)
  show ?thesis unfolding round_half_even_def Let_def f by auto
qed
lemma ulp_exp_ge: "- 1074 \<le> ulp_exp x"
  by (simp add: ulp_exp_def)

lemma ulp_exp_minus [simp]: "ulp_exp (- x) = ulp_exp x"
  by (simp add: ulp_exp_def)

lemma rnd_0 [simp]: "rnd 0 = 0"
  by (simp add: rnd_def)

lemma rnd_minus: "rnd (- x) = - rnd x"
  by (simp add: rnd_def round_half_even_minus flip: minus_divide_left)

lemma rnd_scaled: "rnd x = of_int (round_half_even (x / 2 powi ulp_exp x)) * 2 powi ulp_exp x"
  using round_half_even_of_int [of 0] by (auto simp: rnd_def simp del: round_half_even_of_int)

lemma ulp_scaled_bound:
  assumes "x \<noteq> 0"
  shows "\<bar>x\<bar> / 2 powi ulp_exp x < 2 ^ 53"
proof -
  have "\<bar>x\<bar> < 2 powi (ilog2 \<bar>x\<bar> + 1)" using assms by (intro ilog2_bounds) simp
  also have "\<dots> \<le> 2 powi (ulp_exp x + 53)"
    by (rule power_int_increasing) (auto simp: ulp_exp_def)
  also have "\<dots> = 2 ^ 53 * 2 powi ulp_exp x" by (simp add: power_int_add)
  finally show ?thesis by (simp add: divide_less_eq)
qed

lemma round_half_even_le_int: "q \<le> of_int n \<Longrightarrow> round_half_even q \<le> n"
  using round_half_even_mono [of q "of_int n"] by simp

lemma round_half_even_ge_int: "of_int n \<le> q \<Longrightarrow> n \<le> round_half_even q"
  using round_half_even_mono [of "of_int n" q] by simp

lemma rnd_in_F64: "rnd x \<in> F64"
proof (cases "x = 0")
  case True
  have "0 = of_int 0 * (2::rat) powi 0" by simp
  then show ?thesis using True unfolding F64_def by fastforce
next
  case False
  let ?q = "x / 2 powi ulp_exp x"
  have "\<bar>?q\<bar> < 2 ^ 53" using ulp_scaled_bound [OF False] by simp
  then have "?q \<le> of_int (2 ^ 53)" and "of_int (- (2 ^ 53)) \<le> ?q"
    by (auto simp only: abs_less_iff of_int_minus of_int_power of_int_numeral)
  then have "round_half_even ?q \<le> 2 ^ 53" and "- (2 ^ 53) \<le> round_half_even ?q"
    by (blast intro: round_half_even_le_int, blast intro: round_half_even_ge_int)
  then have "\<bar>round_half_even ?q\<bar> \<le> 2 ^ 53" by (simp add: abs_le_iff)
  then show ?thesis using ulp_exp_ge unfolding F64_def rnd_scaled [of x] by blast
qed

lemma F64_scaled_int:
  assumes "x \<in> F64" "x \<noteq> 0"
  shows "\<exists>n. x / 2 powi ulp_exp x = of_int n"
proof -
  obtain m e where x: "x = of_int m * 2 powi e" and m: "\<bar>m\<bar> \<le> 2 ^ 53" and e: "- 1074 \<le> e"
    using assms(1) unfolding F64_def by blast
  let ?L = "ilog2 \<bar>x\<bar>"
  have above: ?thesis if "ulp_exp x \<le> e"
  proof -
    have "x / 2 powi ulp_exp x = of_int m * 2 powi (e - ulp_exp x)"
      by (simp add: x power_int_diff)
    also have "\<dots> = of_int (m * 2 ^ nat (e - ulp_exp x))"
      using that by (simp add: power_int_def)
    finally show ?thesis by blast
  qed
  show ?thesis
  proof (cases "ulp_exp x \<le> e")
    case True
    then show ?thesis by (rule above)
  next
    case False
    then have u: "ulp_exp x = ?L - 52" and gt: "e < ?L - 52" using e by (auto simp: ulp_exp_def)
    have "2 powi ?L \<le> \<bar>x\<bar>" using assms(2) by (intro ilog2_bounds) simp
    also have "\<dots> = of_int \<bar>m\<bar> * 2 powi e" by (simp add: x abs_mult)
    finally have L: "2 powi ?L \<le> of_int \<bar>m\<bar> * (2::rat) powi e" .
    have "(2::rat) powi (?L - e) \<le> of_int \<bar>m\<bar>"
      using L by (simp add: power_int_diff divide_le_eq)
    moreover have "(2::rat) powi 53 \<le> 2 powi (?L - e)"
      using gt by (intro power_int_increasing) auto
    ultimately have "(2::rat) ^ 53 \<le> of_int \<bar>m\<bar>" by simp
    then have "(2::int) ^ 53 \<le> \<bar>m\<bar>" by (metis (mono_tags) of_int_le_iff of_int_numeral of_int_power)
    then have m53: "\<bar>m\<bar> = 2 ^ 53" using m by simp
    then have "(2::rat) powi (?L - e) \<le> 2 powi 53" using L by (simp add: power_int_diff divide_le_eq)
    then have "?L - e \<le> 53" using power_int_le_imp_le_exp [of "2::rat" "?L - e" 53] by simp
    then have e1: "ulp_exp x = e + 1" using gt u by simp
    have "x / 2 powi ulp_exp x = of_int (sgn m * 2 ^ 52)"
    proof -
      have "of_int m = of_int (sgn m) * (2::rat) ^ 53"
        using m53 by (metis (mono_tags, lifting) of_int_mult of_int_numeral of_int_power sgn_mult_abs)
      then show ?thesis unfolding e1 by (simp add: x power_int_add)
    qed
    then show ?thesis by blast
  qed
qed

lemma rnd_F64_id: "x \<in> F64 \<Longrightarrow> rnd x = x"
proof (cases "x = 0")
  case False
  assume "x \<in> F64"
  then obtain n where n: "x / 2 powi ulp_exp x = of_int n" using False F64_scaled_int by blast
  have "rnd x = of_int n * 2 powi ulp_exp x" using False by (simp add: rnd_def n)
  then show ?thesis by (simp flip: n)
qed simp

lemma rnd_nonneg: "0 \<le> x \<Longrightarrow> 0 \<le> rnd x"
  using round_half_even_ge_int [of 0 "x / 2 powi ulp_exp x"] by (simp add: rnd_scaled)

lemma ilog2_mono: assumes "0 < x" "x \<le> y" shows "ilog2 x \<le> ilog2 y"
proof -
  have "2 powi ilog2 x \<le> x" using assms by (intro ilog2_bounds) simp
  also have "\<dots> < 2 powi (ilog2 y + 1)" using assms ilog2_bounds(2) [of y] by simp
  finally have "2 powi ilog2 x < (2::rat) powi (ilog2 y + 1)" .
  then have "\<not> ilog2 y + 1 \<le> ilog2 x"
    using power_int_increasing [of "ilog2 y + 1" "ilog2 x" "2::rat"] by auto
  then show ?thesis by simp
qed

lemma rnd_mono_pos:
  assumes "0 < x" "x \<le> y" shows "rnd x \<le> rnd y"
proof (cases "ulp_exp x = ulp_exp y")
  case True
  have "round_half_even (x / 2 powi ulp_exp x) \<le> round_half_even (y / 2 powi ulp_exp y)"
    unfolding True using assms by (intro round_half_even_mono divide_right_mono) auto
  then show ?thesis by (simp add: rnd_scaled True)
next
  case False
  let ?e = "ulp_exp x" and ?f = "ulp_exp y"
  have "ilog2 x \<le> ilog2 y" using assms by (rule ilog2_mono)
  then have "?e \<le> ?f" using assms by (simp add: ulp_exp_def)
  then have ef: "?e + 1 \<le> ?f" using False by simp
  have fy: "?f = ilog2 y - 52" using ef assms by (auto simp: ulp_exp_def max_def split: if_splits)
  have "x / 2 powi ?e \<le> of_int (2 ^ 53)" using ulp_scaled_bound [of x] assms by simp
  then have "round_half_even (x / 2 powi ?e) \<le> 2 ^ 53" by (rule round_half_even_le_int)
  then have "of_int (round_half_even (x / 2 powi ?e)) \<le> (2::rat) ^ 53"
    by (metis (mono_tags) of_int_le_iff of_int_numeral of_int_power)
  then have "rnd x \<le> 2 ^ 53 * 2 powi ?e" by (simp add: rnd_scaled)
  also have "\<dots> = 2 powi (?e + 1 + 52)" by (simp add: power_int_add)
  also have "\<dots> \<le> 2 powi (?f + 52)" using ef by (intro power_int_increasing) auto
  also have "\<dots> = 2 ^ 52 * 2 powi ?f" by (simp add: power_int_add)
  also have "\<dots> \<le> rnd y"
  proof -
    have "2 powi (?f + 52) \<le> y" using ilog2_bounds(1) [of y] assms by (simp add: fy)
    then have "of_int (2 ^ 52) \<le> y / 2 powi ?f" by (simp add: power_int_add le_divide_eq)
    then have "2 ^ 52 \<le> round_half_even (y / 2 powi ?f)" by (rule round_half_even_ge_int)
    then have "(2::rat) ^ 52 \<le> of_int (round_half_even (y / 2 powi ?f))"
      by (metis (mono_tags) of_int_le_iff of_int_numeral of_int_power)
    then show ?thesis by (simp add: rnd_scaled)
  qed
  finally show ?thesis .
qed

lemma rnd_mono:
  assumes "x \<le> y" shows "rnd x \<le> rnd y"
proof -
  consider "0 < x" | "x \<le> 0" "0 \<le> y" | "y < 0" by linarith
  then show ?thesis
  proof cases
    case 1
    then show ?thesis using assms by (rule rnd_mono_pos)
  next
    case 2
    then show ?thesis using rnd_nonneg [of y] rnd_nonneg [of "- x"] by (simp add: rnd_minus)
  next
    case 3
    then show ?thesis using rnd_mono_pos [of "- y" "- x"] assms by (simp add: rnd_minus)
  qed
qed

lemma rnd_err: "\<bar>rnd x - x\<bar> \<le> \<bar>x\<bar> * 2 powi (- 53) + 2 powi (- 1075)"
proof (cases "x = 0")
  case False
  let ?u = "ulp_exp x" and ?q = "x / 2 powi ulp_exp x"
  have "rnd x - x = (of_int (round_half_even ?q) - ?q) * 2 powi ?u"
    by (simp add: rnd_scaled algebra_simps)
  then have "\<bar>rnd x - x\<bar> = \<bar>of_int (round_half_even ?q) - ?q\<bar> * 2 powi ?u"
    by (simp add: abs_mult)
  also have "\<dots> \<le> 1 / 2 * 2 powi ?u"
    using round_half_even_err by (intro mult_right_mono) auto
  also have "\<dots> = 2 powi (?u - 1)" by (simp add: power_int_diff)
  also have "\<dots> \<le> \<bar>x\<bar> * 2 powi (- 53) + 2 powi (- 1075)"
  proof (cases "?u = - 1074")
    case True
    then show ?thesis by simp
  next
    case False
    then have "?u = ilog2 \<bar>x\<bar> - 52" by (auto simp: ulp_exp_def)
    then have "2 powi (?u - 1) = 2 powi (ilog2 \<bar>x\<bar> + (- 53))" by simp
    also have "\<dots> = 2 powi ilog2 \<bar>x\<bar> * (2::rat) powi (- 53)"
      by (rule power_int_add) simp
    also have "\<dots> \<le> \<bar>x\<bar> * 2 powi (- 53)"
      using ilog2_bounds(1) [of "\<bar>x\<bar>"] \<open>x \<noteq> 0\<close> by (intro mult_right_mono) auto
    finally show ?thesis using zero_le_power_int [of "2::rat" "-1075"] by linarith
  qed
  finally show ?thesis .
qed simp
subsection \<open>The rounding interface\<close>

locale correct_rounding =
  fixes rd :: "rat \<Rightarrow> rat" and F :: "rat set"
  assumes mono: "x \<le> y \<Longrightarrow> rd x \<le> rd y"
    and exact: "x \<in> F \<Longrightarrow> rd x = x"
    and closed: "rd x \<in> F"
begin

lemma le_repr: "x \<le> c \<Longrightarrow> c \<in> F \<Longrightarrow> rd x \<le> c"
  using mono exact by fastforce

lemma ge_repr: "c \<le> x \<Longrightarrow> c \<in> F \<Longrightarrow> c \<le> rd x"
  using mono exact by fastforce

lemma idem: "rd (rd x) = rd x"
  by (rule exact) (rule closed)

lemma less_repr_imp: "rd x < c \<Longrightarrow> c \<in> F \<Longrightarrow> x < c"
  using ge_repr by (meson leD leI)

end

locale bounded_rounding = correct_rounding +
  fixes u eta :: rat
  assumes u_nonneg: "0 \<le> u" and eta_nonneg: "0 \<le> eta"
    and err: "\<bar>rd x - x\<bar> \<le> \<bar>x\<bar> * u + eta"
begin

lemma upper: "rd x \<le> x + \<bar>x\<bar> * u + eta"
  using err [of x] by linarith

lemma lower: "x - \<bar>x\<bar> * u - eta \<le> rd x"
  using err [of x] by linarith

text \<open>A rounded value that is then clamped to \<open>c\<close> overshoots by an amount bounded in \<open>c\<close>.\<close>

lemma clamped_upper:
  assumes "0 \<le> x" "0 \<le> c"
  shows "min c (rd x) \<le> x + 2 * c * u + eta"
proof (cases "x \<le> 2 * c")
  case True
  then have "\<bar>x\<bar> * u \<le> 2 * c * u"
    using assms u_nonneg by (intro mult_right_mono) auto
  then show ?thesis using upper [of x] by linarith
next
  case False
  moreover have "0 \<le> 2 * c * u" using assms u_nonneg by simp
  ultimately show ?thesis using eta_nonneg assms by linarith
qed

end

interpretation ieee: bounded_rounding rnd F64 u64 eta64
  using rnd_err by unfold_locales (auto intro: rnd_mono rnd_F64_id rnd_in_F64 simp: u64_def eta64_def simp del: power_int_minus)

lemma F64_int: "\<bar>n\<bar> \<le> 2 ^ 53 \<Longrightarrow> of_int n \<in> F64"
  unfolding F64_def by (intro CollectI exI [of _ n] exI [of _ 0]) simp

lemma F64_0 [simp]: "0 \<in> F64" and F64_1 [simp]: "1 \<in> F64"
  using F64_int [of 0] F64_int [of 1] by simp_all

lemma F64_minus: "x \<in> F64 \<Longrightarrow> - x \<in> F64"
proof -
  assume "x \<in> F64"
  then have "rnd (- x) = - x" by (simp add: rnd_minus rnd_F64_id)
  then show ?thesis using rnd_in_F64 [of "- x"] by simp
qed

subsection \<open>Facts on floating-point operations\<close>

lemma abs_ge_2_1024_iff: "y \<noteq> 0 \<Longrightarrow> 1024 \<le> ilog2 \<bar>y\<bar> \<longleftrightarrow> 2 powi 1024 \<le> \<bar>y\<bar>"
proof
  assume y: "y \<noteq> 0" and "1024 \<le> ilog2 \<bar>y\<bar>"
  then have "(2::rat) powi 1024 \<le> 2 powi ilog2 \<bar>y\<bar>" by (intro power_int_increasing) auto
  also have "\<dots> \<le> \<bar>y\<bar>" using y by (intro ilog2_bounds) simp
  finally show "2 powi 1024 \<le> \<bar>y\<bar>" .
next
  assume y: "y \<noteq> 0"
  assume "2 powi 1024 \<le> \<bar>y\<bar>"
  also have "\<bar>y\<bar> < 2 powi (ilog2 \<bar>y\<bar> + 1)" using y by (intro ilog2_bounds) simp
  finally have "\<not> ilog2 \<bar>y\<bar> + 1 \<le> 1024"
    using power_int_increasing [of "ilog2 \<bar>y\<bar> + 1" 1024 "2::rat"] by linarith
  then show "1024 \<le> ilog2 \<bar>y\<bar>" by simp
qed

lemma huge64_pos: "0 < huge64"
  by (simp add: huge64_def del: power_int_numeral)

lemma rnd64_eq:
  "rnd64 x = (if huge64 \<le> rnd x then PInf else if rnd x \<le> - huge64 then NInf else Fin (rnd x))"
  using abs_ge_2_1024_iff [of "rnd x"] huge64_pos unfolding rnd64_def huge64_def [symmetric] Let_def
  by (auto simp: abs_if split: if_splits)

lemma rnd64_FinD: "rnd64 x = Fin y \<Longrightarrow> y = rnd x \<and> \<bar>rnd x\<bar> < huge64"
  by (auto simp: rnd64_eq split: if_splits)

lemma is_f64_FinI: "x \<in> F64 \<Longrightarrow> \<bar>x\<bar> < huge64 \<Longrightarrow> is_f64 (Fin x)"
  by (auto simp: rnd64_eq ieee.exact abs_if split: if_splits)

lemma is_f64_FinD: assumes "is_f64 (Fin x)" shows "x \<in> F64" and "\<bar>x\<bar> < huge64"
proof -
  have "rnd x = x" and "\<bar>rnd x\<bar> < huge64" using assms rnd64_FinD [of x x] by auto
  then show "x \<in> F64" and "\<bar>x\<bar> < huge64" using rnd_in_F64 [of x] by auto
qed

lemma is_f64_Fin_iff: "is_f64 (Fin x) \<longleftrightarrow> x \<in> F64 \<and> \<bar>x\<bar> < huge64"
  using is_f64_FinI is_f64_FinD by blast

lemma is_f64_rnd64 [simp]: "is_f64 (rnd64 x)"
  by (cases "rnd64 x") (auto dest!: rnd64_FinD simp: rnd64_eq ieee.idem abs_if split: if_splits)

lemma is_f64_fadd [simp]: "is_f64 (fadd x y)"
  by (cases x; cases y) (simp_all del: is_f64.simps(1))

lemma is_f64_fsub [simp]: "is_f64 (fsub x y)"
  by (simp add: fsub_def)

lemma is_f64_fmul [simp]: "is_f64 (fmul x y)"
  by (cases x; cases y) simp_all

lemma F64_iff: "x \<in> F64 \<longleftrightarrow> rnd x = x"
  using rnd_in_F64 [of x] by (auto intro: rnd_F64_id)

lemma rnd64_between:
  assumes "is_f64 (Fin a)" "is_f64 (Fin b)" "a \<le> x" "x \<le> b"
  shows "rnd64 x = Fin (rnd x)" and "a \<le> rnd x" and "rnd x \<le> b"
proof -
  note A = is_f64_FinD [OF assms(1)] and B = is_f64_FinD [OF assms(2)]
  show l: "a \<le> rnd x" and u: "rnd x \<le> b"
    using assms A(1) B(1) by (auto intro: ieee.ge_repr ieee.le_repr)
  then show "rnd64 x = Fin (rnd x)" using A(2) B(2) by (simp add: rnd64_eq abs_less_iff)
qed

lemma rnd64_nonneg_cases:
  assumes "0 \<le> x"
  obtains "rnd64 x = PInf" "huge64 \<le> rnd x" | "rnd64 x = Fin (rnd x)" "0 \<le> rnd x" "rnd x < huge64"
  using ieee.ge_repr [OF assms] huge64_pos by (cases "huge64 \<le> rnd x") (auto simp: rnd64_eq)

lemma is_f64_int: assumes "\<bar>n\<bar> \<le> 2 ^ 53" shows "is_f64 (Fin (of_int n))"
proof (rule is_f64_FinI)
  show "of_int n \<in> F64" using assms by (rule F64_int)
  have "\<bar>of_int n :: rat\<bar> \<le> 2 powi 53" using assms
    by (metis of_int_abs of_int_le_iff of_int_numeral of_int_power power_int_numeral)
  also have "\<dots> < huge64" unfolding huge64_def by (rule power_int_strict_increasing) auto
  finally show "\<bar>of_int n :: rat\<bar> < huge64" .
qed

lemma is_f64_0 [simp]: "is_f64 (Fin 0)" and is_f64_1 [simp]: "is_f64 (Fin 1)"
  using is_f64_int [of 0] is_f64_int [of 1] by (simp_all del: is_f64.simps(1))

lemma f64_of_int_exact: "\<bar>n\<bar> \<le> 2 ^ 53 \<Longrightarrow> f64_of_int n = Fin (of_int n)"
  unfolding f64_of_int_def using is_f64_int [of n] by simp

declare is_f64.simps(1) [simp del]

lemma u64_le: "u64 \<le> 1 / 1000000" and u64_pos: "0 < u64"
  by (simp_all add: u64_def)

lemma F64_below_1:
  assumes "y \<in> F64" "y < 1"
  shows "y \<le> 1 - u64"
proof (rule ccontr)
  assume "\<not> y \<le> 1 - u64"
  then have y: "1 - u64 < y" "1 / 2 < y" using u64_le by auto
  note b = ilog2_bounds [of y]
  have "ilog2 y < 0"
  proof (rule ccontr)
    assume "\<not> ilog2 y < 0"
    then have "(2::rat) powi 0 \<le> 2 powi ilog2 y" by (intro power_int_increasing) auto
    then show False using b y assms(2) by simp
  qed
  moreover have "- 1 \<le> ilog2 y"
  proof (rule ccontr)
    assume "\<not> - 1 \<le> ilog2 y"
    then have "(2::rat) powi (ilog2 y + 1) \<le> 2 powi (- 1)" by (intro power_int_increasing) auto
    then show False using b y by simp
  qed
  ultimately have "ulp_exp y = - 53" using y by (simp add: ulp_exp_def)
  then obtain n where n: "y = of_int n * 2 powi (- 53)"
    using F64_scaled_int [OF assms(1)] y by (auto simp: field_simps)
  then have "of_int (2 ^ 53 - 1) < (of_int n :: rat)" "of_int n < (of_int (2 ^ 53) :: rat)"
    using y(1) assms(2) by (simp_all add: u64_def field_simps)
  then show False by (simp only: of_int_less_iff)
qed

end
