(* ===== verification/Go_Time.thy ===== *)
theory Go_Time
  imports Go_Float64
begin

section \<open>Package \<open>time\<close>\<close>

text \<open>
  \<open>time.Time\<close> is an instant, counted in nanoseconds from the zero time (January 1 of year 1);
  \<open>time.Duration\<close> is an \<open>int64\<close> number of nanoseconds. \<open>Sub\<close> saturates at the ends of the
  \<open>int64\<close> range; \<open>Seconds\<close> is the float computation of the Go library.
\<close>

type_synonym time = int
type_synonym duration = int64

definition Nanosecond :: duration where "Nanosecond = 1"
definition Millisecond :: duration where "Millisecond = 1000000"
definition Second :: duration where "Second = 1000000000"
definition Minute :: duration where "Minute = 60 * Second"

definition Sub :: "time \<Rightarrow> time \<Rightarrow> duration" where
  "Sub t u = sat64 (t - u)"

definition Add :: "time \<Rightarrow> duration \<Rightarrow> time" where
  "Add t d = t + d"

definition After :: "time \<Rightarrow> time \<Rightarrow> bool" where
  "After t u \<longleftrightarrow> u < t"

definition Seconds :: "duration \<Rightarrow> float64" where
  "Seconds d =
     (let sec = go_div d Second; nsec = go_rem d Second
      in fadd (f64_of_int sec) (fdiv (f64_of_int nsec) (Fin 1000000000)))"

definition Milliseconds :: "duration \<Rightarrow> int64" where
  "Milliseconds d = go_div d Millisecond"

subsection \<open>How close \<open>Seconds\<close> is to the exact duration\<close>

text \<open>The exact value of a duration in seconds, and the float that \<open>Seconds\<close> returns for it.\<close>

definition seconds_exact :: "int \<Rightarrow> rat" where
  "seconds_exact d = of_int d / 1000000000"

definition seconds_rat :: "int \<Rightarrow> rat" where
  "seconds_rat d = rnd (of_int (d div 1000000000) + rnd (of_int (d mod 1000000000) / 1000000000))"

lemma seconds_frac:
  "0 \<le> rnd (of_int (d mod 1000000000) / 1000000000)" "rnd (of_int (d mod 1000000000) / 1000000000) \<le> 1"
proof -
  have "0 \<le> d mod 1000000000" "d mod 1000000000 \<le> 1000000000" by (simp, smt (verit) pos_mod_bound)
  then have "(0::rat) \<le> of_int (d mod 1000000000)" "of_int (d mod 1000000000) \<le> (1000000000::rat)"
    by (simp, metis of_int_le_iff of_int_numeral)
  then have "0 \<le> of_int (d mod 1000000000) / (1000000000::rat)" "of_int (d mod 1000000000) / (1000000000::rat) \<le> 1"
    by simp_all
  then show "0 \<le> rnd (of_int (d mod 1000000000) / 1000000000)" "rnd (of_int (d mod 1000000000) / 1000000000) \<le> 1"
    by (auto intro: ieee.ge_repr ieee.le_repr)
qed

lemma Seconds_eq:
  assumes "0 \<le> d" "d \<le> max_int64"
  shows "Seconds d = Fin (seconds_rat d)"
proof -
  let ?s = "d div 1000000000" and ?n = "d mod 1000000000"
  have s: "0 \<le> ?s" "?s \<le> 2 ^ 53 - 1" and n: "0 \<le> ?n" "?n < 1000000000"
    using assms by (simp_all add: max_int64_def pos_imp_zdiv_nonneg_iff)
  have f: "f64_of_int ?s = Fin (of_int ?s)" "f64_of_int ?n = Fin (of_int ?n)"
    using s n by (intro f64_of_int_exact; simp)+
  have q: "rnd64 (of_int ?n / 1000000000) = Fin (rnd (of_int ?n / 1000000000))"
    using n by (intro rnd64_between(1) [of 0 1]) (simp_all add: divide_le_eq_1)
  have "rnd64 (of_int ?s + rnd (of_int ?n / 1000000000)) = Fin (seconds_rat d)"
    unfolding seconds_rat_def
  proof (rule rnd64_between(1))
    show "is_f64 (Fin 0)" by simp
    show "is_f64 (Fin (of_int (2 ^ 53)))" by (rule is_f64_int) simp
    show "0 \<le> of_int ?s + rnd (of_int ?n / 1000000000)"
      using seconds_frac(1) [of d] s(1) by simp
    have "of_int ?s \<le> (of_int (2 ^ 53 - 1) :: rat)" using s(2) by (simp only: of_int_le_iff)
    then show "of_int ?s + rnd (of_int ?n / 1000000000) \<le> of_int (2 ^ 53)"
      using seconds_frac(2) [of d] by simp
  qed
  then show ?thesis
    using assms f q by (simp add: Seconds_def Second_def go_div_pos go_rem_pos)
qed

lemma seconds_rat_0 [simp]: "seconds_rat 0 = 0"
  by (simp add: seconds_rat_def)

lemma seconds_rat_F64: "seconds_rat d \<in> F64"
  by (simp add: seconds_rat_def rnd_in_F64)

lemma seconds_rat_nonneg: "0 \<le> d \<Longrightarrow> 0 \<le> seconds_rat d"
  unfolding seconds_rat_def using seconds_frac(1) [of d]
  by (intro rnd_nonneg) (simp add: pos_imp_zdiv_nonneg_iff)

lemma seconds_rat_mono:
  assumes "c \<le> d" shows "seconds_rat c \<le> seconds_rat d"
  unfolding seconds_rat_def
proof (rule rnd_mono, cases "c div 1000000000 = d div 1000000000")
  case True
  have "c mod 1000000000 \<le> d mod 1000000000"
    using assms True by (metis add_le_cancel_left mult_div_mod_eq)
  then have "rnd (of_int (c mod 1000000000) / 1000000000) \<le> rnd (of_int (d mod 1000000000) / 1000000000)"
    by (intro rnd_mono divide_right_mono) simp_all
  then show "of_int (c div 1000000000) + rnd (of_int (c mod 1000000000) / 1000000000)
      \<le> of_int (d div 1000000000) + rnd (of_int (d mod 1000000000) / 1000000000)"
    using True by simp
next
  case False
  have "c div 1000000000 \<le> d div 1000000000" using assms by (rule zdiv_mono1) simp
  then have "c div 1000000000 + 1 \<le> d div 1000000000" using False by simp
  then have "of_int (c div 1000000000) + 1 \<le> (of_int (d div 1000000000) :: rat)"
    by (metis of_int_1 of_int_add of_int_le_iff)
  then show "of_int (c div 1000000000) + rnd (of_int (c mod 1000000000) / 1000000000)
      \<le> of_int (d div 1000000000) + rnd (of_int (d mod 1000000000) / 1000000000)"
    using seconds_frac(2) [of c] seconds_frac(1) [of d] by linarith
qed

lemma eta64_le: "eta64 \<le> u64 * (1 / 10000000000)" and eta64_pos: "0 < eta64"
proof -
  have "eta64 \<le> 2 powi (- 90)" unfolding eta64_def by (rule power_int_increasing) simp_all
  also have "\<dots> \<le> u64 * (1 / 10000000000)" by (simp add: u64_def)
  finally show "eta64 \<le> u64 * (1 / 10000000000)" .
  show "0 < eta64" unfolding eta64_def by (rule zero_less_power_int) simp
qed

lemma seconds_exact_split:
  "seconds_exact d = of_int (d div 1000000000) + of_int (d mod 1000000000) / 1000000000"
proof -
  have "of_int d = (of_int (d div 1000000000 * 1000000000 + d mod 1000000000) :: rat)" by simp
  then show ?thesis unfolding seconds_exact_def of_int_add of_int_mult by (simp add: add_divide_distrib)
qed

lemma seconds_rat_upper:
  assumes "0 \<le> d"
  shows "seconds_rat d \<le> seconds_exact d * (1 + 4 * u64)"
proof (cases "d = 0")
  case True
  then show ?thesis by (simp add: seconds_exact_def)
next
  case False
  let ?x = "of_int (d mod 1000000000) / 1000000000 :: rat" and ?s = "of_int (d div 1000000000) :: rat"
  let ?D = "seconds_exact d"
  have D: "?D = ?s + ?x" by (rule seconds_exact_split)
  have x0: "0 \<le> ?x" and s0: "0 \<le> ?s" using assms by (simp_all add: pos_imp_zdiv_nonneg_iff)
  have Dlow: "1 / 1000000000 \<le> ?D" using assms False by (simp add: seconds_exact_def)
  have D0: "0 \<le> ?D" using Dlow by simp
  have e: "eta64 \<le> ?D * u64 / 10"
  proof -
    have "u64 * (1 / 1000000000) \<le> u64 * ?D" using Dlow u64_pos by (intro mult_left_mono) auto
    then show ?thesis using eta64_le by (simp add: mult.commute)
  qed
  have uD: "0 \<le> ?D * u64" using D0 u64_pos by simp
  have r: "rnd ?x \<le> ?x + ?D * u64 + eta64"
  proof -
    have "?x * u64 \<le> ?D * u64" using D s0 u64_pos by (intro mult_right_mono) auto
    then show ?thesis using ieee.upper [of ?x] x0 by simp
  qed
  have r0: "0 \<le> rnd ?x" using x0 by (rule rnd_nonneg)
  have "?s + rnd ?x \<le> ?D + 2 * (?D * u64)" using r D e uD by linarith
  moreover have "?D * u64 \<le> ?D * (1 / 1000000)" using D0 u64_le by (rule mult_left_mono [rotated])
  ultimately have "?s + rnd ?x \<le> 2 * ?D" using D0 by linarith
  then have y2: "(?s + rnd ?x) * u64 \<le> 2 * ?D * u64" using u64_pos by (intro mult_right_mono) auto
  have "seconds_rat d \<le> (?s + rnd ?x) + (?s + rnd ?x) * u64 + eta64"
    unfolding seconds_rat_def using ieee.upper [of "?s + rnd ?x"] s0 r0 by simp
  also have "\<dots> \<le> ?D + 4 * (?D * u64)" using r D y2 e uD by linarith
  finally show ?thesis by (simp add: distrib_left)
qed

lemma eta64_tiny: "eta64 \<le> u64 * u64 / 10"
proof -
  have "eta64 \<le> 2 powi (- 120)" unfolding eta64_def by (rule power_int_increasing) simp_all
  also have "\<dots> \<le> u64 * u64 / 10" by (simp add: u64_def)
  finally show ?thesis .
qed

lemma seconds_rat_lower:
  assumes "0 \<le> d"
  shows "seconds_exact d * (1 - 4 * u64) \<le> seconds_rat d"
proof (cases "d = 0")
  case True
  then show ?thesis by (simp add: seconds_exact_def)
next
  case False
  let ?x = "of_int (d mod 1000000000) / 1000000000 :: rat" and ?s = "of_int (d div 1000000000) :: rat"
  let ?D = "seconds_exact d"
  have D: "?D = ?s + ?x" by (rule seconds_exact_split)
  have x0: "0 \<le> ?x" and s0: "0 \<le> ?s" using assms by (simp_all add: pos_imp_zdiv_nonneg_iff)
  have Dlow: "1 / 1000000000 \<le> ?D" using assms False by (simp add: seconds_exact_def)
  have "u64 * (1 / 1000000000) \<le> u64 * ?D" using Dlow u64_pos by (intro mult_left_mono) auto
  then have e: "eta64 \<le> ?D * u64 / 10" using eta64_le by (simp add: mult.commute)
  have "?x * u64 \<le> ?D * u64" using D s0 u64_pos by (intro mult_right_mono) auto
  then have r: "?x - ?D * u64 - eta64 \<le> rnd ?x" "rnd ?x \<le> ?x + ?D * u64 + eta64"
    using ieee.lower [of ?x] ieee.upper [of ?x] x0 by auto
  have r0: "0 \<le> rnd ?x" using x0 by (rule rnd_nonneg)
  have "?D * u64 \<le> ?D * (1 / 1000000)" using Dlow u64_le by (intro mult_left_mono) auto
  then have "?s + rnd ?x \<le> 2 * ?D" using r(2) D e Dlow by linarith
  then have y2: "(?s + rnd ?x) * u64 \<le> 2 * ?D * u64" using u64_pos by (intro mult_right_mono) auto
  have "?D - 4 * (?D * u64) \<le> (?s + rnd ?x) - (?s + rnd ?x) * u64 - eta64" using r D y2 e by linarith
  also have "\<dots> \<le> seconds_rat d"
    unfolding seconds_rat_def using ieee.lower [of "?s + rnd ?x"] s0 r0 by simp
  finally show ?thesis by (simp add: right_diff_distrib)
qed

end
