(* ===== verification/Kaka_Core.thy ===== *)
theory Kaka_Core
  imports Go_Time
begin

section \<open>The limiter contract: \<open>limiter.go\<close>, \<open>metrics.go\<close>, \<open>key_validation.go\<close>\<close>

text \<open>
  The types every limiter shares: the \<open>Result\<close> of a decision, the errors the packages declare,
  the events a \<open>MetricSink\<close> receives, and the validation of keys. A limiter is a function of its
  state, of the environment of one call (what the context and the clock supply) and of the key;
  it returns the new state, the Go pair of result and error, and the sink calls it made; \<open>None\<close>
  would be a call that never returns.
\<close>

subsection \<open>Results, errors, events\<close>

record Result =
  Allowed :: bool
  Remaining :: int64
  RetryAfter :: duration

definition zero_Result :: Result where
  "zero_Result = \<lparr>Allowed = False, Remaining = 0, RetryAfter = 0\<rparr>"

datatype go_error =
    MemInvalidKey
  | ErrMaxKeysExceeded
  | LayeredInvalidKey
  | RedisBlankKey
  | ErrRedisUnavailable string
  | ErrScript string
  | OtherError string

type_synonym go_return = "Result \<times> go_error option"

type_synonym tier = string

definition TierSingle :: tier where "TierSingle = ''''"
definition TierLocal :: tier where "TierLocal = ''local''"
definition TierRemote :: tier where "TierRemote = ''remote''"

text \<open>
  The calls of a \<open>MetricSink\<close>, and the call of the callback of the Redis limiters'
  \<open>WithOnError\<close>.
\<close>

datatype event =
    OnAllowed tier Result
  | OnRejected tier Result
  | OnError tier go_error
  | SetKeys tier int
  | OnEvict tier
  | ErrorCallback go_error

text \<open>A Go panic is the left side of a sum, with the panic's message.\<close>

type_synonym 'a panics = "string + 'a"

type_synonym ('s, 'e) limiter = "'s \<Rightarrow> 'e \<Rightarrow> string \<Rightarrow> ('s \<times> go_return \<times> event list) option"

subsection \<open>Blank keys\<close>

text \<open>
  \<open>strings.TrimSpace\<close> on a byte string. The Unicode white space runes and their UTF-8
  encodings: tab to carriage return, space, U+0085, U+00A0, U+1680, U+2000 to U+200A, U+2028,
  U+2029, U+202F, U+205F, U+3000. The functions give the width in bytes of the white space rune
  at the front or at the back, and 0 when there is none (invalid bytes are no white space).
\<close>

definition byte_of :: "char \<Rightarrow> nat" where
  "byte_of c = of_char c"

fun space_runes :: "nat list \<Rightarrow> bool" where
  "space_runes [b] = (9 \<le> b \<and> b \<le> 13 \<or> b = 32)"
| "space_runes [b, c] = (b = 194 \<and> (c = 133 \<or> c = 160))"
| "space_runes [b, c, d] =
     (b = 225 \<and> c = 154 \<and> d = 128
      \<or> b = 226 \<and> c = 128 \<and> (128 \<le> d \<and> d \<le> 138 \<or> d = 168 \<or> d = 169 \<or> d = 175)
      \<or> b = 226 \<and> c = 129 \<and> d = 159
      \<or> b = 227 \<and> c = 128 \<and> d = 128)"
| "space_runes _ = False"

definition space_front :: "string \<Rightarrow> nat" where
  "space_front s =
     (if space_runes (map byte_of (take 1 s)) then 1
      else if space_runes (map byte_of (take 2 s)) then 2
      else if space_runes (map byte_of (take 3 s)) then 3
      else 0)"

definition space_back :: "string \<Rightarrow> nat" where
  "space_back s =
     (let r = rev s
      in if space_runes (map byte_of (rev (take 1 r))) then 1
         else if space_runes (map byte_of (rev (take 2 r))) then 2
         else if space_runes (map byte_of (rev (take 3 r))) then 3
         else 0)"

lemma space_runes_length: "space_runes bs \<Longrightarrow> bs \<noteq> []"
  by (cases bs) auto

lemma space_front_pos: "0 < space_front s \<Longrightarrow> s \<noteq> []"
  by (auto simp: space_front_def)

lemma space_back_pos: "0 < space_back s \<Longrightarrow> s \<noteq> []"
  by (auto simp: space_back_def)

function trimLeftSpace :: "string \<Rightarrow> string" where
  "trimLeftSpace s = (if space_front s = 0 then s else trimLeftSpace (drop (space_front s) s))"
  by pat_completeness auto
termination
  by (relation "measure length") (auto intro!: diff_less dest: space_front_pos)

function trimRightSpace :: "string \<Rightarrow> string" where
  "trimRightSpace s =
     (if space_back s = 0 then s else trimRightSpace (take (length s - space_back s) s))"
  by pat_completeness auto
termination
  by (relation "measure length") (auto intro!: diff_less dest: space_back_pos)

declare trimLeftSpace.simps [simp del] trimRightSpace.simps [simp del]

definition TrimSpace :: "string \<Rightarrow> string" where
  "TrimSpace s = trimRightSpace (trimLeftSpace s)"

text \<open>\<open>validateKey\<close> of the packages \<open>memory\<close>, \<open>layered\<close> and \<open>redis\<close>.\<close>

definition mem_validateKey :: "string \<Rightarrow> go_error option" where
  "mem_validateKey key = (if TrimSpace key = '''' then Some MemInvalidKey else None)"

definition layered_validateKey :: "string \<Rightarrow> go_error option" where
  "layered_validateKey key = (if TrimSpace key = '''' then Some LayeredInvalidKey else None)"

definition redis_validateKey :: "string \<Rightarrow> go_error option" where
  "redis_validateKey key = (if TrimSpace key = '''' then Some RedisBlankKey else None)"

abbreviation blank :: "string \<Rightarrow> bool" where
  "blank key \<equiv> TrimSpace key = ''''"

text \<open>
  The reference reading of a blank key: a sequence of encoded white space runes.
\<close>

inductive all_space :: "string \<Rightarrow> bool" where
  all_space_Nil: "all_space ''''"
| all_space_Cons: "space_runes (map byte_of r) \<Longrightarrow> all_space s \<Longrightarrow> all_space (r @ s)"

lemma space_runes_shape:
  "space_runes bs \<Longrightarrow>
     (\<exists>b. bs = [b] \<and> b < 128) \<or> (\<exists>c. bs = [194, c]) \<or> (\<exists>b c d. bs = [b, c, d] \<and> 225 \<le> b)"
  by (induction bs rule: space_runes.induct) auto

lemma space_front_rune:
  assumes "space_runes (map byte_of r)"
  shows "space_front (r @ s) = length r"
proof -
  consider b where "map byte_of r = [b]" "b < 128" | c where "map byte_of r = [194, c]"
    | b c d where "map byte_of r = [b, c, d]" "225 \<le> b"
    using space_runes_shape [OF assms] by metis
  then show ?thesis
    using assms by cases (auto simp: space_front_def map_eq_Cons_conv split: if_splits)
qed

lemma space_front_rune_at: "0 < space_front s \<Longrightarrow> space_runes (map byte_of (take (space_front s) s))"
  by (auto simp: space_front_def split: if_splits)

lemma space_back_rune_at:
  "0 < space_back s \<Longrightarrow> space_runes (map byte_of (drop (length s - space_back s) s))"
  by (auto simp: space_back_def Let_def rev_take split: if_splits)

lemma space_front_prefix: "space_front (s @ t) = 0 \<Longrightarrow> space_front s = 0"
proof (rule ccontr)
  assume z: "space_front (s @ t) = 0" and "space_front s \<noteq> 0"
  then have r: "space_runes (map byte_of (take (space_front s) s))" using space_front_rune_at by simp
  have "space_front (take (space_front s) s @ (drop (space_front s) s @ t)) = length (take (space_front s) s)"
    using r by (rule space_front_rune)
  moreover have "take (space_front s) s \<noteq> []" using r space_runes_length by fastforce
  ultimately show False using z by (auto simp: min_def simp flip: append_assoc split: if_splits)
qed

lemma trimRightSpace_nonempty:
  "space_front t = 0 \<Longrightarrow> t \<noteq> '''' \<Longrightarrow> trimRightSpace t \<noteq> ''''"
proof (induction t rule: trimRightSpace.induct)
  case (1 t)
  show ?case
  proof (cases "space_back t = 0")
    case True
    then show ?thesis using 1 by (subst trimRightSpace.simps) simp
  next
    case False
    let ?n = "length t - space_back t"
    have r: "space_runes (map byte_of (drop ?n t))" using False space_back_rune_at by simp
    have "space_front (take ?n t @ drop ?n t) = 0" using 1 by simp
    then have f: "space_front (take ?n t) = 0" by (rule space_front_prefix)
    have "take ?n t \<noteq> []"
    proof
      assume "take ?n t = []"
      then have "drop ?n t = t" by (metis append_take_drop_id append_Nil)
      then have "space_front (t @ []) = length t" using space_front_rune [of t "[]"] r by simp
      then show False using 1 by simp
    qed
    then have "trimRightSpace (take ?n t) \<noteq> ''''" using "1.IH" [OF False f] by simp
    then show ?thesis using False by (subst trimRightSpace.simps) simp
  qed
qed

lemma trimLeftSpace_front: "space_front (trimLeftSpace s) = 0"
  by (induction s rule: trimLeftSpace.induct) (subst trimLeftSpace.simps, auto)

lemma trimRightSpace_Nil [simp]: "trimRightSpace [] = []"
  by (subst trimRightSpace.simps) (auto dest: space_back_pos)

lemma TrimSpace_empty_iff: "TrimSpace s = '''' \<longleftrightarrow> trimLeftSpace s = ''''"
  unfolding TrimSpace_def using trimRightSpace_nonempty [OF trimLeftSpace_front] by auto

lemma trimLeftSpace_all_space: "trimLeftSpace s = '''' \<Longrightarrow> all_space s"
proof (induction s rule: trimLeftSpace.induct)
  case (1 s)
  show ?case
  proof (cases "space_front s = 0")
    case True
    then show ?thesis using 1 by (metis all_space_Nil trimLeftSpace.simps)
  next
    case False
    then have "all_space (drop (space_front s) s)" using 1 by (metis trimLeftSpace.simps)
    then show ?thesis
      using all_space_Cons [OF space_front_rune_at, of s "drop (space_front s) s"] False by simp
  qed
qed

lemma all_space_trimLeftSpace: "all_space s \<Longrightarrow> trimLeftSpace s = ''''"
proof (induction rule: all_space.induct)
  case all_space_Nil
  show ?case by (subst trimLeftSpace.simps) (simp add: space_front_def)
next
  case (all_space_Cons r s)
  have "space_front (r @ s) = length r" using all_space_Cons.hyps(1) by (rule space_front_rune)
  moreover have "r \<noteq> []" using all_space_Cons.hyps(1) space_runes_length by fastforce
  ultimately show ?case using all_space_Cons.IH by (subst trimLeftSpace.simps) simp
qed

lemma blank_iff_all_space: "TrimSpace s = '''' \<longleftrightarrow> all_space s"
  using TrimSpace_empty_iff trimLeftSpace_all_space all_space_trimLeftSpace by blast
text \<open>
  Claim C18. A key is rejected as blank by \<open>validateKey\<close> (of \<open>memory\<close>, \<open>layered\<close> and \<open>redis\<close>
  alike) exactly when it is a sequence of UTF-8 encoded white space runes, the empty sequence
  included; in particular every key with another byte in it is accepted.
\<close>

theorem validateKey_exact:
  "(mem_validateKey key = Some MemInvalidKey \<longleftrightarrow> all_space key)
   \<and> (mem_validateKey key = None \<longleftrightarrow> \<not> all_space key)
   \<and> (layered_validateKey key = None \<longleftrightarrow> mem_validateKey key = None)
   \<and> (redis_validateKey key = None \<longleftrightarrow> mem_validateKey key = None)"
  by (simp add: mem_validateKey_def layered_validateKey_def redis_validateKey_def blank_iff_all_space)

end
