(* ===== verification/Kaka_Contract.thy ===== *)
theory Kaka_Contract
  imports Kaka_Core
begin

section \<open>The contract of \<open>kaka.Limiter\<close>\<close>

text \<open>
  What the comments of \<open>limiter.go\<close> and the shared behaviour tests of
  \<open>internal/contracttest\<close> ask of every limiter, as an interface; a sequence of requests through
  a limiter; and what the contract gives for whole sequences.
\<close>

text \<open>A decision: an allowed request has no wait, a denied one has nothing remaining.\<close>

definition result_ok :: "Result \<Rightarrow> bool" where
  "result_ok r \<longleftrightarrow> (if Allowed r then RetryAfter r = 0 \<and> 0 \<le> Remaining r
                    else Remaining r = 0 \<and> 0 \<le> RetryAfter r)"

text \<open>What \<open>Allow\<close> returns for a key: a decision, or an error with the zero result.\<close>

definition return_ok :: "string \<Rightarrow> go_return \<Rightarrow> bool" where
  "return_ok key ret \<longleftrightarrow>
     (case ret of (r, None) \<Rightarrow> \<not> blank key \<and> result_ok r | (r, Some err) \<Rightarrow> r = zero_Result)"

lemma result_ok_zero [simp]: "result_ok zero_Result"
  by (simp add: result_ok_def zero_Result_def)

text \<open>A sequence of requests, one after the other; \<open>None\<close> when some call does not return.\<close>

fun requests ::
  "('s, 'e) limiter \<Rightarrow> 's \<Rightarrow> ('e \<times> string) list \<Rightarrow> ('s \<times> (go_return \<times> event list) list) option" where
  "requests allow s [] = Some (s, [])"
| "requests allow s ((e, key) # rs) =
     (case allow s e key of
        None \<Rightarrow> None
      | Some (s1, out) \<Rightarrow>
          (case requests allow s1 rs of None \<Rightarrow> None | Some (s2, outs) \<Rightarrow> Some (s2, out # outs)))"

text \<open>
  The answers the requests for one key got, the number of allowed ones, and the requests of a
  run that were allowed.
\<close>

fun answers_for :: "string \<Rightarrow> ('e \<times> string) list \<Rightarrow> (go_return \<times> event list) list \<Rightarrow> go_return list" where
  "answers_for key ((e, k) # rs) ((ret, evs) # outs) =
     (if k = key then [ret] else []) @ answers_for key rs outs"
| "answers_for key _ _ = []"

definition count_allowed :: "go_return list \<Rightarrow> nat" where
  "count_allowed rets = length (filter (\<lambda>(r, err). Allowed r) rets)"

fun granted :: "('e \<times> string) list \<Rightarrow> (go_return \<times> event list) list \<Rightarrow> ('e \<times> string) list" where
  "granted (r # rs) ((ret, evs) # outs) = (if Allowed (fst ret) then [r] else []) @ granted rs outs"
| "granted _ _ = []"

lemma requests_length: "requests allow s rs = Some (s', outs) \<Longrightarrow> length outs = length rs"
  by (induction rs arbitrary: s outs) (auto split: option.splits prod.splits)

text \<open>
  The interface. \<open>invar\<close> is the limiter's own invariant, \<open>ready s e\<close> what it needs of the
  environment of a call in state \<open>s\<close> (a clock that is not behind its records, say), \<open>later\<close>
  the order of environments along a run.
\<close>

locale limiter_contract =
  fixes allow :: "('s, 'e) limiter"
    and invar :: "'s \<Rightarrow> bool"
    and ready :: "'s \<Rightarrow> 'e \<Rightarrow> bool"
    and later :: "'e \<Rightarrow> 'e \<Rightarrow> bool"
  assumes returns: "invar s \<Longrightarrow> ready s e \<Longrightarrow> \<exists>out. allow s e key = Some out"
    and keeps: "invar s \<Longrightarrow> ready s e \<Longrightarrow> allow s e key = Some (s', ret, evs) \<Longrightarrow> invar s'"
    and stays_ready: "invar s \<Longrightarrow> ready s e \<Longrightarrow> allow s e key = Some (s', ret, evs) \<Longrightarrow> ready s' e"
    and ready_later: "invar s \<Longrightarrow> ready s e \<Longrightarrow> later e e' \<Longrightarrow> ready s e'"
    and well_formed: "invar s \<Longrightarrow> ready s e \<Longrightarrow> allow s e key = Some (s', ret, evs) \<Longrightarrow>
        return_ok key ret"
    and blank_inert: "blank key \<Longrightarrow> allow s e key = Some (s', ret, evs) \<Longrightarrow> s' = s"
begin

text \<open>
  Along every run with ordered environments all calls return, the invariant holds at the end,
  and every answer is well formed.
\<close>

lemma requests_contract:
  assumes "invar s" "successively later (map fst rs)"
    and "rs \<noteq> [] \<Longrightarrow> ready s (fst (hd rs))"
  shows "\<exists>s' outs. requests allow s rs = Some (s', outs) \<and> invar s' \<and> length outs = length rs
     \<and> list_all2 (\<lambda>(e, key) (ret, evs). return_ok key ret) rs outs"
  using assms
proof (induction rs arbitrary: s)
  case Nil
  then show ?case by simp
next
  case (Cons r rs)
  obtain e key where r: "r = (e, key)" by (cases r)
  have ready: "ready s e" using Cons.prems(3) by (simp add: r)
  obtain s1 ret evs where a: "allow s e key = Some (s1, ret, evs)"
    using returns [OF Cons.prems(1) ready, of key] by (metis prod_cases3)
  have "rs \<noteq> [] \<Longrightarrow> ready s1 (fst (hd rs))"
    using ready_later [OF keeps stays_ready, OF Cons.prems(1) ready a Cons.prems(1) ready a] Cons.prems(2)
    by (cases rs) (auto simp: r)
  moreover have "successively later (map fst rs)" using Cons.prems(2) by (cases rs) auto
  ultimately obtain s' outs where "requests allow s1 rs = Some (s', outs)" "invar s'" "length outs = length rs"
    "list_all2 (\<lambda>(e, key) (ret, evs). return_ok key ret) rs outs"
    using Cons.IH [OF keeps [OF Cons.prems(1) ready a]] by blast
  moreover have "return_ok key ret" using well_formed [OF Cons.prems(1) ready a] .
  ultimately show ?case using a by (simp add: r)
qed

end

end
