(* ===== verification/Mem_Numeric.thy ===== *)
theory Mem_Numeric
  imports Kaka_Core
begin

section \<open>\<open>memory/numeric.go\<close>\<close>

text \<open>
  The conversions between floats and the integers of a \<open>Result\<close>: the floor of an allowance and
  the ceiling of a wait in nanoseconds.
\<close>

definition isFinite :: "float64 \<Rightarrow> bool" where
  "isFinite v \<longleftrightarrow> \<not> IsNaN v \<and> \<not> IsInf0 v"

definition remainingFloor :: "float64 \<Rightarrow> int64" where
  "remainingFloor v = (if fle v (Fin 0) then 0 else int64_of_f64 v)"

definition maxDuration :: duration where
  "maxDuration = 2 ^ 63 - 1"

definition floatEpsilonNanos :: float64 where
  "floatEpsilonNanos = rnd64 (1 / 1000000)"

definition durationFromSecondsCeil :: "float64 \<Rightarrow> duration" where
  "durationFromSecondsCeil seconds =
     (if fle seconds (Fin 0) then 0
      else let nanos = fmul seconds (f64_of_int Second)
           in if fle (f64_of_int maxDuration) nanos then maxDuration
              else let rounded = fRound nanos
                   in if flt (fAbs (fsub nanos rounded)) floatEpsilonNanos
                      then int64_of_f64 rounded
                      else int64_of_f64 (fCeil nanos))"

text \<open>The float constant \<open>floatEpsilonNanos\<close>, the double nearest to \<open>10\<^sup>-\<^sup>6\<close>, as a rational.\<close>

definition eps_nanos :: rat where
  "eps_nanos = 4722366482869645 / 4722366482869645213696"

lemma maxDuration_f64: "f64_of_int maxDuration = Fin (2 ^ 63)" by code_simp

lemma Second_f64: "f64_of_int Second = Fin 1000000000" by code_simp

lemma floatEpsilonNanos_eq: "floatEpsilonNanos = Fin eps_nanos" unfolding eps_nanos_def by code_simp

lemma eps_nanos_F64: "eps_nanos \<in> F64"
  unfolding F64_iff eps_nanos_def by code_simp

lemma eps_nanos_bounds: "0 < eps_nanos" "eps_nanos \<le> 1 / 1000000"
  by (simp_all add: eps_nanos_def)

lemma F64_integral:
  assumes "x \<in> F64" "2 ^ 52 < \<bar>x\<bar>"
  shows "\<exists>n. x = of_int n"
proof -
  obtain m e where x: "x = of_int m * 2 powi e" and m: "\<bar>m\<bar> \<le> 2 ^ 53"
    using assms(1) unfolding F64_def by blast
  have "0 \<le> e"
  proof (rule ccontr)
    assume "\<not> 0 \<le> e"
    then have "(2::rat) powi e \<le> 2 powi (- 1)" by (intro power_int_increasing) auto
    moreover have "\<bar>of_int m :: rat\<bar> \<le> 2 ^ 53"
      using m by (metis of_int_abs of_int_le_iff of_int_numeral of_int_power)
    ultimately have "\<bar>of_int m\<bar> * 2 powi e \<le> (2 ^ 53 * 2 powi (- 1) :: rat)"
      by (intro mult_mono) auto
    then show False using assms(2) by (simp add: x abs_mult)
  qed
  then have "x = of_int (m * 2 ^ nat e)" by (simp add: x power_int_def)
  then show ?thesis by blast
qed

lemma ceiling_F64_less:
  assumes "x \<in> F64" "x < 2 ^ 63"
  shows "\<lceil>x\<rceil> \<le> max_int64"
proof (cases "2 ^ 52 < x")
  case True
  then obtain n where n: "x = of_int n" using F64_integral [OF assms(1)] by auto
  then have "of_int n < (of_int (2 ^ 63) :: rat)" using assms(2) by simp
  then have "n < 2 ^ 63" by (simp only: of_int_less_iff)
  then show ?thesis by (simp add: n max_int64_def)
next
  case False
  then have "\<lceil>x\<rceil> \<le> 2 ^ 52" by (simp add: ceiling_le_iff)
  then show ?thesis by (simp add: max_int64_def)
qed

lemma round_half_away_nonneg:
  assumes "0 \<le> x"
  shows "0 \<le> round_half_away x" "round_half_away x \<le> \<lceil>x\<rceil>" "\<bar>of_int (round_half_away x) - x\<bar> \<le> 1 / 2"
proof -
  have "of_int \<lfloor>x + 1 / 2\<rfloor> \<le> x + 1 / 2" "x + 1 / 2 < of_int \<lfloor>x + 1 / 2\<rfloor> + 1" by linarith+
  then have "of_int \<lfloor>x + 1 / 2\<rfloor> - x \<le> 1 / 2" "x - of_int \<lfloor>x + 1 / 2\<rfloor> \<le> 1 / 2" by linarith+
  then show "\<bar>of_int (round_half_away x) - x\<bar> \<le> 1 / 2"
    using assms unfolding abs_le_iff by (simp add: round_half_away_def)
  show "0 \<le> round_half_away x" using assms by (simp add: round_half_away_def)
  show "round_half_away x \<le> \<lceil>x\<rceil>" using assms unfolding round_half_away_def by simp linarith
qed

text \<open>The wait in nanoseconds as the float product computes it.\<close>

lemma fsub_Fin: "fsub (Fin a) (Fin b) = rnd64 (a - b)"
  by (simp add: fsub_def)

lemma is_f64_eps: "is_f64 (Fin eps_nanos)"
  using floatEpsilonNanos_eq is_f64_rnd64 unfolding floatEpsilonNanos_def by metis

lemma round_test_imp:
  assumes "0 \<le> x" and "flt (fAbs (fsub (Fin x) (fRound (Fin x)))) floatEpsilonNanos"
  shows "\<bar>x - of_int (round_half_away x)\<bar> < eps_nanos"
proof -
  let ?y = "x - of_int (round_half_away x)"
  have "\<bar>?y\<bar> \<le> 1 / 2" using round_half_away_nonneg(3) [OF assms(1)] by (simp add: abs_minus_commute)
  then have b: "- 1 \<le> ?y" "?y \<le> 1" unfolding abs_le_iff by linarith+
  have m1: "is_f64 (Fin (- 1))" using is_f64_int [of "- 1"] by simp
  have r: "rnd64 ?y = Fin (rnd ?y)" using b m1 by (intro rnd64_between(1) [of "- 1" 1]) simp_all
  then have "\<bar>rnd ?y\<bar> < eps_nanos"
    using assms by (simp add: fRound_def fsub_Fin floatEpsilonNanos_eq)
  then have "rnd ?y < eps_nanos" "rnd (- ?y) < eps_nanos" by (auto simp only: rnd_minus abs_less_iff)
  then have "?y < eps_nanos" "- ?y < eps_nanos"
    using ieee.less_repr_imp eps_nanos_F64 by blast+
  then show ?thesis by (simp add: abs_less_iff)
qed

lemma int64_of_f64_int: "in_int64 n \<Longrightarrow> int64_of_f64 (Fin (of_int n)) = n"
  by (simp add: trunc_def)

lemma durationFromSecondsCeil_Fin:
  assumes "0 < s" and N: "N = rnd (s * 1000000000)" and fin: "N < 2 ^ 63"
  defines "d \<equiv> durationFromSecondsCeil (Fin s)"
  shows "0 \<le> d" "d \<le> maxDuration" "N - eps_nanos < of_int d" "of_int d < N + 1"
proof -
  have N0: "0 \<le> N" using assms(1) unfolding N by (intro rnd_nonneg) simp
  have NF: "N \<in> F64" unfolding N by (rule rnd_in_F64)
  have "N < huge64"
  proof -
    have "(2::rat) powi 63 < huge64" unfolding huge64_def by (rule power_int_strict_increasing) auto
    then show ?thesis using fin by simp
  qed
  then have r: "rnd64 (s * 1000000000) = Fin N" using N0 by (simp add: rnd64_eq N)
  have c: "\<lceil>N\<rceil> \<le> max_int64" using NF fin by (rule ceiling_F64_less)
  let ?test = "flt (fAbs (fsub (Fin N) (fRound (Fin N)))) floatEpsilonNanos"
  have i1: "in_int64 (round_half_away N)" and i2: "in_int64 \<lceil>N\<rceil>"
    using c N0 round_half_away_nonneg [OF N0] by (simp_all add: in_int64_def min_int64_def)
  have d: "d = (if ?test then round_half_away N else \<lceil>N\<rceil>)"
    using assms(1) fin r i1 i2 unfolding d_def durationFromSecondsCeil_def
    by (simp add: maxDuration_f64 Second_f64 fRound_def fCeil_def int64_of_f64_int del: int64_of_f64.simps)
  have "round_half_away N \<le> max_int64" using c round_half_away_nonneg(2) [OF N0] by linarith
  moreover have "maxDuration = max_int64" by (simp add: maxDuration_def max_int64_def)
  ultimately show "0 \<le> d" "d \<le> maxDuration"
    using c N0 round_half_away_nonneg(1) [OF N0] by (auto simp: d)
  show "N - eps_nanos < of_int d" "of_int d < N + 1"
    using round_test_imp [OF N0] eps_nanos_bounds by (auto simp: d abs_less_iff) linarith+
qed

lemma durationFromSecondsCeil_huge:
  assumes "0 < s" and "2 ^ 63 \<le> rnd (s * 1000000000)"
  shows "durationFromSecondsCeil (Fin s) = maxDuration"
proof -
  have "0 \<le> s * 1000000000" using assms(1) by simp
  then show ?thesis
    using assms by (cases rule: rnd64_nonneg_cases)
      (simp_all add: durationFromSecondsCeil_def maxDuration_f64 Second_f64)
qed

lemma durationFromSecondsCeil_range:
  "0 \<le> durationFromSecondsCeil (Fin s)" "durationFromSecondsCeil (Fin s) \<le> maxDuration"
proof -
  have "0 \<le> durationFromSecondsCeil (Fin s) \<and> durationFromSecondsCeil (Fin s) \<le> maxDuration"
  proof (cases "s \<le> 0")
    case True
    then show ?thesis by (simp add: durationFromSecondsCeil_def maxDuration_def)
  next
    case False
    then show ?thesis
      using durationFromSecondsCeil_Fin [of s] durationFromSecondsCeil_huge [of s]
      by (cases "2 ^ 63 \<le> rnd (s * 1000000000)") (auto simp: maxDuration_def)
  qed
  then show "0 \<le> durationFromSecondsCeil (Fin s)" "durationFromSecondsCeil (Fin s) \<le> maxDuration" by simp_all
qed

lemma durationFromSecondsCeil_PInf: "durationFromSecondsCeil PInf = maxDuration"
  by (simp add: durationFromSecondsCeil_def Second_f64 maxDuration_f64)

text \<open>The wait for an amount \<open>a\<close> at a positive rate is a proper duration.\<close>

lemma wait_range:
  assumes "0 \<le> a" "0 < r"
  shows "0 \<le> durationFromSecondsCeil (fdiv (Fin a) (Fin r))"
    and "durationFromSecondsCeil (fdiv (Fin a) (Fin r)) \<le> maxDuration"
proof -
  have "0 \<le> a / r" using assms by simp
  then have "fdiv (Fin a) (Fin r) = PInf \<or> (\<exists>s. fdiv (Fin a) (Fin r) = Fin s)"
    using assms(2) by (cases rule: rnd64_nonneg_cases) simp_all
  then show "0 \<le> durationFromSecondsCeil (fdiv (Fin a) (Fin r))"
    "durationFromSecondsCeil (fdiv (Fin a) (Fin r)) \<le> maxDuration"
    using durationFromSecondsCeil_range durationFromSecondsCeil_PInf
    by (auto simp: maxDuration_def)
qed

text \<open>The wait a denied caller is told is not shorter than the exact one, up to rounding.\<close>

lemma wait_lower:
  assumes "0 < a" "0 < r" and d: "d = durationFromSecondsCeil (fdiv (Fin a) (Fin r))" "d < maxDuration"
  shows "a / r * 1000000000 * (1 - 4 * u64) - 1 / 100000 \<le> of_int d"
proof -
  define q where "q = a / r"
  have q0: "0 < q" using assms by (simp add: q_def)
  have fin: "fdiv (Fin a) (Fin r) = Fin (rnd q)"
    using order.strict_implies_order [OF q0] d assms(2)
    by (cases rule: rnd64_nonneg_cases) (simp_all add: durationFromSecondsCeil_PInf q_def)
  have s: "q - q * u64 - eta64 \<le> rnd q" using ieee.lower [of q] q0 by simp
  have qu: "q * u64 \<le> q * (1 / 1000000)" using q0 u64_le by (intro mult_left_mono) auto
  have qu0: "0 \<le> q * u64" using q0 u64_pos by simp
  have tiny: "eta64 \<le> 1 / 10000000000000000" using eta64_le u64_le by linarith
  have "q * 1000000000 * (1 - 4 * u64) - 1 / 100000 \<le> of_int d"
  proof (cases "rnd q \<le> 0")
    case True
    then have "d = 0" using d(1) fin by (simp add: durationFromSecondsCeil_def)
    moreover have "q \<le> 1 / 100000000000000" using True s qu tiny by linarith
    ultimately show ?thesis using qu0 by (simp add: algebra_simps)
  next
    case False
    let ?s = "rnd q" and ?N = "rnd (rnd q * 1000000000)"
    have s0: "0 < ?s" using False by simp
    have "\<not> 2 ^ 63 \<le> ?N" using durationFromSecondsCeil_huge [OF s0] d fin by auto
    then have N: "?N - eps_nanos < of_int d"
      using durationFromSecondsCeil_Fin(3) [OF s0 refl] d(1) fin by simp
    have "?s * 1000000000 - ?s * 1000000000 * u64 - eta64 \<le> ?N" using ieee.lower [of "?s * 1000000000"] s0 by simp
    moreover have "?s * u64 \<le> 2 * (q * u64) + eta64"
    proof -
      have "?s \<le> 2 * q + eta64" using ieee.upper [of q] q0 qu by linarith
      then have "?s * u64 \<le> (2 * q + eta64) * u64" using u64_pos by (intro mult_right_mono) auto
      moreover have "eta64 * u64 \<le> eta64 * 1" using u64_le eta64_pos by (intro mult_left_mono) auto
      ultimately show ?thesis by (simp add: distrib_right)
    qed
    moreover have "?s * 1000000000 * u64 = 1000000000 * (?s * u64)"
      "q * 1000000000 * (1 - 4 * u64) = 1000000000 * q - 4000000000 * (q * u64)"
      by (simp_all add: algebra_simps)
    ultimately show ?thesis using N s eps_nanos_bounds(2) tiny qu0 by linarith
  qed
  then show ?thesis by (simp add: q_def)
qed

lemma remainingFloor_Fin:
  "0 \<le> v \<Longrightarrow> v < 2 ^ 63 \<Longrightarrow> remainingFloor (Fin v) = \<lfloor>v\<rfloor>"
proof -
  assume v: "0 \<le> v" "v < 2 ^ 63"
  then have "\<lfloor>v\<rfloor> < 2 ^ 63" by (simp add: floor_less_iff)
  then show ?thesis using v by (auto simp: remainingFloor_def trunc_def in_int64_def min_int64_def max_int64_def)
qed
text \<open>
  Claim C19. \<open>durationFromSecondsCeil\<close> of a finite number of seconds is a non-negative duration:
  0 for a non-positive argument, the largest duration when the float product in nanoseconds
  reaches \<open>2\<^sup>6\<^sup>3\<close>, and otherwise it lies strictly between the float product \<open>N\<close> minus
  \<open>floatEpsilonNanos\<close> and \<open>N + 1\<close>: it is a ceiling that may fall short by less than a
  millionth of a nanosecond.
\<close>

theorem durationFromSecondsCeil_spec:
  "let d = durationFromSecondsCeil (Fin s); N = rnd (s * 1000000000)
   in 0 \<le> d \<and> d \<le> maxDuration
      \<and> (if s \<le> 0 then d = 0
          else if 2 ^ 63 \<le> N then d = maxDuration
          else N - eps_nanos < of_int d \<and> of_int d < N + 1)"
proof (cases "s \<le> 0")
  case True
  then show ?thesis by (simp add: durationFromSecondsCeil_def maxDuration_def)
next
  case False
  then have s: "0 < s" by simp
  show ?thesis
  proof (cases "2 ^ 63 \<le> rnd (s * 1000000000)")
    case True
    then show ?thesis using durationFromSecondsCeil_huge [OF s True] s by (simp add: Let_def maxDuration_def)
  next
    case f: False
    then show ?thesis using durationFromSecondsCeil_Fin [OF s refl] s by (simp add: Let_def)
  qed
qed

text \<open>
  \<open>remainingFloor\<close> of a finite allowance is 0 for a non-positive one and its floor
  below \<open>2\<^sup>6\<^sup>3\<close>; from \<open>2\<^sup>6\<^sup>3\<close> on the conversion overflows and the result is the smallest
  \<open>int64\<close>, a negative number.
\<close>

theorem remainingFloor_spec:
  "remainingFloor (Fin v) =
     (if v \<le> 0 then 0 else if v < 2 ^ 63 then \<lfloor>v\<rfloor> else - (2 ^ 63))"
proof (cases "0 < v \<and> 2 ^ 63 \<le> v")
  case True
  then have "2 ^ 63 \<le> \<lfloor>v\<rfloor>" by (simp add: le_floor_iff)
  then show ?thesis
    using True by (auto simp: remainingFloor_def trunc_def in_int64_def min_int64_def max_int64_def)
next
  case False
  then show ?thesis using remainingFloor_Fin [of v] by (auto simp: remainingFloor_def)
qed

end
