(* ===== verification/Mem_Options.thy ===== *)
theory Mem_Options
  imports Mem_Numeric
begin

unbundle bit_operations_syntax

section \<open>\<open>memory/options.go\<close>, \<open>memory/eviction.go\<close>, \<open>memory/clock.go\<close>\<close>

text \<open>
  The configuration of a memory limiter: a record, the functional options that update it, the
  defaults and the validation.
  A clock is its presence here; what \<open>Now\<close> returns is part of the environment of each call. A
  sink is its presence; the calls it receives are the events a limiter returns.
\<close>

datatype clock_source = realClock | injectedClock

type_synonym EvictionPolicy = int

definition EvictReject :: EvictionPolicy where "EvictReject = 0"
definition EvictLRU :: EvictionPolicy where "EvictLRU = 1"

definition cleanupBatchSize :: nat where "cleanupBatchSize = 100"
definition defaultShardCount :: int where "defaultShardCount = 64"
definition maxShardCount :: int where "maxShardCount = 1024"

record options =
  maxKeys :: int
  keyTTL :: duration
  cleanupInterval :: duration
  clock :: "clock_source option"
  eviction :: EvictionPolicy
  nshards :: int
  sink :: bool

type_synonym Option = "options \<Rightarrow> options"

definition defaultOptions :: options where
  "defaultOptions =
     \<lparr>maxKeys = 0, keyTTL = 0, cleanupInterval = 0, clock = Some realClock,
      eviction = EvictReject, nshards = defaultShardCount, sink = False\<rparr>"

definition applyDefaults :: "options \<Rightarrow> options" where
  "applyDefaults o1 =
     (if 0 < keyTTL o1 \<and> cleanupInterval o1 = 0 then o1\<lparr>cleanupInterval := Minute\<rparr> else o1)"

definition validate :: "options \<Rightarrow> unit panics" where
  "validate o1 =
     (if maxKeys o1 < 0 then Inl ''memory: maxKeys must be >= 0''
      else if keyTTL o1 < 0 then Inl ''memory: keyTTL must be >= 0''
      else if cleanupInterval o1 < 0 then Inl ''memory: cleanupInterval must be >= 0''
      else if clock o1 = None then Inl ''memory: clock must not be nil''
      else if eviction o1 < EvictReject \<or> EvictLRU < eviction o1
        then Inl ''memory: invalid eviction policy''
      else if nshards o1 < 1 \<or> maxShardCount < nshards o1
              \<or> nshards o1 AND (nshards o1 - 1) \<noteq> 0
        then Inl ''memory: shardCount must be a power of two in [1, 1024]''
      else Inr ())"

definition WithMaxKeys :: "int \<Rightarrow> Option" where
  "WithMaxKeys n = (\<lambda>o1. o1\<lparr>maxKeys := n\<rparr>)"

definition WithKeyTTL :: "duration \<Rightarrow> Option" where
  "WithKeyTTL d = (\<lambda>o1. o1\<lparr>keyTTL := d\<rparr>)"

definition WithCleanupInterval :: "duration \<Rightarrow> Option" where
  "WithCleanupInterval d = (\<lambda>o1. o1\<lparr>cleanupInterval := d\<rparr>)"

definition WithShardCount :: "int \<Rightarrow> Option" where
  "WithShardCount n = (\<lambda>o1. o1\<lparr>nshards := n\<rparr>)"

definition WithMetricSink :: "bool \<Rightarrow> Option" where
  "WithMetricSink s = (\<lambda>o1. o1\<lparr>sink := s\<rparr>)"

definition WithEvictionPolicy :: "EvictionPolicy \<Rightarrow> Option" where
  "WithEvictionPolicy p = (\<lambda>o1. o1\<lparr>eviction := p\<rparr>)"

definition withClock :: "clock_source option \<Rightarrow> Option" where
  "withClock c = (\<lambda>o1. o1\<lparr>clock := c\<rparr>)"

definition WithClock :: "clock_source option \<Rightarrow> Option" where
  "WithClock c = withClock c"

text \<open>The sequence every constructor runs: defaults, options in order, \<open>applyDefaults\<close>, \<open>validate\<close>.\<close>

definition buildOptions :: "Option list \<Rightarrow> options panics" where
  "buildOptions opts =
     (let o1 = applyDefaults (fold (\<lambda>opt o2. opt o2) opts defaultOptions)
      in case validate o1 of Inl msg \<Rightarrow> Inl msg | Inr _ \<Rightarrow> Inr o1)"

subsection \<open>What validation guarantees\<close>

definition valid_options :: "options \<Rightarrow> bool" where
  "valid_options o1 \<longleftrightarrow>
     0 \<le> maxKeys o1 \<and> 0 \<le> keyTTL o1 \<and> 0 \<le> cleanupInterval o1 \<and> clock o1 \<noteq> None
     \<and> (eviction o1 = EvictReject \<or> eviction o1 = EvictLRU)
     \<and> (\<exists>k \<le> 10. nshards o1 = 2 ^ k)"

lemma int_and_pred_power_of_two:
  fixes n :: int
  assumes "0 < n"
  shows "n AND (n - 1) = 0 \<longleftrightarrow> (\<exists>k. n = 2 ^ k)"
  using assms
proof (induction "nat n" arbitrary: n rule: less_induct)
  case less
  show ?case
  proof (cases "even n")
    case True
    then obtain m where m: "n = 2 * m" by blast
    then have m0: "0 < m" using less.prems by simp
    have "n AND (n - 1) = 2 * (m AND (m - 1))"
    proof -
      have "(2 * m - 1) div 2 = m - 1" by presburger
      then show ?thesis by (simp add: m and_int_rec [of "2 * m"])
    qed
    then have "n AND (n - 1) = 0 \<longleftrightarrow> m AND (m - 1) = 0" by simp
    also have "\<dots> \<longleftrightarrow> (\<exists>k. m = 2 ^ k)" using less.hyps [of m] m m0 by simp
    also have "\<dots> \<longleftrightarrow> (\<exists>k. n = 2 ^ k)"
    proof
      assume "\<exists>k. m = 2 ^ k"
      then obtain k where "m = 2 ^ k" by blast
      then have "n = 2 ^ Suc k" by (simp add: m)
      then show "\<exists>k. n = 2 ^ k" by blast
    next
      assume "\<exists>k. n = 2 ^ k"
      then obtain k where k: "n = 2 ^ k" by blast
      have "k \<noteq> 0" using k True by (auto intro: ccontr)
      then obtain j where "k = Suc j" using not0_implies_Suc by blast
      then show "\<exists>k. m = 2 ^ k" using k m by auto
    qed
    finally show ?thesis .
  next
    case False
    then obtain m where m: "n = 2 * m + 1" using oddE by blast
    have "n AND (n - 1) = 2 * m" by (simp add: m and_int_rec [of "2 * m + 1"])
    then have "n AND (n - 1) = 0 \<longleftrightarrow> n = 1" using m by auto
    moreover have "(\<exists>k. n = 2 ^ k) \<longleftrightarrow> n = 1"
    proof
      assume "\<exists>k. n = 2 ^ k"
      then obtain k where "n = 2 ^ k" by blast
      then show "n = 1" using False by (cases k) auto
    qed (auto intro: exI [of _ 0])
    ultimately show ?thesis by simp
  qed
qed

lemma power_of_two_le_1024: "(2::int) ^ k \<le> 1024 \<longleftrightarrow> k \<le> 10"
proof -
  have "(2::int) ^ k \<le> 2 ^ 10 \<longleftrightarrow> k \<le> 10" by (rule power_increasing_iff) simp
  then show ?thesis by simp
qed

lemma validate_iff: "validate o1 = Inr () \<longleftrightarrow> valid_options o1"
proof -
  have "(1 \<le> n \<and> n \<le> maxShardCount \<and> n AND (n - 1) = 0) \<longleftrightarrow> (\<exists>k \<le> 10. n = 2 ^ k)" for n :: int
    using int_and_pred_power_of_two [of n] power_of_two_le_1024
    by (auto simp: maxShardCount_def)
  note shards = this [of "nshards o1"]
  show ?thesis
    unfolding validate_def valid_options_def shards [symmetric]
    by (auto simp: EvictReject_def EvictLRU_def not_less split: if_splits)
qed

text \<open>
  \<open>validate\<close> accepts exactly the valid configurations: non-negative limits, a clock,
  one of the two eviction policies, and a shard count that is a power of two between 1 and
  1024; the bit test \<open>n & (n-1) == 0\<close> decides the power of two.
\<close>

theorem validate_exact: "validate o1 = Inr () \<longleftrightarrow> valid_options o1"
  by (rule validate_iff)

lemma buildOptions_valid: "buildOptions opts = Inr o1 \<Longrightarrow> valid_options o1"
  using validate_iff [of o1] by (auto simp: buildOptions_def Let_def split: sum.splits)

text \<open>A key TTL always comes with a positive cleanup interval, so that cleanup really runs.\<close>

lemma buildOptions_cleanup:
  "buildOptions opts = Inr o1 \<Longrightarrow> 0 < keyTTL o1 \<Longrightarrow> 0 < cleanupInterval o1"
  using buildOptions_valid [of opts o1]
  by (auto simp: buildOptions_def Let_def applyDefaults_def valid_options_def Minute_def Second_def
      split: sum.splits if_splits)

lemma buildOptions_Nil: "buildOptions [] = Inr defaultOptions"
proof -
  have "valid_options defaultOptions"
    by (auto simp: valid_options_def defaultOptions_def defaultShardCount_def intro: exI [of _ 6])
  then have "validate defaultOptions = Inr ()" by (simp only: validate_iff)
  then show ?thesis by (simp add: buildOptions_def applyDefaults_def) (simp add: defaultOptions_def)
qed

end
