(* ===== verification/Layered.thy ===== *)
theory Layered
  imports Kaka_Contract Mem_Options "HOL-Library.Sublist"
begin

section \<open>\<open>layered/limiter.go\<close>\<close>

text \<open>
  The two-tier limiter. Its tiers are any two limiters, values of the record; the state of the
  whole is the pair of their states, the environment of a call the pair of theirs. The events
  are the calls of all sinks involved, in the order in which they are made.
\<close>

record ly_options =
  lyo_sink :: bool

type_synonym ly_Option = "ly_options \<Rightarrow> ly_options"

record ('l, 'le, 'r, 're) Layered =
  ly_local :: "('l, 'le) limiter"
  ly_remote :: "('r, 're) limiter"
  ly_sink :: bool

definition layered_WithMetricSink :: "bool \<Rightarrow> ly_Option" where
  "layered_WithMetricSink s = (\<lambda>o1. o1\<lparr>lyo_sink := s\<rparr>)"

text \<open>A nil interface value is \<open>None\<close>.\<close>

definition layered_New ::
  "('l, 'le) limiter option \<Rightarrow> ('r, 're) limiter option \<Rightarrow> ly_Option list
     \<Rightarrow> ('l, 'le, 'r, 're) Layered panics" where
  "layered_New local remote opts =
     (case local of
        None \<Rightarrow> Inl ''layered: local limiter must not be nil''
      | Some l \<Rightarrow>
          (case remote of
             None \<Rightarrow> Inl ''layered: remote limiter must not be nil''
           | Some r \<Rightarrow>
               let o1 = fold (\<lambda>opt o2. opt o2) opts \<lparr>lyo_sink = False\<rparr>
               in Inr \<lparr>ly_local = l, ly_remote = r, ly_sink = lyo_sink o1\<rparr>))"

definition layered_emit :: "('l, 'le, 'r, 're) Layered \<Rightarrow> tier \<Rightarrow> Result \<Rightarrow> event list" where
  "layered_emit ly t result =
     (if \<not> ly_sink ly then []
      else if Allowed result then [OnAllowed t result] else [OnRejected t result])"

definition layered_emitError :: "('l, 'le, 'r, 're) Layered \<Rightarrow> tier \<Rightarrow> go_error \<Rightarrow> event list" where
  "layered_emitError ly t err = (if ly_sink ly then [OnError t err] else [])"

definition layered_remoteAllow :: "('l, 'le, 'r, 're) Layered \<Rightarrow> ('r, 're) limiter" where
  "layered_remoteAllow ly r env key =
     (case ly_remote ly r env key of
        None \<Rightarrow> None
      | Some (r', (remoteResult, err), evs) \<Rightarrow>
          (case err of
             Some er \<Rightarrow> Some (r', (remoteResult, Some er), evs @ layered_emitError ly TierRemote er)
           | None \<Rightarrow> Some (r', (remoteResult, None), evs @ layered_emit ly TierRemote remoteResult)))"

definition layered_Allow :: "('l, 'le, 'r, 're) Layered \<Rightarrow> ('l \<times> 'r, 'le \<times> 're) limiter" where
  "layered_Allow ly = (\<lambda>(l, r) (le, re) key.
     case layered_validateKey key of
       Some err \<Rightarrow> Some ((l, r), (zero_Result, Some err), layered_emitError ly TierSingle err)
     | None \<Rightarrow>
         (case ly_local ly l le key of
            None \<Rightarrow> None
          | Some (l', (localResult, err), evs) \<Rightarrow>
              (case err of
                 Some er \<Rightarrow>
                   map_option (\<lambda>(r', ret, evs'). ((l', r'), ret, evs @ layered_emitError ly TierLocal er @ evs'))
                     (layered_remoteAllow ly r re key)
               | None \<Rightarrow>
                   if \<not> Allowed localResult
                   then Some ((l', r), (localResult, None), evs @ layered_emit ly TierLocal localResult)
                   else map_option (\<lambda>(r', ret, evs'). ((l', r'), ret, evs @ evs'))
                          (layered_remoteAllow ly r re key))))"

subsection \<open>One call\<close>

text \<open>The requests the remote tier gets to see.\<close>

definition consults :: "go_return \<Rightarrow> bool" where
  "consults ret \<longleftrightarrow> (case ret of (res, Some err) \<Rightarrow> True | (res, None) \<Rightarrow> Allowed res)"

lemma remoteAllow_ret:
  "layered_remoteAllow ly r env key =
     map_option (\<lambda>(r', ret, evs). (r', ret, evs @ (case ret of (res, Some er) \<Rightarrow> layered_emitError ly TierRemote er
                                                   | (res, None) \<Rightarrow> layered_emit ly TierRemote res)))
       (ly_remote ly r env key)"
  by (simp add: layered_remoteAllow_def split: option.split prod.split)

lemma layered_Allow_blank:
  "blank key \<Longrightarrow> layered_Allow ly (l, r) (le, re) key
     = Some ((l, r), (zero_Result, Some LayeredInvalidKey), layered_emitError ly TierSingle LayeredInvalidKey)"
  by (simp add: layered_Allow_def layered_validateKey_def)

lemma layered_Allow_local:
  assumes "\<not> blank key" "ly_local ly l le key = Some (l', ret, evs)" "\<not> consults ret"
  shows "layered_Allow ly (l, r) (le, re) key = Some ((l', r), ret, evs @ layered_emit ly TierLocal (fst ret))"
  using assms
  by (cases ret) (auto simp: layered_Allow_def layered_validateKey_def consults_def split: option.splits)

lemma layered_Allow_remote:
  assumes "\<not> blank key" "ly_local ly l le key = Some (l', lret, levs)" "consults lret"
    "ly_remote ly r re key = Some (r', ret, revs)"
  shows "\<exists>evs. layered_Allow ly (l, r) (le, re) key = Some ((l', r'), ret, evs)"
  using assms
  by (cases lret)
    (auto simp: layered_Allow_def layered_validateKey_def consults_def remoteAllow_ret split: option.splits)

lemma layered_Allow_cases:
  assumes "\<not> blank key" "layered_Allow ly (l, r) (le, re) key = Some ((l', r'), ret, evs)"
  obtains (by_local) levs where "ly_local ly l le key = Some (l', ret, levs)" "\<not> consults ret" "r' = r"
  | (by_remote) lret levs revs where "ly_local ly l le key = Some (l', lret, levs)" "consults lret"
      "ly_remote ly r re key = Some (r', ret, revs)"
proof -
  obtain l1 lret levs where loc: "ly_local ly l le key = Some (l1, lret, levs)"
    using assms by (auto simp: layered_Allow_def layered_validateKey_def split: option.splits)
  show thesis
  proof (cases "consults lret")
    case False
    then show thesis using that(1) layered_Allow_local [OF assms(1) loc False] loc assms(2) by auto
  next
    case True
    obtain r1 rret revs where rem: "ly_remote ly r re key = Some (r1, rret, revs)"
      using assms loc True
      by (cases lret; cases "ly_remote ly r re key")
        (auto simp: layered_Allow_def layered_validateKey_def consults_def remoteAllow_ret split: option.splits)
    then show thesis using that(2) layered_Allow_remote [OF assms(1) loc True rem] loc True assms(2) by auto
  qed
qed

subsection \<open>Runs\<close>

text \<open>The requests of a run that reach the remote tier.\<close>

fun remote_requests ::
  "('l, 'le, 'r, 're) Layered \<Rightarrow> 'l \<times> 'r \<Rightarrow> (('le \<times> 're) \<times> string) list \<Rightarrow> ('re \<times> string) list" where
  "remote_requests ly s [] = []"
| "remote_requests ly s (((le, re), key) # rs) =
     (if \<not> blank key \<and> (case ly_local ly (fst s) le key of Some (l', ret, evs) \<Rightarrow> consults ret | None \<Rightarrow> False)
      then [(re, key)] else [])
     @ (case layered_Allow ly s (le, re) key of
          Some (s', out) \<Rightarrow> remote_requests ly s' rs
        | None \<Rightarrow> [])"

definition remote_part :: "('le \<times> 're) \<times> string \<Rightarrow> 're \<times> string" where
  "remote_part r = (snd (fst r), snd r)"

lemma layered_run:
  assumes "requests (layered_Allow ly) (l, r) rs = Some ((l', r'), outs)"
  shows "subseq (remote_requests ly (l, r) rs) (map remote_part rs)
     \<and> (\<exists>outs'. requests (ly_remote ly) r (remote_requests ly (l, r) rs) = Some (r', outs')
          \<and> granted (remote_requests ly (l, r) rs) outs' = map remote_part (granted rs outs))"
  using assms
proof (induction rs arbitrary: l r outs)
  case Nil
  then show ?case by simp
next
  case (Cons x rs)
  obtain le re key where x: "x = ((le, re), key)" by (metis prod.collapse)
  obtain l1 r1 ret evs outs1 where a: "layered_Allow ly (l, r) (le, re) key = Some ((l1, r1), ret, evs)"
    and rest: "requests (layered_Allow ly) (l1, r1) rs = Some ((l', r'), outs1)" and outs: "outs = (ret, evs) # outs1"
    using Cons.prems by (auto simp: x split: option.splits)
  note IH = Cons.IH [OF rest]
  show ?case
  proof (cases "blank key")
    case True
    then have "l1 = l" "r1 = r" "fst ret = zero_Result" using a layered_Allow_blank [OF True, of ly l r le re] by auto
    then show ?thesis using IH a True by (auto simp: x outs zero_Result_def)
  next
    case False
    from False a show ?thesis
    proof (cases rule: layered_Allow_cases)
      case (by_local levs)
      then have "\<not> Allowed (fst ret)" by (cases ret) (auto simp: consults_def split: option.splits)
      then show ?thesis using IH a by_local by (auto simp: x outs)
    next
      case (by_remote lret levs revs)
      then show ?thesis using IH a False by (auto simp: x outs remote_part_def)
    qed
  qed
qed

text \<open>
  The requests of a run that reach the local tier, and those of them that the local tier lets
  through to the remote one.
\<close>

definition local_requests :: "(('le \<times> 're) \<times> string) list \<Rightarrow> ('le \<times> string) list" where
  "local_requests rs = map (\<lambda>((le, re), key). (le, key)) (filter (\<lambda>(e, key). \<not> blank key) rs)"

fun let_through :: "('e \<times> string) list \<Rightarrow> (go_return \<times> event list) list \<Rightarrow> ('e \<times> string) list" where
  "let_through (r # rs) ((ret, evs) # outs) = (if consults ret then [r] else []) @ let_through rs outs"
| "let_through rs outs = []"

lemma local_requests_simps [simp]:
  "local_requests [] = []"
  "local_requests (((le, re), key) # rs) = (if blank key then [] else [(le, key)]) @ local_requests rs"
  by (simp_all add: local_requests_def)

text \<open>With a remote tier that allows every request, the local tier alone decides.\<close>

lemma layered_open_run:
  assumes rem: "\<And>r re key. P r \<Longrightarrow> \<not> blank key \<Longrightarrow>
      \<exists>r' res evs. ly_remote ly r re key = Some (r', (res, None), evs) \<and> Allowed res \<and> P r'"
    and "P r" "requests (ly_local ly) l (local_requests rs) = Some (l', louts)"
  shows "\<exists>r' outs. requests (layered_Allow ly) (l, r) rs = Some ((l', r'), outs) \<and> P r'
     \<and> local_requests (granted rs outs) = let_through (local_requests rs) louts"
  using assms(2,3)
proof (induction rs arbitrary: l r louts)
  case Nil
  then show ?case by auto
next
  case (Cons x rs)
  obtain le re key where x: "x = ((le, re), key)" by (metis prod.collapse)
  show ?case
  proof (cases "blank key")
    case True
    then obtain r' outs where "requests (layered_Allow ly) (l, r) rs = Some ((l', r'), outs)" "P r'"
        "local_requests (granted rs outs) = let_through (local_requests rs) louts"
      using Cons.IH [of r l louts] Cons.prems by (auto simp: x)
    then show ?thesis using True by (simp add: x layered_Allow_blank zero_Result_def)
  next
    case False
    obtain l1 ret evs louts1 where a: "ly_local ly l le key = Some (l1, ret, evs)"
      and rest: "requests (ly_local ly) l1 (local_requests rs) = Some (l', louts1)" and louts: "louts = (ret, evs) # louts1"
      using Cons.prems(2) False by (auto simp: x split: option.splits)
    show ?thesis
    proof (cases "consults ret")
      case True
      obtain r1 res revs where r1: "ly_remote ly r re key = Some (r1, (res, None), revs)" "Allowed res" "P r1"
        using rem [OF Cons.prems(1) False] by blast
      obtain evs' where call: "layered_Allow ly (l, r) (le, re) key = Some ((l1, r1), (res, None), evs')"
        using layered_Allow_remote [OF False a True r1(1)] by blast
      obtain r' outs where "requests (layered_Allow ly) (l1, r1) rs = Some ((l', r'), outs)" "P r'"
          "local_requests (granted rs outs) = let_through (local_requests rs) louts1"
        using Cons.IH [OF r1(3) rest] by blast
      then show ?thesis using False call True r1(2) by (simp add: x louts)
    next
      case no: False
      have call: "layered_Allow ly (l, r) (le, re) key = Some ((l1, r), ret, evs @ layered_emit ly TierLocal (fst ret))"
        by (rule layered_Allow_local [OF False a no])
      have "\<not> Allowed (fst ret)" using no by (cases ret) (auto simp: consults_def split: option.splits)
      moreover obtain r' outs where "requests (layered_Allow ly) (l1, r) rs = Some ((l', r'), outs)" "P r'"
          "local_requests (granted rs outs) = let_through (local_requests rs) louts1"
        using Cons.IH [OF Cons.prems(1) rest] by blast
      ultimately show ?thesis using False call no by (simp add: x louts)
    qed
  qed
qed

subsection \<open>Properties\<close>


text \<open>
  Claim C15. The layered limiter never exceeds the remote limiter's allowance. Whatever the local
  tier does, in every run the remote tier sees a subsequence of the requests, ends in the same
  state as if it had served that subsequence alone, and the requests allowed by the layered
  limiter are exactly those the remote tier allowed.
\<close>

theorem layered_never_exceeds_remote:
  assumes "requests (layered_Allow ly) (l, r) rs = Some ((l', r'), outs)"
  shows "subseq (remote_requests ly (l, r) rs) (map remote_part rs)
     \<and> (\<exists>outs'. requests (ly_remote ly) r (remote_requests ly (l, r) rs) = Some (r', outs')
          \<and> granted (remote_requests ly (l, r) rs) outs' = map remote_part (granted rs outs))"
  using assms by (rule layered_run)

text \<open>
  \<open>New\<close> panics exactly when a tier is nil, with the message of the first nil tier;
  otherwise the sink is the one of the last \<open>WithMetricSink\<close> option.
\<close>

theorem layered_New_exact:
  "layered_New local remote (map layered_WithMetricSink ss) =
     (if local = None then Inl ''layered: local limiter must not be nil''
      else if remote = None then Inl ''layered: remote limiter must not be nil''
      else Inr \<lparr>ly_local = the local, ly_remote = the remote, ly_sink = (ss \<noteq> [] \<and> last ss)\<rparr>)"
proof -
  have "fold (\<lambda>opt o2. opt o2) (map layered_WithMetricSink ss) o1 = (if ss = [] then o1 else o1\<lparr>lyo_sink := last ss\<rparr>)" for o1
    by (induction ss arbitrary: o1) (auto simp: layered_WithMetricSink_def)
  then show ?thesis by (auto simp: layered_New_def split: option.split)
qed

subsection \<open>Witnesses\<close>

text \<open>
  Two tiers that count: the local one denies from its second request on, the remote one reports
  how many requests it has seen.
\<close>

definition once :: "(nat, unit) limiter" where
  "once n e key = Some (Suc n, (\<lparr>Allowed = (n = 0), Remaining = 0, RetryAfter = 0\<rparr>, None), [])"

definition tally :: "(nat, unit) limiter" where
  "tally n e key = Some (Suc n, (\<lparr>Allowed = True, Remaining = int n, RetryAfter = 0\<rparr>, None), [])"

abbreviation counting :: "(nat, unit, nat, unit) Layered" where
  "counting \<equiv> \<lparr>ly_local = once, ly_remote = tally, ly_sink = True\<rparr>"

lemma counting_key: "\<not> blank ''k''"
  by code_simp


theorem layered_never_exceeds_remote_witness:
  "\<exists>outs. requests (layered_Allow counting) (0, 0) [(((), ()), ''k''), (((), ()), ''k'')] = Some ((2, 1), outs)
     \<and> (\<exists>outs'. requests tally 0 [((), ''k'')] = Some (1, outs')
          \<and> granted [((), ''k'')] outs' = map remote_part (granted [(((), ()), ''k''), (((), ()), ''k'')] outs))"
proof -
  let ?rs = "[(((), ()), ''k''), (((), ()), ''k'')]"
  obtain outs where r: "requests (layered_Allow counting) (0, 0) ?rs = Some ((2, 1), outs)"
    using counting_key
    by (simp add: layered_Allow_def layered_validateKey_def layered_remoteAllow_def once_def tally_def
        layered_emit_def numeral_2_eq_2)
  have "remote_requests counting (0, 0) ?rs = [((), ''k'')]"
    using counting_key
    by (simp add: layered_Allow_def layered_validateKey_def layered_remoteAllow_def once_def tally_def
        layered_emit_def consults_def)
  then show ?thesis using layered_never_exceeds_remote [OF r] r by auto
qed

subsection \<open>The contract of the whole\<close>

text \<open>Two limiters that keep the contract make a layered limiter that keeps it.\<close>

locale two_tier =
  loc: limiter_contract allow1 invar1 ready1 later1 + rem: limiter_contract allow2 invar2 ready2 later2
  for allow1 :: "('l, 'le) limiter" and invar1 ready1 later1
    and allow2 :: "('r, 're) limiter" and invar2 ready2 later2 +
  fixes with_sink :: bool

sublocale two_tier \<subseteq> limiter_contract
  "layered_Allow \<lparr>ly_local = allow1, ly_remote = allow2, ly_sink = with_sink\<rparr>"
  "\<lambda>(l, r). invar1 l \<and> invar2 r"
  "\<lambda>(l, r) (le, re). ready1 l le \<and> ready2 r re"
  "\<lambda>(le, re) (le', re'). later1 le le' \<and> later2 re re'"
proof unfold_locales
  let ?ly = "\<lparr>ly_local = allow1, ly_remote = allow2, ly_sink = with_sink\<rparr>"
  fix s e key
  assume "case s of (l, r) \<Rightarrow> invar1 l \<and> invar2 r" "(\<lambda>(l, r) (le, re). ready1 l le \<and> ready2 r re) s e"
  then obtain l r le re where s: "s = (l, r)" "e = (le, re)" and inv: "invar1 l" "invar2 r" "ready1 l le" "ready2 r re"
    by (auto split: prod.splits)
  obtain l1 lret levs where loc: "allow1 l le key = Some (l1, lret, levs)" using loc.returns [OF inv(1,3)] by force
  obtain r1 rret revs where rem: "allow2 r re key = Some (r1, rret, revs)" using rem.returns [OF inv(2,4)] by force
  show "\<exists>out. layered_Allow ?ly s e key = Some out"
  proof (cases "blank key")
    case True
    then show ?thesis by (simp add: s layered_Allow_blank)
  next
    case False
    then show ?thesis
      using layered_Allow_local [of key ?ly l le l1 lret levs] layered_Allow_remote [of key ?ly l le l1 lret levs r re r1 rret revs]
        loc rem by (cases "consults lret") (auto simp: s)
  qed
  fix s' ret evs
  assume a: "layered_Allow ?ly s e key = Some (s', ret, evs)"
  obtain l' r' where s': "s' = (l', r')" by (cases s')
  have "invar1 l' \<and> invar2 r' \<and> ready1 l' le \<and> ready2 r' re \<and> return_ok key ret"
  proof (cases "blank key")
    case True
    then show ?thesis using a inv by (auto simp: s s' layered_Allow_blank return_ok_def)
  next
    case False
    from False a [unfolded s s'] show ?thesis
    proof (cases rule: layered_Allow_cases)
      case (by_local levs)
      then have "allow1 l le key = Some (l', ret, levs)" by simp
      then show ?thesis
        using inv by_local(3) loc.keeps [OF inv(1,3)] loc.stays_ready [OF inv(1,3)] loc.well_formed [OF inv(1,3)] by blast
    next
      case (by_remote lret levs revs)
      then have "allow1 l le key = Some (l', lret, levs)" "allow2 r re key = Some (r', ret, revs)" by simp_all
      then show ?thesis
        using inv loc.keeps [OF inv(1,3)] loc.stays_ready [OF inv(1,3)]
          rem.keeps [OF inv(2,4)] rem.stays_ready [OF inv(2,4)] rem.well_formed [OF inv(2,4)] by blast
    qed
  qed
  then show "case s' of (l, r) \<Rightarrow> invar1 l \<and> invar2 r" "(\<lambda>(l, r) (le, re). ready1 l le \<and> ready2 r re) s' e"
    "return_ok key ret" by (simp_all add: s s')
next
  fix s e e'
  assume "case s of (l, r) \<Rightarrow> invar1 l \<and> invar2 r" "(\<lambda>(l, r) (le, re). ready1 l le \<and> ready2 r re) s e"
    "(\<lambda>(le, re) (le', re'). later1 le le' \<and> later2 re re') e e'"
  then show "(\<lambda>(l, r) (le, re). ready1 l le \<and> ready2 r re) s e'"
    using loc.ready_later rem.ready_later by (auto split: prod.splits)
next
  fix key s e s' ret evs
  assume "blank key" "layered_Allow \<lparr>ly_local = allow1, ly_remote = allow2, ly_sink = with_sink\<rparr> s e key = Some (s', ret, evs)"
  then show "s' = s" by (cases s; cases e) (simp add: layered_Allow_blank)
qed

end
