(* ===== verification/Mem_Store.thy ===== *)
theory Mem_Store
  imports Mem_Options
begin

unbundle bit_operations_syntax

section \<open>\<open>memory/hash.go\<close>, \<open>memory/state_store.go\<close>, \<open>memory/sharded_store.go\<close>\<close>

text \<open>
  The per-key state store, sharded by the hash of the key. This theory holds the data and the
  operations, in the order of the source, for one goroutine at a time: a lock is then never
  contended, a compare-and-swap never fails and nothing happens between an \<open>Unlock\<close> and the
  next \<open>Lock\<close>. A shard is named by its index. A Go map is an association list with distinct
  keys; the order in which \<open>range\<close> visits it is a parameter \<open>iter\<close>. An element of a
  \<open>container/list\<close> is a number (its address) paired with the entry it points to. The states
  behind the pointers \<open>T\<close> are values in the entries, written back after the callback ran.
\<close>

subsection \<open>FNV-1a\<close>

definition offset64 :: "64 word" where "offset64 = 14695981039346656037"
definition prime64 :: "64 word" where "prime64 = 1099511628211"

fun fnv1a64_loop :: "64 word \<Rightarrow> string \<Rightarrow> 64 word" where
  "fnv1a64_loop h [] = h"
| "fnv1a64_loop h (c # s) = fnv1a64_loop ((h XOR word_of_nat (byte_of c)) * prime64) s"

definition fnv1a64 :: "string \<Rightarrow> 64 word" where
  "fnv1a64 s = fnv1a64_loop offset64 s"

subsection \<open>Data\<close>

record 'v keyEntry =
  ke_value :: 'v
  ke_lastSeen :: time

record 'v lruEntry =
  le_key :: string
  le_value :: 'v
  le_lastSeen :: time

type_synonym element = nat

record 'v shard =
  items :: "(string \<times> 'v keyEntry) list"
  orderItems :: "string \<rightharpoonup> element"
  order :: "(element \<times> 'v lruEntry) list"
  lastCleanup :: time
  nextElem :: element

record 'v shardedStore =
  shards :: "'v shard list"
  st_opts :: options
  live :: int64
  create :: "time \<Rightarrow> 'v"
  lastSweep :: time
  evicts :: int64
  onEvict :: "event list option"

type_synonym 'v callback = "'v \<Rightarrow> time \<Rightarrow> 'v \<times> go_return"
type_synonym map_order = "string list \<Rightarrow> string list"

abbreviation isLRU :: "'v shardedStore \<Rightarrow> bool" where
  "isLRU s \<equiv> eviction (st_opts s) = EvictLRU"

text \<open>\<open>container/list\<close>: the operations the store uses, on the list of elements front to back.\<close>

definition list_Remove :: "element \<Rightarrow> (element \<times> 'a) list \<Rightarrow> (element \<times> 'a) list" where
  "list_Remove el xs = filter (\<lambda>p. fst p \<noteq> el) xs"

definition list_MoveToFront :: "element \<Rightarrow> (element \<times> 'a) list \<Rightarrow> (element \<times> 'a) list" where
  "list_MoveToFront el xs = filter (\<lambda>p. fst p = el) xs @ filter (\<lambda>p. fst p \<noteq> el) xs"

definition elem_update :: "element \<Rightarrow> ('a \<Rightarrow> 'a) \<Rightarrow> (element \<times> 'a) list \<Rightarrow> (element \<times> 'a) list" where
  "elem_update el f xs = map (\<lambda>p. if fst p = el then (el, f (snd p)) else p) xs"

subsection \<open>Construction\<close>

definition newShard :: "'v shard" where
  "newShard = \<lparr>items = [], orderItems = Map.empty, order = [], lastCleanup = 0, nextElem = 0\<rparr>"

definition newShardedStoreWithShards ::
  "options \<Rightarrow> int \<Rightarrow> (time \<Rightarrow> 'v) \<Rightarrow> event list option \<Rightarrow> 'v shardedStore" where
  "newShardedStoreWithShards opts shardCount cr onEv =
     \<lparr>shards = replicate (nat shardCount) newShard, st_opts = opts, live = 0, create = cr,
      lastSweep = 0, evicts = 0, onEvict = onEv\<rparr>"

definition newShardedStore ::
  "options \<Rightarrow> (time \<Rightarrow> 'v) \<Rightarrow> event list option \<Rightarrow> 'v shardedStore" where
  "newShardedStore opts cr onEv = newShardedStoreWithShards opts (nshards opts) cr onEv"

definition newStateStore ::
  "options \<Rightarrow> (time \<Rightarrow> 'v) \<Rightarrow> event list option \<Rightarrow> 'v shardedStore panics" where
  "newStateStore opts cr onEv =
     (if eviction opts = EvictReject \<or> eviction opts = EvictLRU
      then Inr (newShardedStore opts cr onEv)
      else Inl ''memory: invalid eviction policy'')"

definition shardFor :: "'v shardedStore \<Rightarrow> string \<Rightarrow> nat" where
  "shardFor s key = unat (fnv1a64 key AND word_of_nat (length (shards s) - 1))"

abbreviation setShard :: "'v shardedStore \<Rightarrow> nat \<Rightarrow> 'v shard \<Rightarrow> 'v shardedStore" where
  "setShard s i sh \<equiv> s\<lparr>shards := (shards s)[i := sh]\<rparr>"

subsection \<open>Cleanup and eviction\<close>

fun deleteExpiredMap :: "string list \<Rightarrow> 'v shard \<times> int64 \<Rightarrow> 'v shard \<times> int64" where
  "deleteExpiredMap [] (sh, lv) = (sh, lv)"
| "deleteExpiredMap (key # ks) (sh, lv) =
     (case map_of (items sh) key of
        Some _ \<Rightarrow> deleteExpiredMap ks (sh\<lparr>items := AList.delete key (items sh)\<rparr>, lv - 1)
      | None \<Rightarrow> deleteExpiredMap ks (sh, lv))"

definition expiredMap :: "options \<Rightarrow> map_order \<Rightarrow> 'v shard \<Rightarrow> time \<Rightarrow> string list" where
  "expiredMap opts iter sh now =
     filter (\<lambda>key. case map_of (items sh) key of
                     Some entry \<Rightarrow> keyTTL opts \<le> Sub now (ke_lastSeen entry)
                   | None \<Rightarrow> False)
       (take cleanupBatchSize (iter (map fst (items sh))))"

definition cleanupMap ::
  "map_order \<Rightarrow> 'v shardedStore \<Rightarrow> nat \<Rightarrow> time \<Rightarrow> 'v shardedStore" where
  "cleanupMap iter s i now =
     (let opts = st_opts s; sh = shards s ! i
      in if keyTTL opts \<le> 0 \<or> cleanupInterval opts \<le> 0 then s
         else if Sub now (lastCleanup sh) < cleanupInterval opts then s
         else let sh1 = sh\<lparr>lastCleanup := now\<rparr>;
                  (sh2, lv) = deleteExpiredMap (expiredMap opts iter sh1 now) (sh1, live s)
              in (setShard s i sh2)\<lparr>live := lv\<rparr>)"

fun deleteExpiredLRU ::
  "(element \<times> 'v lruEntry) list \<Rightarrow> 'v shard \<times> int64 \<Rightarrow> 'v shard \<times> int64" where
  "deleteExpiredLRU [] (sh, lv) = (sh, lv)"
| "deleteExpiredLRU ((el, entry) # es) (sh, lv) =
     (case orderItems sh (le_key entry) of
        Some _ \<Rightarrow> deleteExpiredLRU es
                    (sh\<lparr>orderItems := (orderItems sh)(le_key entry := None),
                        order := list_Remove el (order sh)\<rparr>, lv - 1)
      | None \<Rightarrow> deleteExpiredLRU es (sh, lv))"

definition expiredLRU :: "options \<Rightarrow> 'v shard \<Rightarrow> time \<Rightarrow> (element \<times> 'v lruEntry) list" where
  "expiredLRU opts sh now =
     filter (\<lambda>p. keyTTL opts \<le> Sub now (le_lastSeen (snd p))) (take cleanupBatchSize (order sh))"

definition cleanupLRU :: "'v shardedStore \<Rightarrow> nat \<Rightarrow> time \<Rightarrow> 'v shardedStore" where
  "cleanupLRU s i now =
     (let opts = st_opts s; sh = shards s ! i
      in if keyTTL opts \<le> 0 \<or> cleanupInterval opts \<le> 0 then s
         else if Sub now (lastCleanup sh) < cleanupInterval opts then s
         else let sh1 = sh\<lparr>lastCleanup := now\<rparr>;
                  (sh2, lv) = deleteExpiredLRU (expiredLRU opts sh1 now) (sh1, live s)
              in (setShard s i sh2)\<lparr>live := lv\<rparr>)"

definition evictFrom :: "'v shardedStore \<Rightarrow> nat \<Rightarrow> 'v shardedStore \<times> bool" where
  "evictFrom s i =
     (let sh = shards s ! i
      in if order sh = [] then (s, False)
         else let (el, entry) = last (order sh);
                  sh1 = sh\<lparr>orderItems := (orderItems sh)(le_key entry := None),
                           order := list_Remove el (order sh)\<rparr>
              in ((setShard s i sh1)\<lparr>live := live s - 1, evicts := evicts s + 1\<rparr>, True))"

fun evictAnyOther_loop :: "nat list \<Rightarrow> nat \<Rightarrow> 'v shardedStore \<Rightarrow> 'v shardedStore" where
  "evictAnyOther_loop [] self s = s"
| "evictAnyOther_loop (other # others) self s =
     (if other = self then evictAnyOther_loop others self s
      else let (s1, evicted) = evictFrom s other
           in if evicted then s1 else evictAnyOther_loop others self s1)"

definition evictAnyOther :: "'v shardedStore \<Rightarrow> nat \<Rightarrow> 'v shardedStore" where
  "evictAnyOther s self = evictAnyOther_loop [0..<length (shards s)] self s"

definition cleanupShard ::
  "map_order \<Rightarrow> 'v shardedStore \<Rightarrow> nat \<Rightarrow> time \<Rightarrow> 'v shardedStore" where
  "cleanupShard iter s i now = (if isLRU s then cleanupLRU s i now else cleanupMap iter s i now)"

fun sweep_loop :: "map_order \<Rightarrow> nat list \<Rightarrow> time \<Rightarrow> 'v shardedStore \<Rightarrow> 'v shardedStore" where
  "sweep_loop iter [] now s = s"
| "sweep_loop iter (i # is) now s = sweep_loop iter is now (cleanupShard iter s i now)"

definition sweepExpired :: "map_order \<Rightarrow> 'v shardedStore \<Rightarrow> time \<Rightarrow> 'v shardedStore" where
  "sweepExpired iter s now =
     (let opts = st_opts s
      in if keyTTL opts \<le> 0 \<or> cleanupInterval opts \<le> 0 then s
         else if Sub now (lastSweep s) < cleanupInterval opts then s
         else sweep_loop iter [0..<length (shards s)] now (s\<lparr>lastSweep := now\<rparr>))"

subsection \<open>Reserving a slot, looking a key up, running the callback\<close>

text \<open>
  The retry loop of \<open>reserveSlot\<close>. It is a partial function: \<open>None\<close> would be a loop that
  never leaves; \<open>reserveSlot_total\<close> below shows that it always leaves.
\<close>

partial_function (option) reserveSlot_loop ::
  "map_order \<Rightarrow> nat \<Rightarrow> time \<Rightarrow> bool \<Rightarrow> 'v shardedStore \<Rightarrow> ('v shardedStore \<times> bool) option" where
  "reserveSlot_loop iter i now swept s =
     (if live s < maxKeys (st_opts s) then Some (s\<lparr>live := live s + 1\<rparr>, True)
      else if isLRU s then
        (if snd (evictFrom s i) then reserveSlot_loop iter i now swept (fst (evictFrom s i))
         else let s1 = (if swept then s else sweepExpired iter s now);
                  s2 = (if maxKeys (st_opts s1) \<le> live s1 then evictAnyOther s1 i else s1)
              in reserveSlot_loop iter i now True s2)
      else if \<not> swept then reserveSlot_loop iter i now True (sweepExpired iter s now)
      else Some (s, False))"

declare reserveSlot_loop.simps [code]

definition reserveSlot ::
  "map_order \<Rightarrow> 'v shardedStore \<Rightarrow> nat \<Rightarrow> time \<Rightarrow> ('v shardedStore \<times> bool) option" where
  "reserveSlot iter s i now =
     (if maxKeys (st_opts s) \<le> 0 then Some (s\<lparr>live := live s + 1\<rparr>, True)
      else reserveSlot_loop iter i now False s)"

definition getOrCreateMap ::
  "map_order \<Rightarrow> 'v shardedStore \<Rightarrow> nat \<Rightarrow> string \<Rightarrow> time \<Rightarrow> ('v shardedStore \<times> 'v option) option" where
  "getOrCreateMap iter s i key now =
     (case map_of (items (shards s ! i)) key of
        Some entry \<Rightarrow>
          let sh = shards s ! i;
              s1 = setShard s i (sh\<lparr>items := AList.update key (entry\<lparr>ke_lastSeen := now\<rparr>) (items sh)\<rparr>)
          in Some (cleanupMap iter s1 i now, Some (ke_value entry))
      | None \<Rightarrow>
          (case reserveSlot iter (cleanupMap iter s i now) i now of
             None \<Rightarrow> None
           | Some (s1, ok) \<Rightarrow>
               if \<not> ok then Some (s1, None)
               else (case map_of (items (shards s1 ! i)) key of
                       Some entry \<Rightarrow>
                         let sh = shards s1 ! i
                         in Some ((setShard s1 i
                                    (sh\<lparr>items := AList.update key (entry\<lparr>ke_lastSeen := now\<rparr>) (items sh)\<rparr>))
                                    \<lparr>live := live s1 - 1\<rparr>, Some (ke_value entry))
                     | None \<Rightarrow>
                         let v = create s1 now; sh = shards s1 ! i
                         in Some (setShard s1 i
                                   (sh\<lparr>items := AList.update key \<lparr>ke_value = v, ke_lastSeen = now\<rparr> (items sh)\<rparr>),
                                  Some v))))"

text \<open>The touch of a found LRU element: the new \<open>lastSeen\<close>, then \<open>MoveToFront\<close>.\<close>

definition touchLRU :: "element \<Rightarrow> time \<Rightarrow> 'v shard \<Rightarrow> 'v shard" where
  "touchLRU el now sh =
     sh\<lparr>order := list_MoveToFront el
          (elem_update el (\<lambda>entry. entry\<lparr>le_lastSeen := now\<rparr>) (order sh))\<rparr>"

definition elem_value :: "'v shard \<Rightarrow> element \<Rightarrow> 'v option" where
  "elem_value sh el = map_option le_value (map_of (order sh) el)"

definition getOrCreateLRU ::
  "map_order \<Rightarrow> 'v shardedStore \<Rightarrow> nat \<Rightarrow> string \<Rightarrow> time \<Rightarrow> ('v shardedStore \<times> 'v option) option" where
  "getOrCreateLRU iter s i key now =
     (case orderItems (shards s ! i) key of
        Some el \<Rightarrow>
          let sh = shards s ! i
          in Some (cleanupLRU (setShard s i (touchLRU el now sh)) i now, elem_value sh el)
      | None \<Rightarrow>
          (case reserveSlot iter (cleanupLRU s i now) i now of
             None \<Rightarrow> None
           | Some (s1, ok) \<Rightarrow>
               if \<not> ok then Some (s1, None)
               else (case orderItems (shards s1 ! i) key of
                       Some el \<Rightarrow>
                         let sh = shards s1 ! i
                         in Some ((setShard s1 i (touchLRU el now sh))\<lparr>live := live s1 - 1\<rparr>,
                                  elem_value sh el)
                     | None \<Rightarrow>
                         let v = create s1 now; sh = shards s1 ! i; el = nextElem sh
                         in Some (setShard s1 i
                                   (sh\<lparr>order := (el, \<lparr>le_key = key, le_value = v, le_lastSeen = now\<rparr>) # order sh,
                                       orderItems := (orderItems sh)(key \<mapsto> el),
                                       nextElem := Suc el\<rparr>),
                                  Some v))))"

text \<open>Writing through the pointer the callback was given: the entry of the key gets the new state.\<close>

definition setValue :: "bool \<Rightarrow> string \<Rightarrow> 'v \<Rightarrow> 'v shard \<Rightarrow> 'v shard" where
  "setValue lru key v sh =
     (if lru
      then (case orderItems sh key of
              Some el \<Rightarrow> sh\<lparr>order := elem_update el (\<lambda>entry. entry\<lparr>le_value := v\<rparr>) (order sh)\<rparr>
            | None \<Rightarrow> sh)
      else (case map_of (items sh) key of
              Some entry \<Rightarrow> sh\<lparr>items := AList.update key (entry\<lparr>ke_value := v\<rparr>) (items sh)\<rparr>
            | None \<Rightarrow> sh))"

definition withState ::
  "map_order \<Rightarrow> 'v shardedStore \<Rightarrow> string \<Rightarrow> time \<Rightarrow> 'v callback
     \<Rightarrow> ('v shardedStore \<times> go_return) option" where
  "withState iter s key now fn =
     (let i = shardFor s key
      in case (if isLRU s then getOrCreateLRU iter s i key now else getOrCreateMap iter s i key now) of
           None \<Rightarrow> None
         | Some (s1, None) \<Rightarrow> Some (s1, (zero_Result, Some ErrMaxKeysExceeded))
         | Some (s1, Some v) \<Rightarrow>
             let (v', ret) = fn v now
             in Some (setShard s1 i (setValue (isLRU s1) key v' (shards s1 ! i)), ret))"

definition len :: "'v shardedStore \<Rightarrow> int" where
  "len s = live s"

definition drainEvictions :: "'v shardedStore \<Rightarrow> 'v shardedStore \<times> int \<times> event list" where
  "drainEvictions s =
     (let n = evicts s
      in (s\<lparr>evicts := 0\<rparr>, n,
          case onEvict s of None \<Rightarrow> [] | Some evs \<Rightarrow> concat (replicate (nat n) evs)))"

end
