(* ===== verification/Mem_Store_Inv.thy ===== *)
theory Mem_Store_Inv
  imports Mem_Store
begin

section \<open>The store's invariant\<close>

text \<open>
  The abstract content of a shard (keys with their state and last use), the invariant that ties
  the index, the list and the live counter together, and its preservation by every operation
  of the store.
\<close>

subsection \<open>Contents\<close>

definition entries :: "bool \<Rightarrow> 'v shard \<Rightarrow> (string \<times> 'v \<times> time) list" where
  "entries lru sh =
     (if lru then map (\<lambda>p. (le_key (snd p), le_value (snd p), le_lastSeen (snd p))) (order sh)
      else map (\<lambda>p. (fst p, ke_value (snd p), ke_lastSeen (snd p))) (items sh))"

definition shard_keys :: "bool \<Rightarrow> 'v shard \<Rightarrow> string list" where
  "shard_keys lru sh = map fst (entries lru sh)"

definition index_of :: "(element \<times> 'v lruEntry) list \<Rightarrow> string \<rightharpoonup> element" where
  "index_of xs = map_of (map (\<lambda>p. (le_key (snd p), fst p)) xs)"

definition shard_ok :: "bool \<Rightarrow> 'v shard \<Rightarrow> bool" where
  "shard_ok lru sh \<longleftrightarrow>
     distinct (shard_keys lru sh)
     \<and> (lru \<longrightarrow> distinct (map fst (order sh)) \<and> (\<forall>p \<in> set (order sh). fst p < nextElem sh)
               \<and> orderItems sh = index_of (order sh))"

definition key_count :: "'v shardedStore \<Rightarrow> int" where
  "key_count s = (\<Sum>sh\<leftarrow>shards s. int (length (shard_keys (isLRU s) sh)))"

text \<open>\<open>store_inv r\<close>: the invariant with \<open>r\<close> slots reserved for keys not yet inserted.\<close>

definition store_inv :: "int \<Rightarrow> 'v shardedStore \<Rightarrow> bool" where
  "store_inv r s \<longleftrightarrow>
     shards s \<noteq> [] \<and> length (shards s) \<le> 1024
     \<and> (\<forall>i < length (shards s). shard_ok (isLRU s) (shards s ! i)
          \<and> (\<forall>k \<in> set (shard_keys (isLRU s) (shards s ! i)). shardFor s k = i))
     \<and> live s = key_count s + r
     \<and> (0 < maxKeys (st_opts s) \<longrightarrow> live s \<le> maxKeys (st_opts s))
     \<and> 0 \<le> evicts s"

definition st_lookup :: "'v shardedStore \<Rightarrow> string \<Rightarrow> ('v \<times> time) option" where
  "st_lookup s k = map_of (entries (isLRU s) (shards s ! shardFor s k)) k"

text \<open>\<open>s'\<close> holds a part of what \<open>s\<close> holds.\<close>

definition sub_store :: "'v shardedStore \<Rightarrow> 'v shardedStore \<Rightarrow> bool" where
  "sub_store s' s \<longleftrightarrow>
     st_opts s' = st_opts s \<and> create s' = create s \<and> onEvict s' = onEvict s
     \<and> length (shards s') = length (shards s)
     \<and> (\<forall>i < length (shards s).
          map_of (entries (isLRU s) (shards s' ! i)) \<subseteq>\<^sub>m map_of (entries (isLRU s) (shards s ! i)))"

subsection \<open>Shard-level facts\<close>

lemma shardFor_less: "shards s \<noteq> [] \<Longrightarrow> length (shards s) \<le> 1024 \<Longrightarrow> shardFor s k < length (shards s)"
proof -
  assume n: "shards s \<noteq> []" "length (shards s) \<le> 1024"
  let ?m = "word_of_nat (length (shards s) - 1) :: 64 word"
  have "unat (fnv1a64 k AND ?m) \<le> unat ?m"
    by (rule word_and_le1 [THEN word_le_nat_alt [THEN iffD1]])
  also have "unat ?m = length (shards s) - 1"
    using n by (simp add: unat_of_nat)
  finally show ?thesis using n unfolding shardFor_def by (cases "shards s") auto
qed

lemma map_of_filter_le:
  "distinct (map fst xs) \<Longrightarrow> map_of (filter P xs) \<subseteq>\<^sub>m map_of xs"
  by (induction xs) (auto simp: map_le_def dom_def map_of_eq_None_iff rev_image_eqI)

lemma entries_lastCleanup [simp]: "entries lru (sh\<lparr>lastCleanup := t\<rparr>) = entries lru sh"
  by (simp add: entries_def)

lemma keys_LRU: "shard_keys True sh = map (le_key \<circ> snd) (order sh)"
  by (simp add: shard_keys_def entries_def)

lemma keys_Map: "shard_keys False sh = map fst (items sh)"
  by (simp add: shard_keys_def entries_def)

lemma dom_entries: "dom (map_of (entries lru sh)) = set (shard_keys lru sh)"
  by (simp add: dom_map_of_conv_image_fst shard_keys_def)

lemma shard_ok_cleanup [simp]: "shard_ok lru (sh\<lparr>lastCleanup := t\<rparr>) = shard_ok lru sh"
  by (simp add: shard_ok_def shard_keys_def)

lemma distinct_map_filter_key: "distinct (map f xs) \<Longrightarrow> distinct (map f (filter P xs))"
  by (simp add: distinct_map inj_on_def)

lemma entries_filter_order:
  assumes "distinct (shard_keys True sh)" "order sh' = filter P (order sh)"
  shows "map_of (entries True sh') \<subseteq>\<^sub>m map_of (entries True sh)"
proof -
  let ?f = "\<lambda>p. (le_key (snd p), le_value (snd p), le_lastSeen (snd p))"
  have "map_of (map ?f (filter P xs)) \<subseteq>\<^sub>m map_of (map ?f xs)" if "distinct (map (le_key \<circ> snd) xs)" for xs
    using that by (induction xs) (auto simp: map_le_def dom_def map_of_eq_None_iff image_iff)
  then show ?thesis using assms by (simp add: keys_LRU entries_def)
qed

lemma entries_filter_items:
  assumes "distinct (shard_keys False sh)" "items sh' = filter P (items sh)"
  shows "map_of (entries False sh') \<subseteq>\<^sub>m map_of (entries False sh)"
proof -
  let ?f = "\<lambda>p. (fst p, ke_value (snd p), ke_lastSeen (snd p))"
  have "map_of (map ?f (filter P xs)) \<subseteq>\<^sub>m map_of (map ?f xs)" if "distinct (map fst xs)" for xs
    using that by (induction xs) (auto simp: map_le_def dom_def map_of_eq_None_iff image_iff)
  then show ?thesis using assms by (simp add: keys_Map entries_def)
qed

lemma index_of_Some:
  "distinct (map (le_key \<circ> snd) xs) \<Longrightarrow> index_of xs k = Some el \<longleftrightarrow> (\<exists>e. (el, e) \<in> set xs \<and> le_key e = k)"
  by (force simp: index_of_def map_of_eq_Some_iff comp_def)

lemma index_of_remove:
  assumes "distinct (map (le_key \<circ> snd) xs)" "distinct (map fst xs)" "(el, e) \<in> set xs"
  shows "index_of (list_Remove el xs) = (index_of xs)(le_key e := None)"
  using assms
proof (induction xs)
  case (Cons p xs)
  show ?case
  proof (cases "fst p = el")
    case True
    then have "p = (el, e)" using Cons.prems by (cases p) (auto simp: image_iff)
    moreover have "list_Remove el xs = xs"
      using Cons.prems True unfolding list_Remove_def by (intro filter_True) (auto simp: image_iff)
    moreover have "index_of xs (le_key e) = None"
      using Cons.prems \<open>p = (el, e)\<close> by (auto simp: index_of_def map_of_eq_None_iff image_iff)
    ultimately show ?thesis by (auto simp: list_Remove_def index_of_def fun_eq_iff)
  next
    case False
    then have e: "(el, e) \<in> set xs" using Cons.prems by auto
    moreover have "le_key (snd p) \<noteq> le_key e" using Cons.prems e by force
    ultimately show ?thesis using Cons False
      by (auto simp: list_Remove_def index_of_def fun_eq_iff)
  qed
qed simp

definition removeElem :: "element \<Rightarrow> 'v lruEntry \<Rightarrow> 'v shard \<Rightarrow> 'v shard" where
  "removeElem el e sh =
     sh\<lparr>orderItems := (orderItems sh)(le_key e := None), order := list_Remove el (order sh)\<rparr>"

lemma shard_ok_removeElem:
  assumes "shard_ok True sh" "(el, e) \<in> set (order sh)"
  shows "shard_ok True (removeElem el e sh)"
  using assms index_of_remove [of "order sh" el e]
  by (auto simp: shard_ok_def removeElem_def keys_LRU list_Remove_def intro: distinct_map_filter_key)

lemma length_removeElem:
  assumes "shard_ok True sh" "(el, e) \<in> set (order sh)"
  shows "int (length (order (removeElem el e sh))) = int (length (order sh)) - 1"
proof -
  have "distinct (map fst xs) \<Longrightarrow> (el, e) \<in> set xs \<Longrightarrow> length (list_Remove el xs) + 1 = length xs" for xs :: "(element \<times> 'a lruEntry) list"
  proof (induction xs)
    case (Cons p xs)
    show ?case
    proof (cases "fst p = el")
      case True
      then have "list_Remove el xs = xs"
        using Cons.prems unfolding list_Remove_def by (intro filter_True) (auto simp: image_iff)
      then show ?thesis using True by (simp add: list_Remove_def)
    next
      case False
      then show ?thesis using Cons by (auto simp: list_Remove_def)
    qed
  qed simp
  from this [of "order sh"] show ?thesis using assms by (simp add: removeElem_def shard_ok_def)
qed

lemma deleteExpiredMap_eq:
  assumes "distinct (map fst (items sh))"
  shows "deleteExpiredMap ks (sh, lv) =
     (sh\<lparr>items := filter (\<lambda>p. fst p \<notin> set ks) (items sh)\<rparr>,
      lv - int (length (filter (\<lambda>p. fst p \<in> set ks) (items sh))))"
  using assms
proof (induction ks arbitrary: sh lv)
  case Nil
  show ?case by simp
next
  case (Cons key ks)
  have del: "AList.delete key xs = filter (\<lambda>p. fst p \<noteq> key) xs" for xs :: "(string \<times> 'a keyEntry) list"
    by (auto simp: AList.delete_eq intro: filter_cong)
  show ?case
  proof (cases "map_of (items sh) key")
    case None
    then have "key \<notin> fst ` set (items sh)" by (simp add: map_of_eq_None_iff)
    then have "filter (\<lambda>p. fst p \<notin> set ks) (items sh) = filter (\<lambda>p. fst p \<notin> set (key # ks)) (items sh)"
      "filter (\<lambda>p. fst p \<in> set ks) (items sh) = filter (\<lambda>p. fst p \<in> set (key # ks)) (items sh)"
      by (auto intro!: filter_cong)
    then show ?thesis using Cons None by simp
  next
    case (Some e)
    let ?sh = "sh\<lparr>items := AList.delete key (items sh)\<rparr>"
    have cnt: "length (filter (\<lambda>p. fst p \<in> set (key # ks)) xs)
        = length (filter (\<lambda>p. fst p \<in> set ks) (filter (\<lambda>p. fst p \<noteq> key) xs)) + 1"
      if "distinct (map fst xs)" "map_of xs key = Some e" for xs
      using that
    proof (induction xs)
      case (Cons p xs)
      show ?case
      proof (cases "fst p = key")
        case True
        then have "key \<notin> fst ` set xs" using Cons.prems by auto
        then have "filter (\<lambda>p. fst p \<noteq> key) xs = xs"
          "filter (\<lambda>p. fst p \<in> set (key # ks)) xs = filter (\<lambda>p. fst p \<in> set ks) xs"
          by (auto intro!: filter_True filter_cong)
        then show ?thesis using True by simp
      next
        case False
        then show ?thesis using Cons by (cases p) auto
      qed
    qed simp
    have "distinct (map fst (items ?sh))" using Cons.prems by (simp add: del distinct_map_filter_key)
    from Cons.IH [OF this, of "lv - 1"] show ?thesis
      using Some cnt [OF Cons.prems Some] by (simp add: del conj_commute)
  qed
qed

lemma deleteExpiredLRU_step:
  assumes "shard_ok True sh" "(el, e) \<in> set (order sh)"
  shows "deleteExpiredLRU ((el, e) # es) (sh, lv) = deleteExpiredLRU es (removeElem el e sh, lv - 1)"
proof -
  have "orderItems sh (le_key e) = Some el"
    using assms index_of_Some [of "order sh" "le_key e" el] by (auto simp: shard_ok_def keys_LRU)
  then show ?thesis by (simp add: removeElem_def)
qed

lemma deleteExpiredLRU_ok:
  assumes "shard_ok True sh" "set es \<subseteq> set (order sh)" "distinct (map fst es)"
  shows "\<exists>sh'. deleteExpiredLRU es (sh, lv) = (sh', lv - int (length es))
           \<and> shard_ok True sh' \<and> order sh' = filter (\<lambda>p. fst p \<notin> fst ` set es) (order sh)
           \<and> int (length (order sh')) = int (length (order sh)) - int (length es)
           \<and> lastCleanup sh' = lastCleanup sh"
  using assms
proof (induction es arbitrary: sh lv)
  case Nil
  then show ?case by simp
next
  case (Cons p es)
  obtain el e where p: "p = (el, e)" by (cases p)
  let ?sh = "removeElem el e sh"
  have m: "(el, e) \<in> set (order sh)" using Cons.prems p by simp
  have ok: "shard_ok True ?sh" using Cons.prems(1) m by (rule shard_ok_removeElem)
  have d: "distinct (map fst es)" and nel: "el \<notin> fst ` set es" using Cons.prems(3) p by auto
  have sub: "set es \<subseteq> set (order ?sh)"
  proof
    fix q assume "q \<in> set es"
    then have "q \<in> set (order sh)" "fst q \<noteq> el" using Cons.prems(2) nel by auto
    then show "q \<in> set (order ?sh)" by (simp add: removeElem_def list_Remove_def)
  qed
  obtain sh' where sh': "deleteExpiredLRU es (?sh, lv - 1) = (sh', lv - 1 - int (length es))"
    "shard_ok True sh'" "order sh' = filter (\<lambda>p. fst p \<notin> fst ` set es) (order ?sh)"
    "int (length (order sh')) = int (length (order ?sh)) - int (length es)"
    "lastCleanup sh' = lastCleanup ?sh"
    using Cons.IH [OF ok sub d, of "lv - 1"] by blast
  have "order sh' = filter (\<lambda>q. fst q \<notin> fst ` set (p # es)) (order sh)"
    by (simp add: sh'(3) removeElem_def list_Remove_def p conj_commute)
  moreover have "deleteExpiredLRU (p # es) (sh, lv) = (sh', lv - int (length (p # es)))"
    unfolding p deleteExpiredLRU_step [OF Cons.prems(1) m] sh'(1) by simp
  moreover have "int (length (order sh')) = int (length (order sh)) - int (length (p # es))"
    unfolding sh'(4) length_removeElem [OF Cons.prems(1) m] by simp
  moreover have "lastCleanup sh' = lastCleanup sh" unfolding sh'(5) by (simp add: removeElem_def)
  ultimately show ?case using sh'(2) by blast
qed

subsection \<open>Store-level facts\<close>

lemma sub_store_refl [simp]: "sub_store s s"
  by (simp add: sub_store_def)

lemma sub_store_trans: "sub_store a b \<Longrightarrow> sub_store b c \<Longrightarrow> sub_store a c"
  unfolding sub_store_def by (auto intro: map_le_trans)

lemma shardFor_cong: "length (shards s') = length (shards s) \<Longrightarrow> shardFor s' k = shardFor s k"
  by (simp add: shardFor_def)

lemma shardFor_updates [simp]:
  "shardFor (setShard s i sh) k = shardFor s k"
  "shardFor (s\<lparr>live := n\<rparr>) k = shardFor s k"
  "shardFor (s\<lparr>lastSweep := t\<rparr>) k = shardFor s k"
  "shardFor (s\<lparr>evicts := e\<rparr>) k = shardFor s k"
  by (simp_all add: shardFor_def)

lemma key_count_setShard:
  "i < length (shards s) \<Longrightarrow>
   key_count ((setShard s i sh)\<lparr>live := lv\<rparr>) =
     key_count s - int (length (shard_keys (isLRU s) (shards s ! i))) + int (length (shard_keys (isLRU s) sh))"
  by (simp add: key_count_def sum_list_update_int)

text \<open>Replacing one shard by one that holds less, with the counter adjusted.\<close>

lemma shrink_shard:
  assumes inv: "store_inv r s" and i: "i < length (shards s)"
    and ok: "shard_ok (isLRU s) sh'"
    and le: "map_of (entries (isLRU s) sh') \<subseteq>\<^sub>m map_of (entries (isLRU s) (shards s ! i))"
    and lv: "lv = live s - (int (length (shard_keys (isLRU s) (shards s ! i))) - int (length (shard_keys (isLRU s) sh')))"
    and len: "length (shard_keys (isLRU s) sh') \<le> length (shard_keys (isLRU s) (shards s ! i))"
    and ev: "0 \<le> ev"
  shows "store_inv r (s\<lparr>shards := (shards s)[i := sh'], live := lv, lastSweep := t, evicts := ev\<rparr>)"
    and "sub_store (s\<lparr>shards := (shards s)[i := sh'], live := lv, lastSweep := t, evicts := ev\<rparr>) s"
proof -
  let ?s = "s\<lparr>shards := (shards s)[i := sh'], live := lv, lastSweep := t, evicts := ev\<rparr>"
  have sub: "set (shard_keys (isLRU s) sh') \<subseteq> set (shard_keys (isLRU s) (shards s ! i))"
    using map_le_implies_dom_le [OF le] by (simp add: dom_entries)
  have "key_count ?s = key_count s - int (length (shard_keys (isLRU s) (shards s ! i)))
          + int (length (shard_keys (isLRU s) sh'))"
    using i by (simp add: key_count_def sum_list_update_int)
  then have live: "live ?s = key_count ?s + r" using inv lv unfolding store_inv_def by simp
  have each: "shard_ok (isLRU s) (shards ?s ! j) \<and> (\<forall>k \<in> set (shard_keys (isLRU s) (shards ?s ! j)). shardFor ?s k = j)"
    if "j < length (shards s)" for j
  proof (cases "j = i")
    case True
    have "shardFor s k = i" if "k \<in> set (shard_keys (isLRU s) sh')" for k
      using inv sub i that unfolding store_inv_def by blast
    then show ?thesis using True ok i by (simp add: shardFor_def)
  next
    case False
    then show ?thesis using inv that unfolding store_inv_def by (simp add: shardFor_def)
  qed
  have "lv \<le> live s" using lv len by simp
  then have bound: "0 < maxKeys (st_opts s) \<Longrightarrow> lv \<le> maxKeys (st_opts s)"
    using inv unfolding store_inv_def by linarith
  show "store_inv r ?s"
    using inv live each bound ev unfolding store_inv_def by simp
  show "sub_store ?s s"
    using le i by (simp add: sub_store_def nth_list_update)
qed

lemma shrink_shard_plain:
  assumes "store_inv r s" "i < length (shards s)" "shard_ok (isLRU s) sh'"
    "map_of (entries (isLRU s) sh') \<subseteq>\<^sub>m map_of (entries (isLRU s) (shards s ! i))"
    "lv = live s - (int (length (shard_keys (isLRU s) (shards s ! i))) - int (length (shard_keys (isLRU s) sh')))"
    "length (shard_keys (isLRU s) sh') \<le> length (shard_keys (isLRU s) (shards s ! i))"
  shows "store_inv r ((setShard s i sh')\<lparr>live := lv\<rparr>) \<and> sub_store ((setShard s i sh')\<lparr>live := lv\<rparr>) s"
proof -
  have "0 \<le> evicts s" using assms(1) by (simp add: store_inv_def)
  from shrink_shard [OF assms this, of "lastSweep s"] show ?thesis by simp
qed

lemma store_inv_shard_ok: "store_inv r s \<Longrightarrow> i < length (shards s) \<Longrightarrow> shard_ok (isLRU s) (shards s ! i)"
  by (simp add: store_inv_def)

lemma store_inv_bound: "store_inv r s \<Longrightarrow> 0 < maxKeys (st_opts s) \<Longrightarrow> live s \<le> maxKeys (st_opts s)"
  unfolding store_inv_def by blast

lemma store_inv_shardFor: "store_inv r s \<Longrightarrow> shardFor s k < length (shards s)"
  by (rule shardFor_less) (simp_all add: store_inv_def)

lemma expiredLRU_sub: "set (expiredLRU opts sh now) \<subseteq> set (order sh)"
  by (auto simp: expiredLRU_def dest: in_set_takeD)

lemma distinct_expiredLRU: "distinct (map fst (order sh)) \<Longrightarrow> distinct (map fst (expiredLRU opts sh now))"
  unfolding expiredLRU_def by (intro distinct_map_filter_key) (metis distinct_take take_map)

lemma cleanupMap_ok:
  assumes "store_inv r s" "i < length (shards s)" "\<not> isLRU s"
  shows "store_inv r (cleanupMap iter s i now) \<and> sub_store (cleanupMap iter s i now) s"
proof (cases "keyTTL (st_opts s) \<le> 0 \<or> cleanupInterval (st_opts s) \<le> 0
              \<or> Sub now (lastCleanup (shards s ! i)) < cleanupInterval (st_opts s)")
  case True
  then show ?thesis using assms by (auto simp: cleanupMap_def Let_def)
next
  case False
  let ?sh = "(shards s ! i)\<lparr>lastCleanup := now\<rparr>"
  let ?ks = "expiredMap (st_opts s) iter ?sh now"
  let ?P = "\<lambda>p. fst p \<notin> set ?ks"
  let ?sh' = "?sh\<lparr>items := filter ?P (items ?sh)\<rparr>"
  let ?lv = "live s - int (length (filter (\<lambda>p. fst p \<in> set ?ks) (items ?sh)))"
  have ok: "shard_ok False (shards s ! i)" using store_inv_shard_ok [OF assms(1,2)] assms(3) by simp
  then have d: "distinct (map fst (items ?sh))" by (simp add: shard_ok_def keys_Map)
  have eq: "cleanupMap iter s i now = (setShard s i ?sh')\<lparr>live := ?lv\<rparr>"
    using False deleteExpiredMap_eq [OF d, of ?ks "live s"] by (simp add: cleanupMap_def Let_def)
  have len: "int (length (filter (\<lambda>p. fst p \<in> set ?ks) (items ?sh))) + int (length (filter ?P (items ?sh)))
        = int (length (items ?sh))"
    unfolding of_nat_add [symmetric] by (simp only: sum_length_filter_compl)
  have "shard_ok False ?sh'" using ok d by (simp add: shard_ok_def keys_Map distinct_map_filter_key)
  moreover have "map_of (entries False ?sh') \<subseteq>\<^sub>m map_of (entries False (shards s ! i))"
    using d by (intro entries_filter_items [where P = ?P]) (simp_all add: keys_Map)
  ultimately show ?thesis
    unfolding eq using assms len by (intro shrink_shard_plain) (simp_all add: keys_Map)
qed

lemma cleanupLRU_ok:
  assumes "store_inv r s" "i < length (shards s)" "isLRU s"
  shows "store_inv r (cleanupLRU s i now) \<and> sub_store (cleanupLRU s i now) s"
proof (cases "keyTTL (st_opts s) \<le> 0 \<or> cleanupInterval (st_opts s) \<le> 0
              \<or> Sub now (lastCleanup (shards s ! i)) < cleanupInterval (st_opts s)")
  case True
  then show ?thesis using assms by (auto simp: cleanupLRU_def Let_def)
next
  case False
  let ?sh = "(shards s ! i)\<lparr>lastCleanup := now\<rparr>"
  let ?es = "expiredLRU (st_opts s) ?sh now"
  have ok: "shard_ok True ?sh" using store_inv_shard_ok [OF assms(1,2)] assms(3) by simp
  then have d: "distinct (map fst (order ?sh))" by (simp add: shard_ok_def)
  obtain sh' where sh': "deleteExpiredLRU ?es (?sh, live s) = (sh', live s - int (length ?es))"
    "shard_ok True sh'" "order sh' = filter (\<lambda>p. fst p \<notin> fst ` set ?es) (order ?sh)"
    "int (length (order sh')) = int (length (order ?sh)) - int (length ?es)"
    using deleteExpiredLRU_ok [OF ok expiredLRU_sub distinct_expiredLRU [OF d], of "st_opts s" now "live s"]
    by blast
  have eq: "cleanupLRU s i now = (setShard s i sh')\<lparr>live := live s - int (length ?es)\<rparr>"
    using False sh'(1) by (simp add: cleanupLRU_def Let_def)
  have "map_of (entries True sh') \<subseteq>\<^sub>m map_of (entries True (shards s ! i))"
    using ok by (intro entries_filter_order [where P = "\<lambda>p. fst p \<notin> fst ` set ?es"])
      (simp_all add: shard_ok_def sh'(3) keys_LRU)
  then show ?thesis
    unfolding eq using assms sh' by (intro shrink_shard_plain) (simp_all add: keys_LRU)
qed

lemma cleanupShard_ok:
  assumes "store_inv r s" "i < length (shards s)"
  shows "store_inv r (cleanupShard iter s i now) \<and> sub_store (cleanupShard iter s i now) s"
  using cleanupMap_ok [OF assms] cleanupLRU_ok [OF assms] by (simp add: cleanupShard_def)

lemma evictFrom_ok:
  assumes "store_inv r s" "i < length (shards s)" "isLRU s" "order (shards s ! i) \<noteq> []"
  shows "store_inv r (fst (evictFrom s i)) \<and> sub_store (fst (evictFrom s i)) s
         \<and> live (fst (evictFrom s i)) = live s - 1 \<and> snd (evictFrom s i)"
proof -
  let ?sh = "shards s ! i"
  obtain el e where l: "last (order ?sh) = (el, e)" by (cases "last (order ?sh)")
  then have m: "(el, e) \<in> set (order ?sh)" using assms(4) by (metis last_in_set)
  have ok: "shard_ok True ?sh" using store_inv_shard_ok [OF assms(1,2)] assms(3) by simp
  let ?sh' = "removeElem el e ?sh"
  have eq: "evictFrom s i = (s\<lparr>shards := (shards s)[i := ?sh'], live := live s - 1,
      lastSweep := lastSweep s, evicts := evicts s + 1\<rparr>, True)"
    using assms(4) l by (simp add: evictFrom_def Let_def removeElem_def)
  have ok': "shard_ok True ?sh'" using ok m by (rule shard_ok_removeElem)
  have "map_of (entries True ?sh') \<subseteq>\<^sub>m map_of (entries True ?sh)"
    using ok by (intro entries_filter_order [where P = "\<lambda>p. fst p \<noteq> el"])
      (simp_all add: shard_ok_def removeElem_def list_Remove_def)
  moreover note shrink_shard [OF assms(1,2), of ?sh' "live s - 1" "evicts s + 1" "lastSweep s"]
  ultimately show ?thesis
    using assms(1,3) ok' length_removeElem [OF ok m] unfolding eq
    by (simp add: keys_LRU store_inv_def)
qed

lemma evictFrom_empty: "order (shards s ! i) = [] \<Longrightarrow> evictFrom s i = (s, False)"
  by (simp add: evictFrom_def)

lemma evictFrom_snd: "snd (evictFrom s i) \<longleftrightarrow> order (shards s ! i) \<noteq> []"
  by (simp add: evictFrom_def Let_def split: prod.splits)

lemma evictAnyOther_loop_ok:
  assumes "store_inv r s" "isLRU s" "set js \<subseteq> {..<length (shards s)}"
  shows "store_inv r (evictAnyOther_loop js self s) \<and> sub_store (evictAnyOther_loop js self s) s
         \<and> live (evictAnyOther_loop js self s) =
             (if \<exists>j \<in> set js. j \<noteq> self \<and> order (shards s ! j) \<noteq> [] then live s - 1 else live s)"
  using assms(3)
proof (induction js)
  case Nil
  then show ?case using assms by simp
next
  case (Cons j js)
  show ?case
  proof (cases "j = self \<or> order (shards s ! j) = []")
    case True
    then show ?thesis using Cons by (auto simp: evictFrom_empty)
  next
    case False
    then have "j < length (shards s)" using Cons.prems by simp
    then show ?thesis
      using False evictFrom_ok [OF assms(1) _ assms(2), of j]
      by (simp add: case_prod_beta Let_def)
  qed
qed

lemma evictAnyOther_ok:
  assumes "store_inv r s" "isLRU s"
  shows "store_inv r (evictAnyOther s self) \<and> sub_store (evictAnyOther s self) s
         \<and> live (evictAnyOther s self) =
             (if \<exists>j < length (shards s). j \<noteq> self \<and> order (shards s ! j) \<noteq> [] then live s - 1 else live s)"
proof -
  have "(\<exists>j \<in> set [0..<length (shards s)]. P j) \<longleftrightarrow> (\<exists>j < length (shards s). P j)" for P by auto
  then show ?thesis
    unfolding evictAnyOther_def using evictAnyOther_loop_ok [OF assms, of "[0..<length (shards s)]" self]
    by (simp add: lessThan_atLeast0)
qed

lemma sweep_loop_ok:
  assumes "store_inv r s" "set js \<subseteq> {..<length (shards s)}"
  shows "store_inv r (sweep_loop iter js now s) \<and> sub_store (sweep_loop iter js now s) s"
  using assms
proof (induction js arbitrary: s)
  case Nil
  then show ?case by simp
next
  case (Cons j js)
  let ?s = "cleanupShard iter s j now"
  have c: "store_inv r ?s \<and> sub_store ?s s" using Cons.prems by (intro cleanupShard_ok) auto
  then have "length (shards ?s) = length (shards s)" by (simp add: sub_store_def)
  then have "store_inv r (sweep_loop iter js now ?s) \<and> sub_store (sweep_loop iter js now ?s) ?s"
    using Cons.prems c by (intro Cons.IH) auto
  then show ?case using c sub_store_trans [of _ ?s s] by auto
qed

lemma store_inv_lastSweep [simp]: "store_inv r (s\<lparr>lastSweep := t\<rparr>) = store_inv r s"
  by (simp add: store_inv_def key_count_def shardFor_def)

lemma sub_store_lastSweep [simp]: "sub_store a (s\<lparr>lastSweep := t\<rparr>) = sub_store a s"
  by (simp add: sub_store_def)

lemma sweepExpired_ok:
  assumes "store_inv r s"
  shows "store_inv r (sweepExpired iter s now) \<and> sub_store (sweepExpired iter s now) s"
  using assms sweep_loop_ok [of r "s\<lparr>lastSweep := now\<rparr>" "[0..<length (shards s)]" iter now]
  by (simp add: sweepExpired_def Let_def lessThan_atLeast0)

subsection \<open>Reserving a slot\<close>

lemma store_inv_reserve:
  assumes "store_inv 0 s" "0 < maxKeys (st_opts s) \<Longrightarrow> live s < maxKeys (st_opts s)"
  shows "store_inv 1 (s\<lparr>live := live s + 1\<rparr>)"
proof -
  have "key_count (s\<lparr>live := live s + 1\<rparr>) = key_count s" by (simp add: key_count_def)
  moreover have "shardFor (s\<lparr>live := live s + 1\<rparr>) k = shardFor s k" for k by (rule shardFor_cong) simp
  ultimately show ?thesis using assms unfolding store_inv_def by auto
qed

lemma sub_store_live [simp]: "sub_store (s\<lparr>live := n\<rparr>) t = sub_store s t"
  by (simp add: sub_store_def)

lemma sub_store_empty_order:
  assumes "sub_store s' s" "isLRU s" "i < length (shards s)" "order (shards s ! i) = []"
  shows "order (shards s' ! i) = []"
proof -
  have "map_of (entries True (shards s' ! i)) \<subseteq>\<^sub>m map_of (entries True (shards s ! i))"
    using assms(1,2,3) by (simp add: sub_store_def)
  then have "set (shard_keys True (shards s' ! i)) \<subseteq> set (shard_keys True (shards s ! i))"
    using map_le_implies_dom_le dom_entries by metis
  then show ?thesis using assms(4) by (simp add: keys_LRU)
qed

lemma key_count_pos:
  assumes "isLRU s" "0 < key_count s"
  shows "\<exists>j < length (shards s). order (shards s ! j) \<noteq> []"
proof (rule ccontr)
  assume "\<not> ?thesis"
  then have "\<forall>sh \<in> set (shards s). order sh = []" by (auto simp: in_set_conv_nth)
  then have "key_count s = (\<Sum>sh\<leftarrow>shards s. 0)"
    unfolding key_count_def using assms(1)
    by (intro arg_cong [where f = sum_list] map_cong) (simp_all add: keys_LRU)
  then show False using assms(2) by simp
qed

lemma reserveSlot_loop_room:
  "live s < maxKeys (st_opts s) \<Longrightarrow> reserveSlot_loop iter i now swept s = Some (s\<lparr>live := live s + 1\<rparr>, True)"
  by (subst reserveSlot_loop.simps) simp

lemma evict_makes_room:
  assumes inv: "store_inv 0 s" and lru: "isLRU s" and i: "i < length (shards s)" and max: "0 < maxKeys (st_opts s)"
    and e: "order (shards s ! i) = []"
  defines "s2 \<equiv> (if maxKeys (st_opts s) \<le> live s then evictAnyOther s i else s)"
  shows "store_inv 0 s2 \<and> sub_store s2 s \<and> live s2 < maxKeys (st_opts s)"
proof (cases "maxKeys (st_opts s) \<le> live s")
  case True
  then have "live s = maxKeys (st_opts s)" and "live s = key_count s" using inv max by (simp_all add: store_inv_def)
  then obtain j where "j < length (shards s)" "order (shards s ! j) \<noteq> []" using key_count_pos [OF lru] max by auto
  then have "live (evictAnyOther s i) = live s - 1" using evictAnyOther_ok [OF inv lru, of i] e by auto
  then show ?thesis
    using True evictAnyOther_ok [OF inv lru, of i] \<open>live s = maxKeys (st_opts s)\<close> by (simp add: s2_def)
next
  case False
  then show ?thesis using inv by (simp add: s2_def)
qed

lemma reserveSlot_total:
  assumes inv: "store_inv 0 s" and i: "i < length (shards s)"
  shows "\<exists>s' ok. reserveSlot iter s i now = Some (s', ok) \<and> sub_store s' s
     \<and> (if ok then store_inv 1 s'
         else store_inv 0 s' \<and> \<not> isLRU s \<and> 0 < maxKeys (st_opts s) \<and> maxKeys (st_opts s) \<le> live s')"
proof (cases "maxKeys (st_opts s) \<le> 0 \<or> live s < maxKeys (st_opts s)")
  case True
  then have "reserveSlot iter s i now = Some (s\<lparr>live := live s + 1\<rparr>, True)"
    by (auto simp: reserveSlot_def reserveSlot_loop_room)
  moreover have "store_inv 1 (s\<lparr>live := live s + 1\<rparr>)" using True by (intro store_inv_reserve [OF inv]) linarith
  ultimately show ?thesis by (intro exI [of _ "s\<lparr>live := live s + 1\<rparr>"] exI [of _ True]) simp
next
  case full: False
  then have max: "0 < maxKeys (st_opts s)" by simp
  have R: "reserveSlot iter s i now = reserveSlot_loop iter i now False s" using full by (simp add: reserveSlot_def)
  have retry: ?thesis if "reserveSlot iter s i now = reserveSlot_loop iter i now b s1" "store_inv 0 s1"
    "sub_store s1 s" "live s1 < maxKeys (st_opts s)" for b s1
  proof -
    have "st_opts s1 = st_opts s" using that by (simp add: sub_store_def)
    then have "reserveSlot iter s i now = Some (s1\<lparr>live := live s1 + 1\<rparr>, True)"
      and "store_inv 1 (s1\<lparr>live := live s1 + 1\<rparr>)"
      using that by (simp_all add: reserveSlot_loop_room store_inv_reserve)
    then show ?thesis using that by (intro exI [of _ "s1\<lparr>live := live s1 + 1\<rparr>"] exI [of _ True]) simp
  qed
  let ?w = "sweepExpired iter s now"
  have w: "store_inv 0 ?w" "sub_store ?w s" using sweepExpired_ok [OF inv] by auto
  then have wo: "st_opts ?w = st_opts s" "length (shards ?w) = length (shards s)" by (simp_all add: sub_store_def)
  show ?thesis
  proof (cases "isLRU s")
    case lru: True
    show ?thesis
    proof (cases "order (shards s ! i) = []")
      case True
      let ?s2 = "if maxKeys (st_opts ?w) \<le> live ?w then evictAnyOther ?w i else ?w"
      have "order (shards ?w ! i) = []" using sub_store_empty_order [OF w(2) lru i True] .
      then have r: "store_inv 0 ?s2 \<and> sub_store ?s2 ?w \<and> live ?s2 < maxKeys (st_opts ?w)"
        using w wo lru i max by (intro evict_makes_room) simp_all
      have "reserveSlot iter s i now = reserveSlot_loop iter i now True ?s2"
        unfolding R using full lru True
        by (subst reserveSlot_loop.simps) (simp add: evictFrom_snd Let_def)
      from retry [OF this] show ?thesis using r wo sub_store_trans [OF _ w(2), of ?s2] by metis
    next
      case False
      note ev = evictFrom_ok [OF inv i lru False]
      have "live s \<le> maxKeys (st_opts s)" using inv max by (simp add: store_inv_def)
      then have lt: "live (fst (evictFrom s i)) < maxKeys (st_opts s)" using ev by linarith
      have "reserveSlot iter s i now = reserveSlot_loop iter i now False (fst (evictFrom s i))"
        unfolding R using full lru False by (subst reserveSlot_loop.simps) (simp add: evictFrom_snd)
      then show ?thesis
        by (rule retry [OF _ conjunct1 [OF ev] conjunct1 [OF conjunct2 [OF ev]] lt])
    qed
  next
    case rej: False
    have eq: "reserveSlot iter s i now = reserveSlot_loop iter i now True ?w"
      unfolding R using full rej by (subst reserveSlot_loop.simps) simp
    show ?thesis
    proof (cases "live ?w < maxKeys (st_opts s)")
      case True
      then show ?thesis using eq w by (intro retry) simp_all
    next
      case False
      then have "reserveSlot iter s i now = Some (?w, False)"
        unfolding eq using rej wo by (subst reserveSlot_loop.simps) simp
      then show ?thesis using w False rej max by (intro exI [of _ ?w] exI [of _ False]) simp
    qed
  qed
qed

end
