(* ===== verification/Mem_Store_Spec.thy ===== *)
theory Mem_Store_Spec
  imports Mem_Store_Inv
begin

section \<open>What the store promises: the \<open>stateStore\<close> interface\<close>

text \<open>
  Lookup and update laws of the shards, the interface of \<open>memory/state_store.go\<close> as a locale,
  and its interpretation on the sharded store: \<open>withState\<close> always returns, keeps the
  invariant, runs the callback on the key's state (created when absent), writes the new state
  back, and leaves every other key alone or drops it.
\<close>

subsection \<open>Updating one shard\<close>

lemma length_keys_card: "shard_ok lru sh \<Longrightarrow> length (shard_keys lru sh) = card (dom (map_of (entries lru sh)))"
  by (simp add: dom_entries shard_ok_def distinct_card)

lemma put_count:
  assumes "shard_ok lru sh" "shard_ok lru sh'" "map_of (entries lru sh') = (map_of (entries lru sh))(key \<mapsto> x)"
  shows "length (shard_keys lru sh') =
           length (shard_keys lru sh) + (if map_of (entries lru sh) key = None then 1 else 0)"
  using assms by (simp add: length_keys_card card_insert_if finite_dom_map_of domIff)

lemma put_shard:
  assumes inv: "store_inv r s" and i: "i = shardFor s key"
    and ok: "shard_ok (isLRU s) sh'"
    and upd: "map_of (entries (isLRU s) sh') = (map_of (entries (isLRU s) (shards s ! i)))(key \<mapsto> x)"
  defines "r' \<equiv> r - (if st_lookup s key = None then 1 else 0)"
  shows "store_inv r' (setShard s i sh')"
    and "st_lookup (setShard s i sh') = (st_lookup s)(key \<mapsto> x)"
proof -
  have il: "i < length (shards s)" unfolding i using inv by (rule store_inv_shardFor)
  have oki: "shard_ok (isLRU s) (shards s ! i)" using inv il by (rule store_inv_shard_ok)
  have cnt: "key_count (setShard s i sh') = key_count s + (if st_lookup s key = None then 1 else 0)"
    using put_count [OF oki ok upd] il i by (simp add: key_count_def sum_list_update_int st_lookup_def)
  have keys: "set (shard_keys (isLRU s) sh') = insert key (set (shard_keys (isLRU s) (shards s ! i)))"
    using upd dom_entries [of "isLRU s" sh'] dom_entries [of "isLRU s" "shards s ! i"] by simp
  have each: "shard_ok (isLRU s) ((shards s)[i := sh'] ! j)
      \<and> (\<forall>k \<in> set (shard_keys (isLRU s) ((shards s)[i := sh'] ! j)). shardFor s k = j)"
    if "j < length (shards s)" for j
  proof (cases "j = i")
    case True
    have "shardFor s k = i" if "k \<in> set (shard_keys (isLRU s) sh')" for k
      using inv il that i unfolding store_inv_def keys by blast
    then show ?thesis using True ok il by simp
  next
    case False
    then show ?thesis using inv that unfolding store_inv_def by simp
  qed
  show "store_inv r' (setShard s i sh')"
    using inv store_inv_bound [OF inv] each cnt unfolding store_inv_def r'_def by simp
  show "st_lookup (setShard s i sh') = (st_lookup s)(key \<mapsto> x)"
  proof
    fix k
    show "st_lookup (setShard s i sh') k = ((st_lookup s)(key \<mapsto> x)) k"
      using upd il i by (cases "shardFor s k = i") (auto simp: st_lookup_def)
  qed
qed

subsection \<open>Map shards\<close>

declare st_lookup_def [store_view]

lemma map_of_entries_Map [store_view]:
  "map_of (entries False sh) k = map_option (\<lambda>e. (ke_value e, ke_lastSeen e)) (map_of (items sh) k)"
proof -
  have "map_of (map (\<lambda>p. (fst p, ke_value (snd p), ke_lastSeen (snd p))) xs) k
      = map_option (\<lambda>e. (ke_value e, ke_lastSeen e)) (map_of xs k)" for xs
    by (induction xs) auto
  then show ?thesis by (simp add: entries_def)
qed

lemma update_items:
  fixes e :: "'v keyEntry" and key :: string
  assumes "shard_ok False sh"
  defines "sh' \<equiv> sh\<lparr>items := AList.update key e (items sh)\<rparr>"
  shows "shard_ok False sh'"
    and "map_of (entries False sh') = (map_of (entries False sh))(key \<mapsto> (ke_value e, ke_lastSeen e))"
proof -
  show "shard_ok False sh'"
    using assms by (simp add: shard_ok_def keys_Map distinct_update)
  show "map_of (entries False sh') = (map_of (entries False sh))(key \<mapsto> (ke_value e, ke_lastSeen e))"
    unfolding sh'_def by (rule ext) (simp add: map_of_entries_Map update_conv')
qed

subsection \<open>LRU shards\<close>

abbreviation lru_view :: "element \<times> 'v lruEntry \<Rightarrow> string \<times> 'v \<times> time" where
  "lru_view p \<equiv> (le_key (snd p), le_value (snd p), le_lastSeen (snd p))"

lemma elem_update_fst [simp]: "map fst (elem_update el f xs) = map fst xs"
  by (induction xs) (auto simp: elem_update_def)

lemma elem_update_keys:
  "(\<And>x. le_key (f x) = le_key x) \<Longrightarrow> map (le_key \<circ> snd) (elem_update el f xs) = map (le_key \<circ> snd) xs"
  by (induction xs) (auto simp: elem_update_def)

lemma elem_update_notin: "el \<notin> fst ` set xs \<Longrightarrow> elem_update el f xs = xs"
  by (induction xs) (auto simp: elem_update_def)

lemma elem_update_index:
  "(\<And>x. le_key (f x) = le_key x) \<Longrightarrow> index_of (elem_update el f xs) = index_of xs"
  unfolding index_of_def elem_update_def by (simp add: comp_def if_distrib cong: if_cong)

lemma elem_update_view:
  assumes "distinct (map (le_key \<circ> snd) xs)" "distinct (map fst xs)" "(el, e) \<in> set xs"
    "\<And>x. le_key (f x) = le_key x"
  shows "map_of (map lru_view (elem_update el f xs)) =
           (map_of (map lru_view xs))(le_key e \<mapsto> (le_value (f e), le_lastSeen (f e)))"
  using assms(1-3)
proof (induction xs)
  case (Cons p xs)
  show ?case
  proof (cases "fst p = el")
    case True
    then have p: "p = (el, e)" using Cons.prems by (cases p) (auto simp: image_iff)
    then have "elem_update el f xs = xs" using Cons.prems by (intro elem_update_notin) auto
    then show ?thesis using p assms(4) by (simp add: elem_update_def fun_eq_iff)
  next
    case False
    then have e: "(el, e) \<in> set xs" using Cons.prems by auto
    then have "le_key (snd p) \<noteq> le_key e" using Cons.prems by force
    then show ?thesis using Cons e False by (auto simp: elem_update_def fun_eq_iff)
  qed
qed simp

lemma move_set: "set (list_MoveToFront el xs) = set xs"
  by (auto simp: list_MoveToFront_def)

lemma move_distinct: "distinct (map g xs) \<Longrightarrow> distinct (map g (list_MoveToFront el xs))"
  unfolding list_MoveToFront_def distinct_map distinct_append inj_on_def by auto

lemma move_map_of:
  assumes "distinct (map (fst \<circ> g) xs)"
  shows "map_of (map g (list_MoveToFront el xs)) = map_of (map g xs)"
proof -
  have "distinct (map fst (map g xs))" "distinct (map fst (map g (list_MoveToFront el xs)))"
    using assms move_distinct [of "fst \<circ> g" xs el] by simp_all
  then show ?thesis by (simp add: map_of_inject_set move_set)
qed

lemma order_of_index:
  assumes "shard_ok True sh" "orderItems sh key = Some el"
  obtains e where "(el, e) \<in> set (order sh)" "le_key e = key"
  using assms index_of_Some [of "order sh" key el] by (auto simp: shard_ok_def keys_LRU)

lemma index_None_iff:
  "shard_ok True sh \<Longrightarrow> orderItems sh key = None \<longleftrightarrow> map_of (entries True sh) key = None"
  by (auto simp: shard_ok_def index_of_def entries_def map_of_eq_None_iff image_iff)

lemma view_of_elem:
  assumes "shard_ok True sh" "(el, e) \<in> set (order sh)"
  shows "map_of (entries True sh) (le_key e) = Some (le_value e, le_lastSeen e)"
    and "elem_value sh el = Some (le_value e)"
proof -
  have "map_of (map lru_view (order sh)) (le_key e) = Some (le_value e, le_lastSeen e)"
    using assms by (intro map_of_is_SomeI) (force simp: shard_ok_def keys_LRU comp_def)+
  then show "map_of (entries True sh) (le_key e) = Some (le_value e, le_lastSeen e)"
    by (simp add: entries_def)
  have "map_of (order sh) el = Some e"
    using assms by (intro map_of_is_SomeI) (simp_all add: shard_ok_def)
  then show "elem_value sh el = Some (le_value e)" by (simp add: elem_value_def)
qed

lemma update_elem:
  assumes ok: "shard_ok True sh" and m: "(el, e) \<in> set (order sh)" and f: "\<And>x. le_key (f x) = le_key x"
  defines "sh' \<equiv> sh\<lparr>order := elem_update el f (order sh)\<rparr>"
  shows "shard_ok True sh'"
    and "map_of (entries True sh') = (map_of (entries True sh))(le_key e \<mapsto> (le_value (f e), le_lastSeen (f e)))"
proof -
  have "\<forall>p \<in> set (elem_update el f (order sh)). fst p < nextElem sh"
    using ok m by (auto simp: elem_update_def shard_ok_def)
  then show "shard_ok True sh'"
    using ok by (simp add: shard_ok_def sh'_def keys_LRU elem_update_keys [of f] elem_update_index [of f] f)
  show "map_of (entries True sh') = (map_of (entries True sh))(le_key e \<mapsto> (le_value (f e), le_lastSeen (f e)))"
    using ok elem_update_view [of "order sh" el e f] m f
    by (simp add: shard_ok_def sh'_def keys_LRU entries_def)
qed

lemma touchLRU_ok:
  assumes ok: "shard_ok True sh" and m: "(el, e) \<in> set (order sh)"
  shows "shard_ok True (touchLRU el now sh)"
    and "map_of (entries True (touchLRU el now sh)) = (map_of (entries True sh))(le_key e \<mapsto> (le_value e, now))"
proof -
  let ?f = "\<lambda>entry. entry\<lparr>le_lastSeen := now\<rparr>"
  let ?sh = "sh\<lparr>order := elem_update el ?f (order sh)\<rparr>"
  have u: "shard_ok True ?sh" "map_of (entries True ?sh) = (map_of (entries True sh))(le_key e \<mapsto> (le_value e, now))"
    using update_elem [OF ok m, of ?f] by simp_all
  have t: "touchLRU el now sh = ?sh\<lparr>order := list_MoveToFront el (order ?sh)\<rparr>" by (simp add: touchLRU_def)
  have d: "distinct (map (le_key \<circ> snd) (order ?sh))" using u(1) by (simp only: shard_ok_def keys_LRU)
  have "index_of (list_MoveToFront el (order ?sh)) = index_of (order ?sh)"
    unfolding index_of_def using d by (intro move_map_of) (simp add: comp_def)
  then show "shard_ok True (touchLRU el now sh)"
    using u(1) move_distinct [OF d, of el] unfolding t shard_ok_def keys_LRU
    by (simp add: move_set move_distinct)
  have "map_of (map lru_view (list_MoveToFront el (order ?sh))) = map_of (map lru_view (order ?sh))"
    using d by (intro move_map_of) (simp add: comp_def)
  then show "map_of (entries True (touchLRU el now sh)) = (map_of (entries True sh))(le_key e \<mapsto> (le_value e, now))"
    using u(2) unfolding t by (simp add: entries_def)
qed

lemma pushFront_ok:
  fixes v :: 'v and now :: time
  assumes ok: "shard_ok True sh" and new: "orderItems sh key = None"
  defines "sh' \<equiv> sh\<lparr>order := (nextElem sh, \<lparr>le_key = key, le_value = v, le_lastSeen = now\<rparr>) # order sh,
                   orderItems := (orderItems sh)(key \<mapsto> nextElem sh), nextElem := Suc (nextElem sh)\<rparr>"
  shows "shard_ok True sh'"
    and "map_of (entries True sh') = (map_of (entries True sh))(key \<mapsto> (v, now))"
proof -
  have "key \<notin> set (shard_keys True sh)"
    using index_None_iff [OF ok] new dom_entries [of True sh] by (auto simp: domIff)
  then show "shard_ok True sh'"
    using ok by (auto simp: shard_ok_def sh'_def keys_LRU index_of_def less_Suc_eq)
  show "map_of (entries True sh') = (map_of (entries True sh))(key \<mapsto> (v, now))"
    by (simp add: sh'_def entries_def)
qed

subsection \<open>Cleanup keeps what was just used\<close>

lemma sub_store_lookup:
  assumes "sub_store s' s" "store_inv r s"
  shows "st_lookup s' k = st_lookup s k \<or> st_lookup s' k = None"
proof -
  have sf: "shardFor s' k = shardFor s k" and opts: "st_opts s' = st_opts s"
    using assms(1) by (auto simp: sub_store_def intro: shardFor_cong)
  have "shardFor s k < length (shards s)" using assms(2) by (rule store_inv_shardFor)
  then have "map_of (entries (isLRU s) (shards s' ! shardFor s k)) \<subseteq>\<^sub>m map_of (entries (isLRU s) (shards s ! shardFor s k))"
    using assms(1) by (simp add: sub_store_def)
  then show ?thesis unfolding st_lookup_def sf opts map_le_def dom_def by blast
qed

lemma map_of_filter_key: "P key \<Longrightarrow> map_of (filter (\<lambda>p. P (fst p)) xs) key = map_of xs key"
  by (induction xs) auto

lemma Sub_self [simp]: "Sub t t = 0"
  by (simp add: Sub_def sat64_def min_int64_def max_int64_def)

lemma cleanupMap_fresh:
  assumes inv: "store_inv r s" and "\<not> isLRU s" and i: "i = shardFor s key"
    and fresh: "st_lookup s key = Some (v, now)"
  shows "st_lookup (cleanupMap iter s i now) key = Some (v, now)"
proof (cases "keyTTL (st_opts s) \<le> 0 \<or> cleanupInterval (st_opts s) \<le> 0
              \<or> Sub now (lastCleanup (shards s ! i)) < cleanupInterval (st_opts s)")
  case True
  then show ?thesis using fresh by (auto simp: cleanupMap_def Let_def)
next
  case False
  let ?sh = "(shards s ! i)\<lparr>lastCleanup := now\<rparr>"
  let ?ks = "expiredMap (st_opts s) iter ?sh now"
  have il: "i < length (shards s)" unfolding i using inv by (rule store_inv_shardFor)
  have d: "distinct (map fst (items ?sh))"
    using store_inv_shard_ok [OF inv il] assms(2) by (simp add: shard_ok_def keys_Map)
  obtain e where e: "map_of (items ?sh) key = Some e" "ke_value e = v" "ke_lastSeen e = now"
    using fresh assms(2) i by (auto simp: store_view)
  then have "key \<notin> set ?ks" using False by (auto simp: expiredMap_def)
  then have "map_of (filter (\<lambda>p. fst p \<notin> set ?ks) (items ?sh)) key = Some e"
    using e(1) map_of_filter_key [of "\<lambda>k. k \<notin> set ?ks" key "items ?sh"] by simp
  moreover have "cleanupMap iter s i now =
      (setShard s i (?sh\<lparr>items := filter (\<lambda>p. fst p \<notin> set ?ks) (items ?sh)\<rparr>))
        \<lparr>live := live s - int (length (filter (\<lambda>p. fst p \<in> set ?ks) (items ?sh)))\<rparr>"
    using False deleteExpiredMap_eq [OF d, of ?ks "live s"] by (simp add: cleanupMap_def Let_def)
  moreover have "shardFor (cleanupMap iter s i now) key = i"
    unfolding i using cleanupMap_ok [OF inv il assms(2)] i by (intro shardFor_cong) (simp add: sub_store_def)
  ultimately show ?thesis using e il assms(2) by (simp add: store_view)
qed

lemma cleanupLRU_fresh:
  assumes inv: "store_inv r s" and lru: "isLRU s" and i: "i = shardFor s key"
    and fresh: "st_lookup s key = Some (v, now)"
  shows "st_lookup (cleanupLRU s i now) key = Some (v, now)"
proof (cases "keyTTL (st_opts s) \<le> 0 \<or> cleanupInterval (st_opts s) \<le> 0
              \<or> Sub now (lastCleanup (shards s ! i)) < cleanupInterval (st_opts s)")
  case True
  then show ?thesis using fresh by (auto simp: cleanupLRU_def Let_def)
next
  case False
  let ?sh = "(shards s ! i)\<lparr>lastCleanup := now\<rparr>"
  let ?es = "expiredLRU (st_opts s) ?sh now"
  have il: "i < length (shards s)" unfolding i using inv by (rule store_inv_shardFor)
  have ok: "shard_ok True ?sh" using store_inv_shard_ok [OF inv il] lru by simp
  then have d: "distinct (map fst (order ?sh))" by (simp add: shard_ok_def)
  obtain sh' where sh': "deleteExpiredLRU ?es (?sh, live s) = (sh', live s - int (length ?es))"
    "shard_ok True sh'" "order sh' = filter (\<lambda>p. fst p \<notin> fst ` set ?es) (order ?sh)"
    using deleteExpiredLRU_ok [OF ok expiredLRU_sub distinct_expiredLRU [OF d], of "st_opts s" now "live s"]
    by blast
  have eq: "cleanupLRU s i now = (setShard s i sh')\<lparr>live := live s - int (length ?es)\<rparr>"
    using False sh'(1) by (simp add: cleanupLRU_def Let_def)
  have "map_of (map lru_view (order ?sh)) key = Some (v, now)"
    using fresh lru i by (simp add: st_lookup_def entries_def)
  then have "(key, v, now) \<in> set (map lru_view (order ?sh))" by (rule map_of_SomeD)
  then obtain el e where e: "(el, e) \<in> set (order ?sh)" "le_key e = key" "le_value e = v" "le_lastSeen e = now"
    by auto
  have "el \<notin> fst ` set ?es"
  proof
    assume "el \<in> fst ` set ?es"
    then obtain e' where e': "(el, e') \<in> set ?es" by auto
    then have "(el, e') \<in> set (order ?sh)" using expiredLRU_sub by blast
    then have "e' = e" using e(1) d by (metis map_of_is_SomeI option.inject)
    then show False using e' e(4) False by (auto simp: expiredLRU_def)
  qed
  then have "(el, e) \<in> set (order sh')" using e(1) sh'(3) by simp
  then have "map_of (entries True sh') key = Some (v, now)" using view_of_elem(1) [OF sh'(2)] e by metis
  moreover have "shardFor (cleanupLRU s i now) key = i"
    unfolding i using cleanupLRU_ok [OF inv il lru] i by (intro shardFor_cong) (simp add: sub_store_def)
  ultimately show ?thesis using eq il lru by (simp add: st_lookup_def)
qed

subsection \<open>Getting or creating a state\<close>

text \<open>What changes for the other keys: nothing, or they are gone.\<close>

definition frame_store :: "string \<Rightarrow> 'v shardedStore \<Rightarrow> 'v shardedStore \<Rightarrow> bool" where
  "frame_store key s s' \<longleftrightarrow>
     st_opts s' = st_opts s \<and> create s' = create s \<and> onEvict s' = onEvict s
     \<and> length (shards s') = length (shards s)
     \<and> (\<forall>k. k \<noteq> key \<longrightarrow> st_lookup s' k = st_lookup s k \<or> st_lookup s' k = None)"

lemma frame_sub: "sub_store s' s \<Longrightarrow> store_inv r s \<Longrightarrow> frame_store key s s'"
  using sub_store_lookup [of s' s r] by (auto simp: frame_store_def sub_store_def)

lemma frame_trans: "frame_store key a b \<Longrightarrow> frame_store key b c \<Longrightarrow> frame_store key a c"
  unfolding frame_store_def by metis

lemma frame_put:
  "st_lookup (setShard s i sh) = (st_lookup s)(key \<mapsto> x) \<Longrightarrow> frame_store key s (setShard s i sh)"
  by (simp add: frame_store_def)

text \<open>The outcome of \<open>getOrCreateMap\<close> and \<open>getOrCreateLRU\<close>: a state for the key, or a full store.\<close>

definition got :: "'v shardedStore \<Rightarrow> string \<Rightarrow> time \<Rightarrow> 'v shardedStore \<Rightarrow> 'v option \<Rightarrow> bool" where
  "got s key now s1 res \<longleftrightarrow>
     store_inv 0 s1 \<and> frame_store key s s1
     \<and> (case res of
           None \<Rightarrow> \<not> isLRU s \<and> 0 < maxKeys (st_opts s) \<and> maxKeys (st_opts s) \<le> live s1
                     \<and> st_lookup s key = None \<and> st_lookup s1 key = None
         | Some v \<Rightarrow> v = (case st_lookup s key of Some (v0, _) \<Rightarrow> v0 | None \<Rightarrow> create s now)
                     \<and> st_lookup s1 key = Some (v, now))"

lemma got_hit:
  assumes inv: "store_inv 0 s" and hit: "st_lookup s key = Some (v, t)"
    and ok: "shard_ok (isLRU s) sh'" and i: "i = shardFor s key"
    and upd: "map_of (entries (isLRU s) sh') = (map_of (entries (isLRU s) (shards s ! i)))(key \<mapsto> (v, now))"
    and sub: "sub_store s2 (setShard s i sh')" "store_inv 0 s2"
    and fresh: "st_lookup s2 key = Some (v, now)"
  shows "got s key now s2 (Some v)"
proof -
  have inv1: "store_inv 0 (setShard s i sh')" using put_shard(1) [OF inv i ok upd] hit by simp
  have "frame_store key s (setShard s i sh')" by (rule frame_put) (rule put_shard(2) [OF inv i ok upd])
  then have "frame_store key s s2" using frame_sub [OF sub(1) inv1] by (rule frame_trans)
  then show ?thesis using sub(2) fresh hit by (simp add: got_def)
qed

lemma got_new:
  assumes inv: "store_inv 0 s" and sub: "sub_store s1 s" and inv1: "store_inv 1 s1"
    and new: "st_lookup s key = None" and i: "i = shardFor s key"
    and ok: "shard_ok (isLRU s1) sh'"
    and upd: "map_of (entries (isLRU s1) sh') = (map_of (entries (isLRU s1) (shards s1 ! i)))(key \<mapsto> (create s1 now, now))"
  shows "got s key now (setShard s1 i sh') (Some (create s1 now))"
proof -
  have i1: "i = shardFor s1 key" using i sub by (simp add: sub_store_def shardFor_def)
  have n1: "st_lookup s1 key = None" using sub_store_lookup [OF sub inv, of key] new by simp
  have "frame_store key s1 (setShard s1 i sh')" by (rule frame_put) (rule put_shard(2) [OF inv1 i1 ok upd])
  then have "frame_store key s (setShard s1 i sh')" by (rule frame_trans [OF frame_sub [OF sub inv]])
  moreover have "create s1 = create s" using sub by (simp add: sub_store_def)
  ultimately show ?thesis
    using put_shard [OF inv1 i1 ok upd] n1 new by (simp add: got_def)
qed

lemma got_full:
  assumes "store_inv 0 s" "sub_store s1 s" "store_inv 0 s1" "st_lookup s key = None"
    "\<not> isLRU s" "0 < maxKeys (st_opts s)" "maxKeys (st_opts s) \<le> live s1"
  shows "got s key now s1 None"
  using assms frame_sub [OF assms(2,1), of key] sub_store_lookup [OF assms(2,1), of key] by (auto simp: got_def)

lemma getOrCreateMap_ok:
  assumes inv: "store_inv 0 s" and rej: "\<not> isLRU s" and i: "i = shardFor s key"
  shows "\<exists>s1 res. getOrCreateMap iter s i key now = Some (s1, res) \<and> got s key now s1 res"
proof (cases "map_of (items (shards s ! i)) key")
  case (Some e)
  have il: "i < length (shards s)" unfolding i using inv by (rule store_inv_shardFor)
  have oki: "shard_ok False (shards s ! i)" using store_inv_shard_ok [OF inv il] rej by simp
  let ?e = "e\<lparr>ke_lastSeen := now\<rparr>"
  let ?sh = "(shards s ! i)\<lparr>items := AList.update key ?e (items (shards s ! i))\<rparr>"
  let ?s1 = "setShard s i ?sh"
  have hit: "st_lookup s key = Some (ke_value e, ke_lastSeen e)"
    using Some rej i by (simp add: store_view)
  have u: "shard_ok (isLRU s) ?sh"
    "map_of (entries (isLRU s) ?sh) = (map_of (entries (isLRU s) (shards s ! i)))(key \<mapsto> (ke_value e, now))"
    using update_items [OF oki, of key ?e] rej by simp_all
  have inv1: "store_inv 0 ?s1" using put_shard(1) [OF inv i u] hit by simp
  have c: "store_inv 0 (cleanupMap iter ?s1 i now) \<and> sub_store (cleanupMap iter ?s1 i now) ?s1"
    using inv1 il rej by (intro cleanupMap_ok) simp_all
  have "st_lookup (cleanupMap iter ?s1 i now) key = Some (ke_value e, now)"
    using inv1 rej i put_shard(2) [OF inv i u] by (intro cleanupMap_fresh) simp_all
  then have "got s key now (cleanupMap iter ?s1 i now) (Some (ke_value e))"
    using got_hit [OF inv hit u(1) i u(2) conjunct2 [OF c] conjunct1 [OF c]] by blast
  then show ?thesis using Some by (simp add: getOrCreateMap_def Let_def)
next
  case None
  have il: "i < length (shards s)" unfolding i using inv by (rule store_inv_shardFor)
  have new: "st_lookup s key = None" using None rej i by (simp add: store_view)
  let ?c = "cleanupMap iter s i now"
  have c: "store_inv 0 ?c" "sub_store ?c s" using cleanupMap_ok [OF inv il rej] by blast+
  then have ilc: "i < length (shards ?c)" and optc: "st_opts ?c = st_opts s" using il by (simp_all add: sub_store_def)
  obtain s1 ok where r: "reserveSlot iter ?c i now = Some (s1, ok)" "sub_store s1 ?c"
    "if ok then store_inv 1 s1
     else store_inv 0 s1 \<and> \<not> isLRU ?c \<and> 0 < maxKeys (st_opts ?c) \<and> maxKeys (st_opts ?c) \<le> live s1"
    using reserveSlot_total [OF c(1) ilc, of iter now] by blast
  have sub: "sub_store s1 s" using r(2) c(2) by (rule sub_store_trans)
  show ?thesis
  proof (cases ok)
    case False
    then have "got s key now s1 None" using r(3) optc by (intro got_full [OF inv sub _ new rej]) simp_all
    then show ?thesis using None r(1) False by (simp add: getOrCreateMap_def)
  next
    case True
    then have inv1: "store_inv 1 s1" using r(3) by simp
    have i1: "i = shardFor s1 key" and rej1: "\<not> isLRU s1"
      using i sub rej by (simp_all add: sub_store_def shardFor_def)
    have "st_lookup s1 key = None" using sub_store_lookup [OF sub inv, of key] new by simp
    then have n1: "map_of (items (shards s1 ! i)) key = None"
      using i1 rej1 by (simp add: store_view)
    have "i < length (shards s1)" using il sub by (simp add: sub_store_def)
    then have ok1: "shard_ok False (shards s1 ! i)" using store_inv_shard_ok [OF inv1] rej1 by simp
    let ?e = "\<lparr>ke_value = create s1 now, ke_lastSeen = now\<rparr>"
    have "got s key now (setShard s1 i ((shards s1 ! i)\<lparr>items := AList.update key ?e (items (shards s1 ! i))\<rparr>))
            (Some (create s1 now))"
      using update_items [OF ok1, of key ?e] rej1 by (intro got_new [OF inv sub inv1 new i]) simp_all
    then show ?thesis using None r(1) True n1 by (simp add: getOrCreateMap_def Let_def)
  qed
qed

lemma getOrCreateLRU_ok:
  assumes inv: "store_inv 0 s" and lru: "isLRU s" and i: "i = shardFor s key"
  shows "\<exists>s1 res. getOrCreateLRU iter s i key now = Some (s1, res) \<and> got s key now s1 res"
proof (cases "orderItems (shards s ! i) key")
  case (Some el)
  have il: "i < length (shards s)" unfolding i using inv by (rule store_inv_shardFor)
  have oki: "shard_ok True (shards s ! i)" using store_inv_shard_ok [OF inv il] lru by simp
  obtain e where e: "(el, e) \<in> set (order (shards s ! i))" "le_key e = key"
    using oki Some by (rule order_of_index)
  let ?sh = "touchLRU el now (shards s ! i)"
  let ?s1 = "setShard s i ?sh"
  have hit: "st_lookup s key = Some (le_value e, le_lastSeen e)"
    using view_of_elem(1) [OF oki e(1)] lru i e(2) by (simp add: st_lookup_def)
  have u: "shard_ok (isLRU s) ?sh"
    "map_of (entries (isLRU s) ?sh) = (map_of (entries (isLRU s) (shards s ! i)))(key \<mapsto> (le_value e, now))"
    using touchLRU_ok [OF oki e(1), of now] lru e(2) by simp_all
  have inv1: "store_inv 0 ?s1" using put_shard(1) [OF inv i u] hit by simp
  have c: "store_inv 0 (cleanupLRU ?s1 i now) \<and> sub_store (cleanupLRU ?s1 i now) ?s1"
    using inv1 il lru by (intro cleanupLRU_ok) simp_all
  have "st_lookup (cleanupLRU ?s1 i now) key = Some (le_value e, now)"
    using inv1 lru i put_shard(2) [OF inv i u] by (intro cleanupLRU_fresh) simp_all
  then have "got s key now (cleanupLRU ?s1 i now) (Some (le_value e))"
    using got_hit [OF inv hit u(1) i u(2) conjunct2 [OF c] conjunct1 [OF c]] by blast
  then show ?thesis using Some view_of_elem(2) [OF oki e(1)] by (simp add: getOrCreateLRU_def Let_def)
next
  case None
  have il: "i < length (shards s)" unfolding i using inv by (rule store_inv_shardFor)
  have oki: "shard_ok True (shards s ! i)" using store_inv_shard_ok [OF inv il] lru by simp
  have new: "st_lookup s key = None" using index_None_iff [OF oki] None lru i by (simp add: st_lookup_def)
  let ?c = "cleanupLRU s i now"
  have c: "store_inv 0 ?c" "sub_store ?c s" using cleanupLRU_ok [OF inv il lru] by blast+
  then have ilc: "i < length (shards ?c)" and lruc: "isLRU ?c" using il lru by (simp_all add: sub_store_def)
  obtain s1 ok where r: "reserveSlot iter ?c i now = Some (s1, ok)" "sub_store s1 ?c"
    "if ok then store_inv 1 s1
     else store_inv 0 s1 \<and> \<not> isLRU ?c \<and> 0 < maxKeys (st_opts ?c) \<and> maxKeys (st_opts ?c) \<le> live s1"
    using reserveSlot_total [OF c(1) ilc, of iter now] by blast
  have sub: "sub_store s1 s" using r(2) c(2) by (rule sub_store_trans)
  have ok: ok and inv1: "store_inv 1 s1" using r(3) lruc by (simp_all split: if_splits)
  have i1: "i = shardFor s1 key" and lru1: "isLRU s1"
    using i sub lru by (simp_all add: sub_store_def shardFor_def)
  have "i < length (shards s1)" using il sub by (simp add: sub_store_def)
  then have ok1: "shard_ok True (shards s1 ! i)" using store_inv_shard_ok [OF inv1] lru1 by simp
  have "st_lookup s1 key = None" using sub_store_lookup [OF sub inv, of key] new by simp
  then have n1: "orderItems (shards s1 ! i) key = None"
    using index_None_iff [OF ok1] i1 lru1 by (simp add: st_lookup_def)
  let ?sh = "(shards s1 ! i)
      \<lparr>order := (nextElem (shards s1 ! i), \<lparr>le_key = key, le_value = create s1 now, le_lastSeen = now\<rparr>) # order (shards s1 ! i),
       orderItems := (orderItems (shards s1 ! i))(key \<mapsto> nextElem (shards s1 ! i)),
       nextElem := Suc (nextElem (shards s1 ! i))\<rparr>"
  have "got s key now (setShard s1 i ?sh) (Some (create s1 now))"
    using pushFront_ok [OF ok1 n1, of "create s1 now" now] lru1 by (intro got_new [OF inv sub inv1 new i]) simp_all
  then show ?thesis using None r(1) ok n1 by (simp add: getOrCreateLRU_def Let_def)
qed

subsection \<open>\<open>withState\<close>\<close>

lemma setValue_ok:
  assumes ok: "shard_ok lru sh" and v0: "map_of (entries lru sh) key = Some (v0, t)"
  shows "shard_ok lru (setValue lru key v sh)"
    and "map_of (entries lru (setValue lru key v sh)) = (map_of (entries lru sh))(key \<mapsto> (v, t))"
proof -
  have "shard_ok lru (setValue lru key v sh)
    \<and> map_of (entries lru (setValue lru key v sh)) = (map_of (entries lru sh))(key \<mapsto> (v, t))"
  proof (cases lru)
    case True
    then have okT: "shard_ok True sh" using ok by simp
    obtain el where el: "orderItems sh key = Some el"
      using index_None_iff [OF okT] v0 True by fastforce
    obtain e where e: "(el, e) \<in> set (order sh)" "le_key e = key" using okT el by (rule order_of_index)
    have "le_lastSeen e = t" using view_of_elem(1) [OF _ e(1)] ok True v0 e(2) by simp
    then show ?thesis
      using update_elem [OF _ e(1), of "\<lambda>x. x\<lparr>le_value := v\<rparr>"] ok True e(2) el by (simp add: setValue_def)
  next
    case False
    then obtain e where e: "map_of (items sh) key = Some e" "ke_lastSeen e = t"
      using v0 by (auto simp: map_of_entries_Map)
    then show ?thesis
      using update_items [of sh key "e\<lparr>ke_value := v\<rparr>"] ok False by (simp add: setValue_def)
  qed
  then show "shard_ok lru (setValue lru key v sh)"
    and "map_of (entries lru (setValue lru key v sh)) = (map_of (entries lru sh))(key \<mapsto> (v, t))" by blast+
qed

definition current :: "'v shardedStore \<Rightarrow> string \<Rightarrow> time \<Rightarrow> 'v" where
  "current s key now = (case st_lookup s key of Some (v, _) \<Rightarrow> v | None \<Rightarrow> create s now)"

definition full_reject :: "'v shardedStore \<Rightarrow> string \<Rightarrow> 'v shardedStore \<Rightarrow> go_return \<Rightarrow> bool" where
  "full_reject s key s' ret \<longleftrightarrow>
     ret = (zero_Result, Some ErrMaxKeysExceeded) \<and> \<not> isLRU s \<and> 0 < maxKeys (st_opts s)
     \<and> maxKeys (st_opts s) \<le> live s' \<and> st_lookup s key = None \<and> st_lookup s' key = None"

lemma withState_ok:
  assumes inv: "store_inv 0 s"
  shows "\<exists>s' ret. withState iter s key now fn = Some (s', ret) \<and> store_inv 0 s' \<and> frame_store key s s'
     \<and> (full_reject s key s' ret
        \<or> ret = snd (fn (current s key now) now) \<and> st_lookup s' key = Some (fst (fn (current s key now) now), now))"
proof -
  let ?i = "shardFor s key"
  obtain s1 res where g: "(if isLRU s then getOrCreateLRU iter s ?i key now else getOrCreateMap iter s ?i key now)
      = Some (s1, res)" "got s key now s1 res"
    using getOrCreateLRU_ok [OF inv _ refl] getOrCreateMap_ok [OF inv _ refl] by metis
  show ?thesis
  proof (cases res)
    case None
    then have "withState iter s key now fn = Some (s1, zero_Result, Some ErrMaxKeysExceeded)"
      using g(1) by (simp add: withState_def Let_def)
    then show ?thesis using g(2) None by (simp add: got_def full_reject_def)
  next
    case (Some v)
    then have v: "v = current s key now" and l1: "st_lookup s1 key = Some (v, now)"
      and inv1: "store_inv 0 s1" and fr: "frame_store key s s1"
      using g(2) by (simp_all add: got_def current_def)
    have i1: "?i = shardFor s1 key" using fr by (simp add: frame_store_def shardFor_def)
    let ?v = "fst (fn v now)"
    let ?sh = "setValue (isLRU s1) key ?v (shards s1 ! ?i)"
    have ws: "withState iter s key now fn = Some (setShard s1 ?i ?sh, snd (fn v now))"
      using g(1) Some by (simp add: withState_def Let_def case_prod_beta)
    have "shard_ok (isLRU s1) (shards s1 ! ?i)"
      unfolding i1 using inv1 by (rule store_inv_shard_ok) (rule store_inv_shardFor [OF inv1])
    moreover have "map_of (entries (isLRU s1) (shards s1 ! ?i)) key = Some (v, now)"
      using l1 unfolding st_lookup_def i1 [symmetric] .
    ultimately have sv: "shard_ok (isLRU s1) ?sh"
      "map_of (entries (isLRU s1) ?sh) = (map_of (entries (isLRU s1) (shards s1 ! ?i)))(key \<mapsto> (?v, now))"
      by (rule setValue_ok)+
    note p = put_shard [OF inv1 i1 sv]
    have "frame_store key s (setShard s1 ?i ?sh)" by (rule frame_trans [OF fr frame_put]) (rule p(2))
    then show ?thesis using ws p l1 v by simp
  qed
qed

subsection \<open>The interface\<close>

text \<open>
  \<open>stateStore\<close> as its clients see it: \<open>lookup\<close> is the state a key has, \<open>fresh\<close> the state a new
  key gets. The laws are what \<open>memory/state_store.go\<close> documents for \<open>withState\<close>.
\<close>

locale state_store =
  fixes with_state :: "'e \<Rightarrow> 's \<Rightarrow> string \<Rightarrow> time \<Rightarrow> 'v callback \<Rightarrow> ('s \<times> go_return) option"
    and lookup :: "'s \<Rightarrow> string \<Rightarrow> 'v option"
    and fresh :: "'s \<Rightarrow> time \<Rightarrow> 'v"
    and invar :: "'s \<Rightarrow> bool"
  assumes returns: "invar s \<Longrightarrow> \<exists>s' ret. with_state e s key now fn = Some (s', ret)"
    and keeps: "invar s \<Longrightarrow> with_state e s key now fn = Some (s', ret) \<Longrightarrow> invar s'"
    and same_fresh: "invar s \<Longrightarrow> with_state e s key now fn = Some (s', ret) \<Longrightarrow> fresh s' = fresh s"
    and others: "invar s \<Longrightarrow> with_state e s key now fn = Some (s', ret) \<Longrightarrow> k \<noteq> key \<Longrightarrow>
        lookup s' k = lookup s k \<or> lookup s' k = None"
    and runs: "invar s \<Longrightarrow> with_state e s key now fn = Some (s', ret) \<Longrightarrow>
        ret = (zero_Result, Some ErrMaxKeysExceeded) \<and> lookup s key = None \<and> lookup s' key = None
        \<or> (let v = (case lookup s key of Some v \<Rightarrow> v | None \<Rightarrow> fresh s now)
           in ret = snd (fn v now) \<and> lookup s' key = Some (fst (fn v now)))"
begin

text \<open>A property of the per-key states that the callback keeps holds of every state in the store.\<close>

lemma all_states:
  assumes "invar s" "with_state e s key now fn = Some (s', ret)"
    and "\<And>k v. lookup s k = Some v \<Longrightarrow> P v" "P (fresh s now)"
    and "\<And>v. P v \<Longrightarrow> P (fst (fn v now))"
    and "lookup s' k = Some v"
  shows "P v"
proof (cases "k = key")
  case True
  have "P (case lookup s key of Some v \<Rightarrow> v | None \<Rightarrow> fresh s now)"
    using assms(3,4) by (simp split: option.split)
  then show ?thesis
    using runs [OF assms(1,2)] assms(5,6) True by (auto simp: Let_def)
next
  case False
  then show ?thesis using others [OF assms(1,2)] assms(3,6) by fastforce
qed

text \<open>What the callback guarantees of its result holds of the result of \<open>withState\<close>, full store apart.\<close>

lemma result_of_callback:
  assumes "invar s" "with_state e s key now fn = Some (s', ret)"
    and "\<And>k v. lookup s k = Some v \<Longrightarrow> P v" "P (fresh s now)"
    and "\<And>v. P v \<Longrightarrow> Q (snd (fn v now))"
  shows "ret = (zero_Result, Some ErrMaxKeysExceeded) \<or> Q ret"
proof -
  have "P (case lookup s key of Some v \<Rightarrow> v | None \<Rightarrow> fresh s now)"
    using assms(3,4) by (simp split: option.split)
  then show ?thesis using runs [OF assms(1,2)] assms(5) by (auto simp: Let_def)
qed

end

definition st_value :: "'v shardedStore \<Rightarrow> string \<Rightarrow> 'v option" where
  "st_value s key = map_option fst (st_lookup s key)"

interpretation sharded: state_store withState st_value create "store_inv 0"
proof unfold_locales
  fix s :: "'v shardedStore" and iter key now fn
  assume inv: "store_inv 0 s"
  show "\<exists>s' ret. withState iter s key now fn = Some (s', ret)"
    using withState_ok [OF inv] by blast
  fix s' ret
  assume ws: "withState iter s key now fn = Some (s', ret)"
  have w: "store_inv 0 s'" "frame_store key s s'" "full_reject s key s' ret
      \<or> ret = snd (fn (current s key now) now) \<and> st_lookup s' key = Some (fst (fn (current s key now) now), now)"
    using withState_ok [OF inv, of iter key now fn] ws by auto
  show "store_inv 0 s'" by (rule w(1))
  show "create s' = create s" using w(2) by (simp add: frame_store_def)
  have cur: "(case st_value s key of Some v \<Rightarrow> v | None \<Rightarrow> create s now) = current s key now"
    by (simp add: st_value_def current_def split: option.split)
  show "ret = (zero_Result, Some ErrMaxKeysExceeded) \<and> st_value s key = None \<and> st_value s' key = None
      \<or> (let v = (case st_value s key of Some v \<Rightarrow> v | None \<Rightarrow> create s now)
         in ret = snd (fn v now) \<and> st_value s' key = Some (fst (fn v now)))"
    unfolding cur using w(3) by (auto simp: full_reject_def st_value_def)
  fix k assume "k \<noteq> key"
  then show "st_value s' k = st_value s k \<or> st_value s' k = None"
    using w(2) unfolding frame_store_def st_value_def by (metis option.map_disc_iff)
qed

subsection \<open>A new store\<close>

lemma newStateStore_inv:
  fixes cr :: "time \<Rightarrow> 'v" and ev :: "event list option"
  assumes "valid_options o1"
  defines "st \<equiv> newShardedStore o1 cr ev"
  shows "newStateStore o1 cr ev = Inr st" "store_inv 0 st" "create st = cr" "st_opts st = o1"
    "st_lookup st = Map.empty" "st_value st = Map.empty" "live st = 0" "onEvict st = ev"
    "shards st = replicate (nat (nshards o1)) newShard"
proof -
  obtain k where k: "k \<le> 10" "nshards o1 = 2 ^ k" using assms(1) by (auto simp: valid_options_def)
  show "newStateStore o1 cr ev = Inr st"
    using assms by (auto simp: newStateStore_def valid_options_def)
  show f: "create st = cr" "st_opts st = o1" "live st = 0" "onEvict st = ev"
    "shards st = replicate (nat (nshards o1)) newShard"
    by (simp_all add: st_def newShardedStore_def newShardedStoreWithShards_def)
  have len: "0 < nshards o1" "nshards o1 \<le> 1024" using k power_of_two_le_1024 by simp_all
  have e: "entries lru (newShard :: 'v shard) = []" for lru by (simp add: entries_def newShard_def)
  have ok: "shard_ok lru (newShard :: 'v shard)" for lru
    unfolding shard_ok_def shard_keys_def e by (simp add: index_of_def newShard_def)
  have "key_count st = 0" by (simp add: key_count_def f e shard_keys_def sum_list_replicate)
  then show inv: "store_inv 0 st"
    using len ok assms(1) e by (auto simp: store_inv_def f shard_keys_def valid_options_def st_def newShardedStore_def
        newShardedStoreWithShards_def)
  have "shardFor st k < nat (nshards o1)" for k using store_inv_shardFor [OF inv, of k] f by simp
  then show "st_lookup st = Map.empty" by (simp add: st_lookup_def f e fun_eq_iff)
  then show "st_value st = Map.empty" by (simp add: st_value_def fun_eq_iff)
qed

end
