(* ===== verification/Mem_Limiter.thy ===== *)
theory Mem_Limiter
  imports Mem_Store_Spec Kaka_Contract "HOL-Library.Sublist"
begin

section \<open>What the memory limiters share\<close>

text \<open>
  The environment of a call, the shape of the three \<open>Allow\<close> methods as one function of the
  store and the callback, and two interfaces: \<open>limiter_contract\<close>, what a \<open>kaka.Limiter\<close>
  promises its caller, and \<open>mem_algorithm\<close>, what a per-key algorithm has to give for the limiter
  around it to keep that promise.
\<close>

subsection \<open>A store that never has to forget\<close>

definition roomy :: "'v shardedStore \<Rightarrow> string \<Rightarrow> bool" where
  "roomy s key \<longleftrightarrow> keyTTL (st_opts s) \<le> 0
     \<and> (maxKeys (st_opts s) \<le> 0 \<or> live s < maxKeys (st_opts s) \<or> st_lookup s key \<noteq> None)"

lemma cleanup_no_ttl [simp]:
  "keyTTL (st_opts s) \<le> 0 \<Longrightarrow> cleanupMap iter s i now = s"
  "keyTTL (st_opts s) \<le> 0 \<Longrightarrow> cleanupLRU s i now = s"
  by (simp_all add: cleanupMap_def cleanupLRU_def Let_def)

lemma lookup_live [simp]: "st_lookup (s\<lparr>live := n\<rparr>) = st_lookup s"
  by (simp add: st_lookup_def fun_eq_iff)

lemma reserve_room:
  assumes "maxKeys (st_opts s) \<le> 0 \<or> live s < maxKeys (st_opts s)"
  shows "reserveSlot iter s i now = Some (s\<lparr>live := live s + 1\<rparr>, True)"
  using assms by (auto simp: reserveSlot_def reserveSlot_loop_room)

lemma getOrCreateMap_exact:
  assumes inv: "store_inv 0 s" and lru: "\<not> isLRU s" and i: "i = shardFor s key" and room: "roomy s key"
    and g: "getOrCreateMap iter s i key now = Some (s1, Some v)"
  shows "st_lookup s1 = (st_lookup s)(key \<mapsto> (v, now))"
proof (cases "map_of (items (shards s ! i)) key")
  case (Some e)
  have il: "i < length (shards s)" unfolding i using inv by (rule store_inv_shardFor)
  have ok: "shard_ok False (shards s ! i)" using store_inv_shard_ok [OF inv il] lru by simp
  note u = update_items [OF ok, of key "e\<lparr>ke_lastSeen := now\<rparr>"]
  have p: "st_lookup (setShard s i ((shards s ! i)\<lparr>items := AList.update key (e\<lparr>ke_lastSeen := now\<rparr>) (items (shards s ! i))\<rparr>))
      = (st_lookup s)(key \<mapsto> (ke_value e, now))"
    using u lru by (intro put_shard(2) [OF inv i]) simp_all
  have "s1 = setShard s i ((shards s ! i)\<lparr>items := AList.update key (e\<lparr>ke_lastSeen := now\<rparr>) (items (shards s ! i))\<rparr>)"
    "v = ke_value e"
    using g Some room by (simp_all add: getOrCreateMap_def Let_def roomy_def)
  then show ?thesis using p by simp
next
  case None
  let ?r = "s\<lparr>live := live s + 1\<rparr>"
  have il: "i < length (shards s)" unfolding i using inv by (rule store_inv_shardFor)
  have ok: "shard_ok False (shards s ! i)" using store_inv_shard_ok [OF inv il] lru by simp
  have new: "st_lookup s key = None"
    using None lru i by (simp add: store_view)
  then have room': "maxKeys (st_opts s) \<le> 0 \<or> live s < maxKeys (st_opts s)" using room by (auto simp: roomy_def)
  then have inv1: "store_inv 1 ?r" by (intro store_inv_reserve [OF inv]) linarith
  note u = update_items [OF ok, of key "\<lparr>ke_value = create s now, ke_lastSeen = now\<rparr>"]
  let ?sh = "(shards s ! i)\<lparr>items := AList.update key \<lparr>ke_value = create s now, ke_lastSeen = now\<rparr> (items (shards s ! i))\<rparr>"
  have p: "st_lookup (setShard ?r i ?sh) = (st_lookup ?r)(key \<mapsto> (create s now, now))"
    using u lru i by (intro put_shard(2) [OF inv1]) simp_all
  have "s1 = setShard ?r i ?sh" "v = create s now"
    using g None room by (auto simp: getOrCreateMap_def Let_def roomy_def reserve_room [OF room'])
  then show ?thesis using p by simp
qed

lemma getOrCreateLRU_exact:
  assumes inv: "store_inv 0 s" and lru: "isLRU s" and i: "i = shardFor s key" and room: "roomy s key"
    and g: "getOrCreateLRU iter s i key now = Some (s1, Some v)"
  shows "st_lookup s1 = (st_lookup s)(key \<mapsto> (v, now))"
proof (cases "orderItems (shards s ! i) key")
  case (Some el)
  have il: "i < length (shards s)" unfolding i using inv by (rule store_inv_shardFor)
  have ok: "shard_ok True (shards s ! i)" using store_inv_shard_ok [OF inv il] lru by simp
  obtain e where e: "(el, e) \<in> set (order (shards s ! i))" "le_key e = key"
    using ok Some by (rule order_of_index)
  note u = touchLRU_ok [OF ok e(1), of now]
  have p: "st_lookup (setShard s i (touchLRU el now (shards s ! i))) = (st_lookup s)(key \<mapsto> (le_value e, now))"
    using u lru e(2) by (intro put_shard(2) [OF inv i]) simp_all
  have "s1 = setShard s i (touchLRU el now (shards s ! i))" "v = le_value e"
    using g Some room view_of_elem(2) [OF ok e(1)] by (simp_all add: getOrCreateLRU_def Let_def roomy_def)
  then show ?thesis using p by simp
next
  case None
  let ?r = "s\<lparr>live := live s + 1\<rparr>"
  have il: "i < length (shards s)" unfolding i using inv by (rule store_inv_shardFor)
  have ok: "shard_ok True (shards s ! i)" using store_inv_shard_ok [OF inv il] lru by simp
  have new: "st_lookup s key = None" using index_None_iff [OF ok] None lru i by (simp add: st_lookup_def)
  then have room': "maxKeys (st_opts s) \<le> 0 \<or> live s < maxKeys (st_opts s)" using room by (auto simp: roomy_def)
  then have inv1: "store_inv 1 ?r" by (intro store_inv_reserve [OF inv]) linarith
  note u = pushFront_ok [OF ok None, of "create s now" now]
  let ?sh = "(shards s ! i)
      \<lparr>order := (nextElem (shards s ! i), \<lparr>le_key = key, le_value = create s now, le_lastSeen = now\<rparr>) # order (shards s ! i),
       orderItems := (orderItems (shards s ! i))(key \<mapsto> nextElem (shards s ! i)),
       nextElem := Suc (nextElem (shards s ! i))\<rparr>"
  have p: "st_lookup (setShard ?r i ?sh) = (st_lookup ?r)(key \<mapsto> (create s now, now))"
    using u lru i by (intro put_shard(2) [OF inv1]) simp_all
  have "s1 = setShard ?r i ?sh" "v = create s now"
    using g None room by (auto simp: getOrCreateLRU_def Let_def roomy_def reserve_room [OF room'])
  then show ?thesis using p by simp
qed

text \<open>With room and no TTL, \<open>withState\<close> changes the state of its key and of no other.\<close>

lemma withState_exact:
  assumes inv: "store_inv 0 s" and room: "roomy s key"
  shows "\<exists>s'. withState iter s key now fn = Some (s', snd (fn (current s key now) now)) \<and> store_inv 0 s'
     \<and> frame_store key s s' \<and> st_lookup s' = (st_lookup s)(key \<mapsto> (fst (fn (current s key now) now), now))"
proof -
  let ?i = "shardFor s key"
  obtain s1 res where g: "(if isLRU s then getOrCreateLRU iter s ?i key now else getOrCreateMap iter s ?i key now)
      = Some (s1, res)" "got s key now s1 res"
    using getOrCreateLRU_ok [OF inv _ refl] getOrCreateMap_ok [OF inv _ refl] by metis
  obtain s' ret where w: "withState iter s key now fn = Some (s', ret)" "store_inv 0 s'" "frame_store key s s'"
    "full_reject s key s' ret \<or> ret = snd (fn (current s key now) now)
       \<and> st_lookup s' key = Some (fst (fn (current s key now) now), now)"
    using withState_ok [OF inv] by metis
  show ?thesis
  proof (cases res)
    case None
    then have "\<not> isLRU s" "st_lookup s key = None" "0 < maxKeys (st_opts s)"
      using g(2) by (simp_all add: got_def)
    moreover from this have "live s < maxKeys (st_opts s)" "keyTTL (st_opts s) \<le> 0"
      using room by (auto simp: roomy_def)
    moreover from calculation have "map_of (items (shards s ! ?i)) key = None"
      by (simp add: store_view)
    ultimately show ?thesis
      using g(1) None by (auto simp: getOrCreateMap_def Let_def reserve_room split: option.splits)
  next
    case (Some v)
    have ex: "st_lookup s1 = (st_lookup s)(key \<mapsto> (v, now))"
    proof (cases "isLRU s")
      case True
      then show ?thesis using g(1) Some getOrCreateLRU_exact [OF inv _ refl room] by simp
    next
      case False
      then show ?thesis using g(1) Some getOrCreateMap_exact [OF inv _ refl room] by simp
    qed
    have v: "v = current s key now" and inv1: "store_inv 0 s1" and fr: "frame_store key s s1"
      using g(2) Some by (simp_all add: got_def current_def)
    have i1: "?i = shardFor s1 key" using fr by (simp add: frame_store_def shardFor_def)
    let ?v = "fst (fn v now)"
    let ?sh = "setValue (isLRU s1) key ?v (shards s1 ! ?i)"
    have ws: "withState iter s key now fn = Some (setShard s1 ?i ?sh, snd (fn v now))"
      using g(1) Some by (simp add: withState_def Let_def case_prod_beta)
    have "shard_ok (isLRU s1) (shards s1 ! ?i)"
      unfolding i1 using inv1 by (rule store_inv_shard_ok) (rule store_inv_shardFor [OF inv1])
    moreover have "map_of (entries (isLRU s1) (shards s1 ! ?i)) key = Some (v, now)"
      using fun_cong [OF ex, of key] unfolding st_lookup_def i1 [symmetric] by (simp only: fun_upd_same)
    ultimately have sv: "shard_ok (isLRU s1) ?sh"
      "map_of (entries (isLRU s1) ?sh) = (map_of (entries (isLRU s1) (shards s1 ! ?i)))(key \<mapsto> (?v, now))"
      by (rule setValue_ok)+
    have "st_lookup (setShard s1 ?i ?sh) = (st_lookup s)(key \<mapsto> (?v, now))"
      using put_shard(2) [OF inv1 i1 sv] ex by simp
    then show ?thesis using w(1-3) ws v by simp
  qed
qed

subsection \<open>One call\<close>

record mem_env =
  env_now :: time
  env_iter :: map_order

text \<open>A request at time \<open>t\<close>, with maps visited in the order of their lists.\<close>

definition at_time :: "time \<Rightarrow> mem_env" where
  "at_time t = \<lparr>env_now = t, env_iter = id\<rparr>"

lemma env_now_at_time [simp]: "env_now (at_time t) = t"
  by (simp add: at_time_def)

abbreviation mem_later :: "mem_env \<Rightarrow> mem_env \<Rightarrow> bool" where
  "mem_later e e' \<equiv> env_now e \<le> env_now e'"

text \<open>The events of the sink block at the end of \<open>Allow\<close>.\<close>

definition sink_events :: "'v shardedStore \<Rightarrow> go_return \<Rightarrow> event list" where
  "sink_events st ret =
     (case ret of (result, err) \<Rightarrow>
        (case err of
           Some er \<Rightarrow> [OnError TierSingle er]
         | None \<Rightarrow> if Allowed result then [OnAllowed TierSingle result] else [OnRejected TierSingle result])
        @ [SetKeys TierSingle (len st)] @ snd (snd (drainEvictions st)))"

definition mem_allow ::
  "options \<Rightarrow> 'v callback \<Rightarrow> 'v shardedStore \<Rightarrow> mem_env \<Rightarrow> string
     \<Rightarrow> ('v shardedStore \<times> go_return \<times> event list) option" where
  "mem_allow opts fn st env key =
     (case mem_validateKey key of
        Some err \<Rightarrow> Some (st, (zero_Result, Some err), if sink opts then [OnError TierSingle err] else [])
      | None \<Rightarrow>
          (case withState (env_iter env) st key (env_now env) fn of
             None \<Rightarrow> None
           | Some (st', ret) \<Rightarrow>
               Some (if sink opts then (fst (drainEvictions st'), ret, sink_events st' ret) else (st', ret, []))))"

lemma drain_inv [simp]: "store_inv r s \<Longrightarrow> store_inv r (fst (drainEvictions s))"
  unfolding store_inv_def by (auto simp: drainEvictions_def key_count_def shardFor_def Let_def)

lemma drain_fields [simp]:
  "create (fst (drainEvictions s)) = create s" "st_opts (fst (drainEvictions s)) = st_opts s"
  "st_lookup (fst (drainEvictions s)) = st_lookup s" "live (fst (drainEvictions s)) = live s"
  "onEvict (fst (drainEvictions s)) = onEvict s" "evicts (fst (drainEvictions s)) = 0"
  by (simp_all add: drainEvictions_def st_lookup_def shardFor_def fun_eq_iff Let_def)

lemma drain_value [simp]: "st_value (fst (drainEvictions s)) = st_value s"
  by (simp add: st_value_def fun_eq_iff)

lemma mem_allow_blank:
  "blank key \<Longrightarrow> mem_allow opts fn st env key
     = Some (st, (zero_Result, Some MemInvalidKey), if sink opts then [OnError TierSingle MemInvalidKey] else [])"
  by (simp add: mem_allow_def mem_validateKey_def)

lemma mem_allow_cases:
  assumes "\<not> blank key" "mem_allow opts fn st env key = Some (st', ret, evs)"
  obtains st1 where "withState (env_iter env) st key (env_now env) fn = Some (st1, ret)"
    "st' = (if sink opts then fst (drainEvictions st1) else st1)"
    "evs = (if sink opts then sink_events st1 ret else [])"
  using assms by (auto simp: mem_allow_def mem_validateKey_def split: option.splits if_splits prod.splits)

subsection \<open>Per-key algorithms\<close>

definition states_ok :: "('v \<Rightarrow> bool) \<Rightarrow> 'v shardedStore \<Rightarrow> bool" where
  "states_ok P st \<longleftrightarrow> (\<forall>k v. st_value st k = Some v \<longrightarrow> P v)"

text \<open>
  A per-key algorithm with configuration \<open>c\<close>: \<open>decide\<close> runs under the shard lock, \<open>fresh\<close> is
  the state of a new key, \<open>ok c t v\<close> the invariant of a state last touched at time \<open>t\<close> or before.
\<close>

locale mem_algorithm =
  fixes decide :: "'c \<Rightarrow> 'v callback"
    and fresh :: "'c \<Rightarrow> time \<Rightarrow> 'v"
    and cfg :: "'c \<Rightarrow> bool"
    and ok :: "'c \<Rightarrow> time \<Rightarrow> 'v \<Rightarrow> bool"
  assumes fresh_ok: "cfg c \<Longrightarrow> ok c t (fresh c t)"
    and ok_later: "ok c t v \<Longrightarrow> t \<le> t' \<Longrightarrow> ok c t' v"
    and step_ok: "cfg c \<Longrightarrow> ok c now v \<Longrightarrow> ok c now (fst (decide c v now))"
    and no_error: "cfg c \<Longrightarrow> ok c now v \<Longrightarrow> snd (snd (decide c v now)) = None"
    and decision: "cfg c \<Longrightarrow> ok c now v \<Longrightarrow> result_ok (fst (snd (decide c v now)))"
begin

lemma states_later: "states_ok (ok c t) st \<Longrightarrow> t \<le> t' \<Longrightarrow> states_ok (ok c t') st"
  using ok_later unfolding states_ok_def by blast

lemma allow_step:
  assumes c: "cfg c" and inv: "store_inv 0 st" and cr: "create st = fresh c"
    and ok: "states_ok (ok c (env_now env)) st"
    and a: "mem_allow opts (decide c) st env key = Some (st', ret, evs)"
  shows "store_inv 0 st'" "create st' = fresh c" "st_opts st' = st_opts st"
    "states_ok (ok c (env_now env)) st'" "return_ok key ret"
proof -
  have "store_inv 0 st' \<and> create st' = fresh c \<and> st_opts st' = st_opts st
      \<and> states_ok (ok c (env_now env)) st' \<and> return_ok key ret"
  proof (cases "blank key")
    case True
    then show ?thesis using a inv cr ok by (auto simp: mem_allow_blank return_ok_def)
  next
    case False
    obtain st1 where w: "withState (env_iter env) st key (env_now env) (decide c) = Some (st1, ret)"
      and st': "st' = (if sink opts then fst (drainEvictions st1) else st1)"
      using mem_allow_cases [OF False a] by metis
    have i1: "store_inv 0 st1" using sharded.keeps [OF inv w] .
    have c1: "create st1 = fresh c" using sharded.same_fresh [OF inv w] cr by simp
    have o1: "st_opts st1 = st_opts st"
      using withState_ok [OF inv, of "env_iter env" key "env_now env" "decide c"] w by (auto simp: frame_store_def)
    have P0: "\<And>k v. st_value st k = Some v \<Longrightarrow> ok c (env_now env) v" using ok by (simp add: states_ok_def)
    have f0: "ok c (env_now env) (create st (env_now env))" using fresh_ok [OF c] cr by simp
    have "states_ok (ok c (env_now env)) st1"
      unfolding states_ok_def
      using sharded.all_states [OF inv w, where P = "ok c (env_now env)"] P0 f0 step_ok [OF c] by blast
    moreover have "ret = (zero_Result, Some ErrMaxKeysExceeded) \<or> snd ret = None \<and> result_ok (fst ret)"
      using sharded.result_of_callback [OF inv w, where P = "ok c (env_now env)"
          and Q = "\<lambda>ret. snd ret = None \<and> result_ok (fst ret)"] P0 f0 no_error [OF c] decision [OF c] by blast
    then have "return_ok key ret" using False by (cases ret) (auto simp: return_ok_def)
    ultimately show ?thesis using i1 c1 o1 by (simp add: st' states_ok_def)
  qed
  then show "store_inv 0 st'" "create st' = fresh c" "st_opts st' = st_opts st"
    "states_ok (ok c (env_now env)) st'" "return_ok key ret" by simp_all
qed

end

lemma mem_allow_returns:
  assumes "store_inv 0 st" shows "\<exists>out. mem_allow opts fn st env key = Some out"
proof -
  obtain st' ret where "withState (env_iter env) st key (env_now env) fn = Some (st', ret)"
    using sharded.returns [OF assms] by metis
  then show ?thesis by (simp add: mem_allow_def split: option.split)
qed

subsection \<open>Limiters over a store\<close>

text \<open>The answers of an algorithm run for one key alone, from the state it has (if any).\<close>

fun alone :: "'v callback \<Rightarrow> (time \<Rightarrow> 'v) \<Rightarrow> 'v option \<Rightarrow> time list \<Rightarrow> go_return list" where
  "alone fn fresh vo [] = []"
| "alone fn fresh vo (t # ts) =
     (let (v', ret) = fn (case vo of Some v \<Rightarrow> v | None \<Rightarrow> fresh t) t
      in ret # alone fn fresh (Some v') ts)"

fun state_after :: "'v callback \<Rightarrow> (time \<Rightarrow> 'v) \<Rightarrow> 'v option \<Rightarrow> time list \<Rightarrow> 'v option" where
  "state_after fn fresh vo [] = vo"
| "state_after fn fresh vo (t # ts) =
     state_after fn fresh (Some (fst (fn (case vo of Some v \<Rightarrow> v | None \<Rightarrow> fresh t) t))) ts"

lemma alone_drop:
  "drop m (alone fn fresh vo ts) = alone fn fresh (state_after fn fresh vo (take m ts)) (drop m ts)"
proof (induction m arbitrary: vo ts)
  case (Suc m)
  then show ?case by (cases ts) (simp_all add: case_prod_beta)
qed simp

lemma alone_take: "take n (alone fn fresh vo ts) = alone fn fresh vo (take n ts)"
proof (induction n arbitrary: vo ts)
  case (Suc n)
  then show ?case by (cases ts) (simp_all add: case_prod_beta)
qed simp

lemma alone_from:
  "alone fn fresh vo (t # ts) = alone fn fresh (Some (case vo of Some v \<Rightarrow> v | None \<Rightarrow> fresh t)) (t # ts)"
  by simp

context mem_algorithm
begin

lemma state_after_ok:
  assumes "cfg c" "\<And>v. vo = Some v \<Longrightarrow> ok c t0 v" "sorted (t0 # ts @ [t])"
    "state_after (decide c) (fresh c) vo ts = Some v"
  shows "ok c t v"
  using assms(2-4)
proof (induction ts arbitrary: vo t0)
  case Nil
  then show ?case using ok_later by auto
next
  case (Cons t1 ts)
  have "ok c t1 (case vo of Some v \<Rightarrow> v | None \<Rightarrow> fresh c t1)"
    using Cons.prems(1,2) ok_later [of c t0 _ t1] fresh_ok [OF assms(1)] by (cases vo) auto
  then have "ok c t1 (fst (decide c (case vo of Some v \<Rightarrow> v | None \<Rightarrow> fresh c t1) t1))"
    by (rule step_ok [OF assms(1)])
  then show ?case using Cons.IH [of _ t1] Cons.prems(2,3) by auto
qed

text \<open>A stretch of one key's requests is a run of the algorithm from some state it can have.\<close>

lemma alone_stretch:
  assumes "cfg c" "sorted ts" "take n (drop m ts) = t # us"
  shows "\<exists>v. take n (drop m (alone (decide c) (fresh c) None ts)) = alone (decide c) (fresh c) (Some v) (t # us)
     \<and> ok c t v"
proof -
  let ?vo = "state_after (decide c) (fresh c) None (take m ts)"
  let ?v = "case ?vo of Some v \<Rightarrow> v | None \<Rightarrow> fresh c t"
  have eq: "take n (drop m (alone (decide c) (fresh c) None ts)) = alone (decide c) (fresh c) (Some ?v) (t # us)"
    unfolding alone_drop alone_take assms(3) by (rule alone_from)
  have "drop m ts \<noteq> []" using assms(3) by auto
  then have m: "m < length ts" by simp
  then have "drop m ts = ts ! m # drop (Suc m) ts" by (simp add: Cons_nth_drop_Suc)
  then have "t = ts ! m" using assms(3) by (cases n) auto
  then have "sorted (take m ts @ [t])" using assms(2) m by (metis take_Suc_conv_app_nth sorted_wrt_take)
  then have "ok c t ?v"
    using state_after_ok [OF assms(1), of None "hd (take m ts @ [t])" "take m ts" t] fresh_ok [OF assms(1), of t]
    by (cases ?vo; cases "take m ts") auto
  then show ?thesis using eq by blast
qed

end

text \<open>The times of the requests for one key in a run.\<close>

fun times_for :: "string \<Rightarrow> (mem_env \<times> string) list \<Rightarrow> time list" where
  "times_for key [] = []"
| "times_for key ((e, k) # rs) = (if k = key then [env_now e] else []) @ times_for key rs"

lemma times_for_filter: "times_for key rs = map (\<lambda>(e, k). env_now e) (filter (\<lambda>(e, k). k = key) rs)"
  by (induction key rs rule: times_for.induct) auto

lemma times_for_subseq: "subseq rs rs' \<Longrightarrow> subseq (times_for key rs) (times_for key rs')"
  unfolding times_for_filter by (intro subseq_map subseq_filter)

lemma sorted_subseq: "subseq xs ys \<Longrightarrow> sorted ys \<Longrightarrow> sorted xs"
proof (induction rule: list_emb.induct)
  case (list_emb_Cons2 x y xs ys)
  moreover have "set xs \<subseteq> set ys"
    using list_emb_set [OF list_emb_Cons2(2)] by blast
  ultimately show ?case by auto
qed auto

lemma sorted_times: "successively mem_later (map fst rs) \<Longrightarrow> sorted (times_for key rs)"
proof -
  assume "successively mem_later (map fst rs)"
  then have "sorted (map (\<lambda>(e, k). env_now e) rs)"
    by (simp add: successively_conv_sorted_wrt transp_on_def sorted_wrt_map case_prod_unfold)
  then show "sorted (times_for key rs)"
    unfolding times_for_filter by (rule sorted_subseq [OF subseq_map [OF subseq_filter_left]])
qed

text \<open>Neither a key limit nor a TTL: the store never forgets a key.\<close>

definition keeps_all_keys :: "options \<Rightarrow> bool" where
  "keeps_all_keys opts \<longleftrightarrow> maxKeys opts = 0 \<and> keyTTL opts = 0"

lemma mem_allow_exact:
  fixes fn :: "'v callback" and env :: mem_env
  assumes inv: "store_inv 0 st" and all: "keeps_all_keys (st_opts st)" and key: "\<not> blank key"
  defines "out \<equiv> fn (case st_value st key of Some v \<Rightarrow> v | None \<Rightarrow> create st (env_now env)) (env_now env)"
  shows "\<exists>st' evs. mem_allow opts fn st env key = Some (st', snd out, evs) \<and> store_inv 0 st'
     \<and> st_opts st' = st_opts st \<and> create st' = create st \<and> st_value st' = (st_value st)(key \<mapsto> fst out)"
proof -
  have room: "roomy st key" using all by (simp add: roomy_def keeps_all_keys_def)
  have out: "out = fn (current st key (env_now env)) (env_now env)"
    by (simp add: out_def current_def st_value_def split: option.split)
  obtain s1 where w: "withState (env_iter env) st key (env_now env) fn = Some (s1, snd out)" "store_inv 0 s1"
    "frame_store key st s1" "st_lookup s1 = (st_lookup st)(key \<mapsto> (fst out, env_now env))"
    using withState_exact [OF inv room, of "env_iter env" "env_now env" fn] unfolding out by blast
  have "st_value s1 = (st_value st)(key \<mapsto> fst out)"
    using w(4) by (simp add: st_value_def fun_eq_iff)
  then show ?thesis
    using w key by (simp add: mem_allow_def mem_validateKey_def frame_store_def)
qed

locale memory_limiter = mem_algorithm decide fresh cfg ok
  for decide :: "'l \<Rightarrow> 'v callback" and fresh :: "'l \<Rightarrow> time \<Rightarrow> 'v" and cfg :: "'l \<Rightarrow> bool"
    and ok :: "'l \<Rightarrow> time \<Rightarrow> 'v \<Rightarrow> bool" +
  fixes allow :: "('l, mem_env) limiter"
    and store_of :: "'l \<Rightarrow> 'v shardedStore"
    and with_store :: "'v shardedStore \<Rightarrow> 'l \<Rightarrow> 'l"
    and opts_of :: "'l \<Rightarrow> options"
  assumes allow_eq: "allow l env key =
      (case mem_allow (opts_of l) (decide l) (store_of l) env key of
         None \<Rightarrow> None | Some (st, out) \<Rightarrow> Some (with_store st l, out))"
    and get_put: "store_of (with_store st l) = st"
    and put_get: "with_store (store_of l) l = l"
    and same_config: "opts_of (with_store st l) = opts_of l" "decide (with_store st l) = decide l"
      "fresh (with_store st l) = fresh l" "cfg (with_store st l) = cfg l" "ok (with_store st l) = ok l"
begin

lemma allow_cases:
  assumes "allow l env key = Some (l', ret, evs)"
  obtains st' where "mem_allow (opts_of l) (decide l) (store_of l) env key = Some (st', ret, evs)"
    "l' = with_store st' l"
  using assms by (auto simp: allow_eq split: option.splits prod.splits)

lemma alone_requests:
  assumes "store_inv 0 (store_of l)" "create (store_of l) = fresh l" "keeps_all_keys (st_opts (store_of l))"
    and "\<not> blank key"
  shows "\<exists>l' outs. requests allow l rs = Some (l', outs)
     \<and> answers_for key rs outs = alone (decide l) (fresh l) (st_value (store_of l) key) (times_for key rs)"
  using assms(1-3)
proof (induction rs arbitrary: l)
  case Nil
  then show ?case by simp
next
  case (Cons r rs)
  obtain e k where r: "r = (e, k)" by (cases r)
  let ?st = "store_of l"
  let ?out = "decide l (case st_value ?st k of Some v \<Rightarrow> v | None \<Rightarrow> fresh l (env_now e)) (env_now e)"
  obtain st' ret evs where a: "mem_allow (opts_of l) (decide l) ?st e k = Some (st', ret, evs)" "store_inv 0 st'"
    "st_opts st' = st_opts ?st" "create st' = create ?st"
    "if blank k then st' = ?st else ret = snd ?out \<and> st_value st' = (st_value ?st)(k \<mapsto> fst ?out)"
  proof (cases "blank k")
    case True
    then show ?thesis using that Cons.prems(1) by (simp add: mem_allow_blank)
  next
    case False
    then show ?thesis
      using that mem_allow_exact [OF Cons.prems(1,3) False, of "opts_of l" "decide l" e]
      unfolding Cons.prems(2) by metis
  qed
  let ?l = "with_store st' l"
  have p: "store_inv 0 (store_of ?l)" "create (store_of ?l) = fresh ?l" "keeps_all_keys (st_opts (store_of ?l))"
    using a(2-4) Cons.prems by (simp_all add: get_put same_config)
  obtain l' outs where IH: "requests allow ?l rs = Some (l', outs)"
    "answers_for key rs outs = alone (decide l) (fresh l) (st_value st' key) (times_for key rs)"
    using Cons.IH [OF p] unfolding get_put same_config by blast
  have req: "requests allow l (r # rs) = Some (l', (ret, evs) # outs)"
    using a(1) IH(1) by (simp add: r allow_eq)
  show ?case
  proof (cases "k = key")
    case True
    then have "ret = snd ?out" "st_value st' key = Some (fst ?out)" using a(5) assms(4) by simp_all
    then have "answers_for key (r # rs) ((ret, evs) # outs)
        = alone (decide l) (fresh l) (st_value (store_of l) key) (times_for key (r # rs))"
      using IH(2) True by (simp add: r case_prod_beta Let_def)
    then show ?thesis using req by blast
  next
    case False
    then have "st_value st' key = st_value ?st key" using a(5) by (cases "blank k") simp_all
    then have "answers_for key (r # rs) ((ret, evs) # outs)
        = alone (decide l) (fresh l) (st_value (store_of l) key) (times_for key (r # rs))"
      using IH(2) False by (simp add: r)
    then show ?thesis using req by blast
  qed
qed

end

text \<open>A limiter built from an algorithm and a store keeps the contract of \<open>kaka.Limiter\<close>.\<close>

sublocale memory_limiter \<subseteq> limiter_contract allow
  "\<lambda>l. cfg l \<and> store_inv 0 (store_of l) \<and> create (store_of l) = fresh l"
  "\<lambda>l env. states_ok (ok l (env_now env)) (store_of l)"
  mem_later
proof unfold_locales
  fix l and env :: mem_env and key
  assume inv: "cfg l \<and> store_inv 0 (store_of l) \<and> create (store_of l) = fresh l"
    and ready: "states_ok (ok l (env_now env)) (store_of l)"
  show "\<exists>out. allow l env key = Some out"
    using mem_allow_returns [of "store_of l" "opts_of l" "decide l" env key] inv by (auto simp: allow_eq)
  fix l' ret evs
  assume "allow l env key = Some (l', ret, evs)"
  then obtain st' where a: "mem_allow (opts_of l) (decide l) (store_of l) env key = Some (st', ret, evs)"
    "l' = with_store st' l" by (rule allow_cases)
  note step = allow_step [OF _ _ _ ready a(1)]
  show "cfg l' \<and> store_inv 0 (store_of l') \<and> create (store_of l') = fresh l'"
    using step inv by (simp add: a(2) get_put same_config)
  show "return_ok key ret" using step inv by simp
  show "states_ok (ok l' (env_now env)) (store_of l')"
    using step inv by (simp add: a(2) get_put same_config)
next
  fix l and env env' :: mem_env
  assume "states_ok (ok l (env_now env)) (store_of l)" "mem_later env env'"
  then show "states_ok (ok l (env_now env')) (store_of l)" by (rule states_later)
next
  fix key l and env :: mem_env and l' ret evs
  assume "blank key" "allow l env key = Some (l', ret, evs)"
  then show "l' = l" by (simp add: allow_eq mem_allow_blank put_get)
qed

end
