(* ===== verification/Mem_TokenBucket.thy ===== *)
theory Mem_TokenBucket
  imports Mem_Limiter
begin

section \<open>\<open>memory/token_bucket.go\<close>\<close>

text \<open>
  The token bucket: the refill computation under the shard lock, the constructor and \<open>Allow\<close>.
\<close>

record bucket =
  tokens :: float64
  lastRefilled :: time

record TokenBucket =
  tb_capacity :: float64
  tb_rate :: float64
  tb_opts :: options
  tb_store :: "bucket shardedStore"

definition refillAndDecide :: "TokenBucket \<Rightarrow> bucket callback" where
  "refillAndDecide tb b now =
     (let elapsed = Seconds (Sub now (lastRefilled b));
          t1 = fadd (tokens b) (fmul elapsed (tb_rate tb));
          t2 = (if flt (tb_capacity tb) t1 then tb_capacity tb else t1)
      in if fle (Fin 1) t2
         then let t3 = fsub t2 (Fin 1)
              in (\<lparr>tokens = t3, lastRefilled = now\<rparr>,
                  (\<lparr>Allowed = True, Remaining = remainingFloor t3, RetryAfter = 0\<rparr>, None))
         else let retryAfter = durationFromSecondsCeil (fdiv (fsub (Fin 1) t2) (tb_rate tb))
              in (\<lparr>tokens = t2, lastRefilled = now\<rparr>,
                  (\<lparr>Allowed = False, Remaining = 0, RetryAfter = retryAfter\<rparr>, None)))"

definition NewTokenBucket :: "float64 \<Rightarrow> float64 \<Rightarrow> Option list \<Rightarrow> TokenBucket panics" where
  "NewTokenBucket capacity rate opts =
     (if \<not> isFinite capacity \<or> flt capacity (Fin 1)
      then Inl ''memory: token bucket capacity must be >= 1''
      else if \<not> isFinite rate \<or> fle rate (Fin 0)
      then Inl ''memory: token bucket rate must be > 0''
      else case buildOptions opts of
             Inl msg \<Rightarrow> Inl msg
           | Inr o1 \<Rightarrow>
               (case newStateStore o1 (\<lambda>now. \<lparr>tokens = capacity, lastRefilled = now\<rparr>)
                       (Some (if sink o1 then [OnEvict TierSingle] else [])) of
                  Inl msg \<Rightarrow> Inl msg
                | Inr st \<Rightarrow>
                    Inr \<lparr>tb_capacity = capacity, tb_rate = rate, tb_opts = o1, tb_store = st\<rparr>))"

definition TokenBucket_Allow :: "(TokenBucket, mem_env) limiter" where
  "TokenBucket_Allow tb env key =
     (case mem_validateKey key of
        Some err \<Rightarrow>
          Some (tb, (zero_Result, Some err), if sink (tb_opts tb) then [OnError TierSingle err] else [])
      | None \<Rightarrow>
          (case withState (env_iter env) (tb_store tb) key (env_now env) (refillAndDecide tb) of
             None \<Rightarrow> None
           | Some (st, (result, err)) \<Rightarrow>
               if sink (tb_opts tb)
               then let evs = (case err of
                                 Some er \<Rightarrow> [OnError TierSingle er]
                               | None \<Rightarrow> if Allowed result then [OnAllowed TierSingle result]
                                         else [OnRejected TierSingle result]);
                        keys = [SetKeys TierSingle (len st)];
                        (st', n, evicted) = drainEvictions st
                    in Some (tb\<lparr>tb_store := st'\<rparr>, (result, err), evs @ keys @ evicted)
               else Some (tb\<lparr>tb_store := st\<rparr>, (result, err), [])))"

subsection \<open>The refill in exact terms\<close>

text \<open>
  On a state that is not ahead of the clock all the floats are finite, or overflow to infinity
  and are clamped; the refilled amount is then this rational.
\<close>

definition refilled :: "rat \<Rightarrow> rat \<Rightarrow> rat \<Rightarrow> duration \<Rightarrow> rat" where
  "refilled c r x d = min c (rnd (x + rnd (seconds_rat d * r)))"

lemma clamp_refill:
  assumes c: "is_f64 (Fin c)" and x: "0 \<le> x" and p: "0 \<le> p" and c0: "0 \<le> c"
  defines "t \<equiv> fadd (Fin x) (rnd64 p)"
  shows "(if flt (Fin c) t then Fin c else t) = Fin (min c (rnd (x + rnd p)))"
  using p
proof (cases rule: rnd64_nonneg_cases)
  case 1
  have "c \<le> x + rnd p" using 1 x is_f64_FinD(2) [OF c] by linarith
  then have "c \<le> rnd (x + rnd p)" using is_f64_FinD(1) [OF c] by (rule ieee.ge_repr)
  then show ?thesis using 1 by (simp add: t_def)
next
  case 2
  then have "0 \<le> x + rnd p" using x by simp
  then show ?thesis
    by (cases rule: rnd64_nonneg_cases) (use 2 is_f64_FinD(2) [OF c] in \<open>auto simp: t_def min_def\<close>)
qed

lemma elapsed_bounds: "t \<le> now \<Longrightarrow> 0 \<le> Sub now t \<and> Sub now t \<le> max_int64 \<and> Sub now t \<le> now - t"
  by (auto simp: Sub_def sat64_def max_int64_def min_int64_def)

definition tb_cfg :: "TokenBucket \<Rightarrow> bool" where
  "tb_cfg tb \<longleftrightarrow> (\<exists>c r. tb_capacity tb = Fin c \<and> tb_rate tb = Fin r \<and> is_f64 (Fin c) \<and> is_f64 (Fin r)
     \<and> 1 \<le> c \<and> c < 2 ^ 63 \<and> 0 < r)"

definition tb_fresh :: "TokenBucket \<Rightarrow> time \<Rightarrow> bucket" where
  "tb_fresh tb now = \<lparr>tokens = tb_capacity tb, lastRefilled = now\<rparr>"

text \<open>A bucket holds between 0 and \<open>capacity\<close> tokens and was not refilled in the future.\<close>

definition tb_ok :: "TokenBucket \<Rightarrow> time \<Rightarrow> bucket \<Rightarrow> bool" where
  "tb_ok tb t b \<longleftrightarrow> (\<exists>x. tokens b = Fin x \<and> is_f64 (Fin x) \<and> 0 \<le> x \<and> fle (Fin x) (tb_capacity tb)) \<and> lastRefilled b \<le> t"

lemma refillAndDecide_Fin:
  assumes cfg: "tb_capacity tb = Fin c" "tb_rate tb = Fin r" "is_f64 (Fin c)" "1 \<le> c" "0 < r"
    and b: "tokens b = Fin x" "0 \<le> x" "lastRefilled b \<le> now"
  defines "y \<equiv> refilled c r x (Sub now (lastRefilled b))"
  shows "0 \<le> y" "y \<le> c" "is_f64 (Fin y)"
    and "refillAndDecide tb b now =
      (if 1 \<le> y
       then (\<lparr>tokens = Fin (rnd (y - 1)), lastRefilled = now\<rparr>,
             (\<lparr>Allowed = True, Remaining = remainingFloor (Fin (rnd (y - 1))), RetryAfter = 0\<rparr>, None))
       else (\<lparr>tokens = Fin y, lastRefilled = now\<rparr>,
             (\<lparr>Allowed = False, Remaining = 0,
               RetryAfter = durationFromSecondsCeil (fdiv (Fin (rnd (1 - y))) (Fin r))\<rparr>, None)))"
proof -
  let ?d = "Sub now (lastRefilled b)"
  let ?p = "seconds_rat ?d * r"
  have p0: "0 \<le> ?p" using elapsed_bounds [OF b(3)] cfg(5) seconds_rat_nonneg [of ?d] by simp
  have s: "Seconds ?d = Fin (seconds_rat ?d)" using elapsed_bounds [OF b(3)] by (intro Seconds_eq) simp_all
  have t: "(if flt (Fin c) (fadd (Fin x) (rnd64 ?p)) then Fin c else fadd (Fin x) (rnd64 ?p)) = Fin y"
    unfolding y_def refilled_def using cfg b p0 by (intro clamp_refill) simp_all
  show y0: "0 \<le> y" using b(2) p0 cfg(4) by (auto simp: y_def refilled_def intro!: rnd_nonneg add_nonneg_nonneg)
  show yc: "y \<le> c" by (simp add: y_def refilled_def)
  show yf: "is_f64 (Fin y)"
    using t cfg(3) is_f64_fadd [of "Fin x" "rnd64 ?p"] by (metis (full_types))
  have sub: "fsub (Fin y) (Fin 1) = Fin (rnd (y - 1))" if "1 \<le> y"
    unfolding fsub_Fin using that yc cfg(3) by (intro rnd64_between(1) [of 0 c]) simp_all
  have sub': "fsub (Fin 1) (Fin y) = Fin (rnd (1 - y))" if "y < 1"
    unfolding fsub_Fin using that y0 by (intro rnd64_between(1) [of 0 1]) simp_all
  show "refillAndDecide tb b now =
      (if 1 \<le> y
       then (\<lparr>tokens = Fin (rnd (y - 1)), lastRefilled = now\<rparr>,
             (\<lparr>Allowed = True, Remaining = remainingFloor (Fin (rnd (y - 1))), RetryAfter = 0\<rparr>, None))
       else (\<lparr>tokens = Fin y, lastRefilled = now\<rparr>,
             (\<lparr>Allowed = False, Remaining = 0,
               RetryAfter = durationFromSecondsCeil (fdiv (Fin (rnd (1 - y))) (Fin r))\<rparr>, None)))"
    unfolding refillAndDecide_def Let_def cfg b s fmul.simps t
    using sub sub' by (auto simp del: fdiv.simps)
qed

lemma rnd_sub1:
  assumes "1 \<le> y" "y \<le> c" "is_f64 (Fin c)"
  shows "is_f64 (Fin (rnd (y - 1)))" "0 \<le> rnd (y - 1)" "rnd (y - 1) \<le> c"
proof -
  note r = rnd64_between [OF is_f64_0 assms(3), of "y - 1"]
  show "0 \<le> rnd (y - 1)" "rnd (y - 1) \<le> c" using r assms by simp_all
  show "is_f64 (Fin (rnd (y - 1)))" using r(1) is_f64_rnd64 [of "y - 1"] assms by simp
qed

lemma TokenBucket_Allow_eq:
  "TokenBucket_Allow tb env key =
     (case mem_allow (tb_opts tb) (refillAndDecide tb) (tb_store tb) env key of
        None \<Rightarrow> None | Some (st, out) \<Rightarrow> Some (tb\<lparr>tb_store := st\<rparr>, out))"
  by (simp add: TokenBucket_Allow_def mem_allow_def sink_events_def Let_def case_prod_beta
      split: option.split)

lemma refillAndDecide_store [simp]: "refillAndDecide (tb\<lparr>tb_store := st\<rparr>) = refillAndDecide tb"
  by (simp add: refillAndDecide_def fun_eq_iff Let_def)

text \<open>What the contract needs of \<open>refillAndDecide\<close>.\<close>

lemma refillAndDecide_step:
  assumes "tb_cfg tb" "tb_ok tb now b"
  shows "tb_ok tb now (fst (refillAndDecide tb b now))" "snd (snd (refillAndDecide tb b now)) = None"
    "result_ok (fst (snd (refillAndDecide tb b now)))"
proof -
  obtain c r where c: "tb_capacity tb = Fin c" "tb_rate tb = Fin r" "is_f64 (Fin c)" "1 \<le> c" "0 < r" "c < 2 ^ 63"
    using assms(1) by (auto simp: tb_cfg_def)
  obtain x where b: "tokens b = Fin x" "0 \<le> x" "lastRefilled b \<le> now"
    using assms(2) by (auto simp: tb_ok_def)
  let ?y = "refilled c r x (Sub now (lastRefilled b))"
  note R = refillAndDecide_Fin [OF c(1-5) b]
  have "rnd (1 - ?y) \<ge> 0" if "\<not> 1 \<le> ?y" using that by (intro rnd_nonneg) simp
  then have W: "0 \<le> durationFromSecondsCeil (fdiv (Fin (rnd (1 - ?y))) (Fin r))" if "\<not> 1 \<le> ?y"
    using that wait_range(1) c(5) by blast
  have S: "is_f64 (Fin (rnd (?y - 1)))" "0 \<le> rnd (?y - 1)" "rnd (?y - 1) \<le> c" if "1 \<le> ?y"
    using rnd_sub1 [OF that R(2) c(3)] by simp_all
  have F: "0 \<le> remainingFloor (Fin (rnd (?y - 1)))" if "1 \<le> ?y"
    using S [OF that] c(6) remainingFloor_Fin [of "rnd (?y - 1)"] by simp
  show "tb_ok tb now (fst (refillAndDecide tb b now))"
    using R S c by (auto simp: tb_ok_def)
  show "snd (snd (refillAndDecide tb b now)) = None" by (simp add: R(4))
  show "result_ok (fst (snd (refillAndDecide tb b now)))"
    using F W by (simp add: R(4) result_ok_def)
qed

lemma tb_store_simps [simp]:
  "tb_cfg (tb\<lparr>tb_store := st\<rparr>) = tb_cfg tb" "tb_ok (tb\<lparr>tb_store := st\<rparr>) = tb_ok tb"
  "tb_fresh (tb\<lparr>tb_store := st\<rparr>) = tb_fresh tb"
  by (simp_all add: tb_cfg_def tb_ok_def tb_fresh_def fun_eq_iff)

interpretation tb: memory_limiter refillAndDecide tb_fresh tb_cfg tb_ok
  TokenBucket_Allow tb_store "\<lambda>st tb. tb\<lparr>tb_store := st\<rparr>" tb_opts
proof unfold_locales
  fix tb t assume "tb_cfg tb"
  then show "tb_ok tb t (tb_fresh tb t)" by (auto simp: tb_cfg_def tb_ok_def tb_fresh_def)
next
  fix tb t v and t' :: time assume "tb_ok tb t v" "t \<le> t'"
  then show "tb_ok tb t' v" by (auto simp: tb_ok_def)
qed (simp_all add: refillAndDecide_step TokenBucket_Allow_eq)

subsection \<open>How much the float arithmetic can give away\<close>

lemma inflow_slack:
  assumes "p \<le> a * (1 + 4 * u64)" "0 \<le> a"
  shows "p * u64 \<le> a * (4 * u64)"
proof -
  have "p * u64 \<le> a * (1 + 4 * u64) * u64" using assms(1) u64_pos by (intro mult_right_mono) auto
  also have "\<dots> = a * ((1 + 4 * u64) * u64)" by (simp add: mult.assoc)
  also have "\<dots> \<le> a * (4 * u64)" using u64_pos u64_le assms(2) by (intro mult_left_mono mult_right_mono) auto
  finally show ?thesis .
qed

lemma refilled_upper:
  assumes "0 \<le> x" "0 \<le> d" "1 \<le> c" "0 < r"
  shows "refilled c r x d \<le> x + r * seconds_exact d * (1 + 8 * u64) + 4 * c * u64"
proof -
  let ?D = "seconds_exact d" and ?p = "seconds_rat d * r"
  have D: "0 \<le> ?D" using assms(2) by (simp add: seconds_exact_def)
  have p0: "0 \<le> ?p" using seconds_rat_nonneg [OF assms(2)] assms(4) by simp
  have "?p \<le> ?D * (1 + 4 * u64) * r"
    using seconds_rat_upper [OF assms(2)] assms(4) by (intro mult_right_mono) auto
  then have p: "?p \<le> r * ?D * (1 + 4 * u64)" by (simp add: mult_ac)
  have pu: "?p * u64 \<le> r * ?D * (4 * u64)" using inflow_slack [OF p] D assms(4) by simp
  have "1 * u64 \<le> c * u64" using assms(3) u64_pos by (intro mult_right_mono) auto
  then have cu: "u64 \<le> c * u64" by simp
  then have e: "eta64 \<le> c * u64" using eta64_le u64_pos by linarith
  have r: "rnd ?p \<le> ?p + ?p * u64 + eta64" "0 \<le> rnd ?p"
    using ieee.upper [of ?p] p0 rnd_nonneg by simp_all
  have "refilled c r x d \<le> x + rnd ?p + 2 * c * u64 + eta64"
    unfolding refilled_def using r(2) assms(1,3) by (intro ieee.clamped_upper) auto
  moreover have "r * ?D * (1 + 8 * u64) = r * ?D * (1 + 4 * u64) + r * ?D * (4 * u64)"
    by (simp add: distrib_left)
  ultimately show ?thesis using r(1) p pu e by linarith
qed

lemma taken_upper:
  assumes "1 \<le> y" "y \<le> c"
  shows "rnd (y - 1) \<le> y - 1 + 2 * c * u64"
proof -
  have "(y - 1) * u64 \<le> c * u64" "1 * u64 \<le> c * u64"
    using assms u64_pos by (intro mult_right_mono; simp)+
  then have "(y - 1) * u64 \<le> c * u64" "eta64 \<le> c * u64" using eta64_le u64_pos by linarith+
  then show ?thesis using ieee.upper [of "y - 1"] assms(1) by simp
qed

text \<open>
  One key's requests at times \<open>t\<close>, \<open>ts\<close>: the allowed ones are paid for by what the bucket holds
  at \<open>t\<close> and by what flows in until the last of them.
\<close>

lemma alone_rate:
  assumes c: "tb_capacity tb = Fin c" "tb_rate tb = Fin r" "is_f64 (Fin c)" "1 \<le> c" "0 < r"
    and "tokens b = Fin x" "0 \<le> x" "sorted (lastRefilled b # t # ts)"
  shows "of_nat (count_allowed (alone (refillAndDecide tb) fresh (Some b) (t # ts)))
     \<le> refilled c r x (Sub t (lastRefilled b)) + r * seconds_exact (last (t # ts) - t) * (1 + 8 * u64)
        + of_nat (length ts) * (8 * c * u64)"
  using assms(6-8)
proof (induction ts arbitrary: b x t)
  case Nil
  have "lastRefilled b \<le> t" using Nil.prems by simp
  then show ?case
    using refillAndDecide_Fin [OF c Nil.prems(1,2), of t] by (simp add: count_allowed_def seconds_exact_def)
next
  case (Cons t2 ts)
  have lr: "lastRefilled b \<le> t" and t2: "t \<le> t2" and srt: "sorted (t2 # ts)" using Cons.prems by auto
  let ?y = "refilled c r x (Sub t (lastRefilled b))"
  note R = refillAndDecide_Fin [OF c Cons.prems(1,2) lr]
  let ?x = "if 1 \<le> ?y then rnd (?y - 1) else ?y"
  define b' where "b' = fst (refillAndDecide tb b t)"
  have b': "fst (refillAndDecide tb b t) = b'" "tokens b' = Fin ?x" "lastRefilled b' = t"
    by (simp_all add: R(4) b'_def)
  have x0: "0 \<le> ?x" using R(1) rnd_nonneg by simp
  have cu: "0 \<le> c * u64" using c(4) u64_pos by simp
  have x: "?x \<le> ?y - (if 1 \<le> ?y then 1 else 0) + 2 * c * u64" using taken_upper [OF _ R(2)] cu by (auto simp: mult_ac)
  have srt': "sorted (lastRefilled b' # t2 # ts)" using t2 srt unfolding b'(3) by auto
  have IH: "of_nat (count_allowed (alone (refillAndDecide tb) fresh (Some b') (t2 # ts)))
     \<le> refilled c r ?x (Sub t2 t) + r * seconds_exact (last (t2 # ts) - t2) * (1 + 8 * u64)
        + of_nat (length ts) * (8 * c * u64)"
    using Cons.IH [OF b'(2) x0 srt'] unfolding b'(3) .
  have d: "0 \<le> Sub t2 t" "Sub t2 t \<le> t2 - t" using elapsed_bounds [OF t2] by simp_all
  have "seconds_exact (Sub t2 t) \<le> seconds_exact (t2 - t)"
    using d(2) by (simp add: seconds_exact_def divide_right_mono)
  then have "r * seconds_exact (Sub t2 t) * (1 + 8 * u64) \<le> r * seconds_exact (t2 - t) * (1 + 8 * u64)"
    using c(5) u64_pos by (intro mult_right_mono mult_left_mono) auto
  then have up: "refilled c r ?x (Sub t2 t) \<le> ?x + r * seconds_exact (t2 - t) * (1 + 8 * u64) + 4 * c * u64"
    using refilled_upper [OF x0 d(1) c(4,5)] by linarith
  have split: "r * seconds_exact (last (t # t2 # ts) - t) * (1 + 8 * u64)
      = r * seconds_exact (last (t2 # ts) - t2) * (1 + 8 * u64) + r * seconds_exact (t2 - t) * (1 + 8 * u64)"
    by (simp add: seconds_exact_def field_simps)
  have cnt: "of_nat (count_allowed (alone (refillAndDecide tb) fresh (Some b) (t # t2 # ts)))
     = (if 1 \<le> ?y then 1 else 0)
       + (of_nat (count_allowed (alone (refillAndDecide tb) fresh (Some b') (t2 # ts))) :: rat)"
    unfolding b'(1) [symmetric] count_allowed_def alone.simps(2) [of _ _ "Some b" t]
    by (simp add: R(4) del: alone.simps(2))
  have "of_nat (length (t2 # ts)) * (8 * c * u64) = of_nat (length ts) * (8 * c * u64) + 8 * (c * u64)"
    by (simp add: distrib_right)
  then show ?case unfolding cnt split using IH up x cu by linarith
qed


subsection \<open>Properties\<close>

lemma NewTokenBucket_inv:
  assumes "NewTokenBucket capacity rate opts = Inr tb" "is_f64 capacity" "is_f64 rate" "flt capacity (Fin (2 ^ 63))"
  shows "tb_capacity tb = capacity" "tb_rate tb = rate" "tb_cfg tb" "store_inv 0 (tb_store tb)"
    "create (tb_store tb) = tb_fresh tb" "st_opts (tb_store tb) = tb_opts tb" "st_value (tb_store tb) = Map.empty"
    "states_ok P (tb_store tb)"
proof -
  have fin: "isFinite capacity" "\<not> flt capacity (Fin 1)" "isFinite rate" "\<not> fle rate (Fin 0)"
    using assms(1) by (auto simp: NewTokenBucket_def split: if_splits)
  obtain o1 where o1: "buildOptions opts = Inr o1"
    using assms(1) by (auto simp: NewTokenBucket_def split: if_splits sum.splits)
  note n = newStateStore_inv [OF buildOptions_valid [OF o1]]
  have tb: "tb = \<lparr>tb_capacity = capacity, tb_rate = rate, tb_opts = o1,
      tb_store = newShardedStore o1 (\<lambda>now. \<lparr>tokens = capacity, lastRefilled = now\<rparr>)
                   (Some (if sink o1 then [OnEvict TierSingle] else []))\<rparr>"
    using assms(1) fin o1 by (auto simp: NewTokenBucket_def n(1))
  show "tb_capacity tb = capacity" "tb_rate tb = rate" "store_inv 0 (tb_store tb)"
    "create (tb_store tb) = tb_fresh tb" "st_opts (tb_store tb) = tb_opts tb" "st_value (tb_store tb) = Map.empty"
    "states_ok P (tb_store tb)"
    by (simp_all add: tb tb_fresh_def fun_eq_iff states_ok_def n)
  show "tb_cfg tb"
    using fin assms(2-4) by (cases capacity; cases rate) (auto simp: tb tb_cfg_def isFinite_def)
qed

text \<open>
  Claim C4. The token bucket keeps the limiter contract along every run: from a new limiter, for
  any sequence of requests with any keys, under any eviction policy, key limit and TTL, as long
  as the clock does not run backwards, every call returns; it returns an error only with the
  zero result; a decision for a blank key is never made; an allowed result has
  \<open>RetryAfter = 0\<close> and \<open>Remaining >= 0\<close>, a denied one \<open>Remaining = 0\<close> and
  \<open>RetryAfter >= 0\<close>. (Capacities from \<open>2\<^sup>6\<^sup>3\<close> on overflow \<open>Remaining\<close>.)
\<close>

theorem token_bucket_contract:
  assumes "NewTokenBucket capacity rate opts = Inr tb" "is_f64 capacity" "is_f64 rate" "flt capacity (Fin (2 ^ 63))"
    and "successively mem_later (map fst rs)"
  shows "\<exists>tb' outs. requests TokenBucket_Allow tb rs = Some (tb', outs) \<and> length outs = length rs
     \<and> list_all2 (\<lambda>(env, key) (ret, evs). return_ok key ret) rs outs"
  using tb.requests_contract [OF _ assms(5)] NewTokenBucket_inv [OF assms(1-4)] by blast

text \<open>A stretch of the requests for one key.\<close>

lemma token_stretch:
  assumes "NewTokenBucket (Fin c) (Fin r) opts = Inr tb" "is_f64 (Fin c)" "is_f64 (Fin r)" "c < 2 ^ 63"
    and "keeps_all_keys (tb_opts tb)" "\<not> blank key"
    and "requests TokenBucket_Allow tb rs = Some (tb', outs)" "sorted (times_for key rs)"
    and "take n (drop m (times_for key rs)) = t # ts"
  shows "of_nat (count_allowed (take n (drop m (answers_for key rs outs))))
     \<le> c + r * seconds_exact (last (t # ts) - t) * (1 + 1 / 2 ^ 50) + of_nat (length ts) * (c / 2 ^ 50)"
proof -
  note N = NewTokenBucket_inv [OF assms(1-3)]
  have cfg: "tb_capacity tb = Fin c" "tb_rate tb = Fin r" "is_f64 (Fin c)" "1 \<le> c" "0 < r" "tb_cfg tb"
    using N assms(2,4) by (auto simp: tb_cfg_def)
  have ans: "answers_for key rs outs = alone (refillAndDecide tb) (tb_fresh tb) None (times_for key rs)"
    using tb.alone_requests [of tb key rs] N assms(4-7) by auto
  obtain b where b: "take n (drop m (answers_for key rs outs)) = alone (refillAndDecide tb) (tb_fresh tb) (Some b) (t # ts)"
    "tb_ok tb t b"
    using tb.alone_stretch [OF cfg(6) assms(8,9)] unfolding ans by blast
  obtain x where x: "tokens b = Fin x" "0 \<le> x" "lastRefilled b \<le> t" using b(2) by (auto simp: tb_ok_def)
  have "sorted (t # ts)" using assms(8,9) by (metis sorted_wrt_drop sorted_wrt_take)
  then have "sorted (lastRefilled b # t # ts)" using x(3) by auto
  note rate = alone_rate [OF cfg(1-5) x(1,2) this, of "tb_fresh tb"]
  have "refilled c r x (Sub t (lastRefilled b)) \<le> c" by (simp add: refilled_def)
  then show ?thesis using rate unfolding b(1) by (simp add: u64_def)
qed

text \<open>
  Claim C3. Rate conformance of the token bucket, float rounding included. Take any run of
  requests through a new limiter without key limit and TTL, and any stretch of the requests for
  one key in it, with times that do not run backwards. The number of allowed requests in the
  stretch is at most the capacity plus what flows in at \<open>rate\<close> between the first and the last
  of them, up to a relative error of \<open>2\<^sup>-\<^sup>5\<^sup>0\<close> of the inflow and of the capacity per request.
\<close>

theorem token_bucket_rate:
  assumes "NewTokenBucket (Fin c) (Fin r) opts = Inr tb" "is_f64 (Fin c)" "is_f64 (Fin r)" "c < 2 ^ 63"
    and "keeps_all_keys (tb_opts tb)" "\<not> blank key"
    and "requests TokenBucket_Allow tb rs = Some (tb', outs)" "sorted (times_for key rs)"
    and "take n (drop m (times_for key rs)) = t # ts"
  shows "of_nat (count_allowed (take n (drop m (answers_for key rs outs))))
     \<le> c + r * seconds_exact (last (t # ts) - t) * (1 + 1 / 2 ^ 50) + of_nat (length ts) * (c / 2 ^ 50)"
  using assms by (rule token_stretch)


subsection \<open>Witnesses\<close>

lemma small_token_bucket: "\<exists>tb. NewTokenBucket (Fin 2) (Fin 1) [] = Inr tb \<and> keeps_all_keys (tb_opts tb)"
  by (auto simp: NewTokenBucket_def isFinite_def buildOptions_Nil newStateStore_def keeps_all_keys_def)
    (simp_all add: defaultOptions_def)

lemma is_f64_2: "is_f64 (Fin 2)"
  using is_f64_int [of 2] by simp

theorem token_bucket_contract_witness:
  "\<exists>tb tb' outs. NewTokenBucket (Fin 2) (Fin 1) [] = Inr tb
     \<and> requests TokenBucket_Allow tb [(at_time 5, ''a''), (at_time 5, '' ''), (at_time 9, ''b'')] = Some (tb', outs)
     \<and> list_all2 (\<lambda>(env, key) (ret, evs). return_ok key ret)
         [(at_time 5, ''a''), (at_time 5, '' ''), (at_time 9, ''b'')] outs"
proof -
  obtain tb where tb: "NewTokenBucket (Fin 2) (Fin 1) [] = Inr tb" using small_token_bucket by blast
  show ?thesis
    using token_bucket_contract [OF tb is_f64_2 is_f64_1, of "[(at_time 5, ''a''), (at_time 5, '' ''), (at_time 9, ''b'')]"] tb
    by auto
qed

theorem token_bucket_rate_witness:
  "\<exists>tb tb' outs. NewTokenBucket (Fin 2) (Fin 1) [] = Inr tb
     \<and> requests TokenBucket_Allow tb [(at_time 5, ''a''), (at_time 6, ''b''), (at_time 9, ''a'')] = Some (tb', outs)
     \<and> of_nat (count_allowed (take 2 (drop 0 (answers_for ''a''
           [(at_time 5, ''a''), (at_time 6, ''b''), (at_time 9, ''a'')] outs))))
       \<le> 2 + 1 * seconds_exact (last [5, 9] - 5) * (1 + 1 / 2 ^ 50) + of_nat (length [9::time]) * (2 / 2 ^ 50 :: rat)"
proof -
  let ?rs = "[(at_time 5, ''a''), (at_time 6, ''b''), (at_time 9, ''a'')]"
  obtain tb where tb: "NewTokenBucket (Fin 2) (Fin 1) [] = Inr tb" "keeps_all_keys (tb_opts tb)"
    using small_token_bucket by blast
  have "store_inv 0 (tb_store tb)" "create (tb_store tb) = tb_fresh tb" "st_opts (tb_store tb) = tb_opts tb"
    using NewTokenBucket_inv [OF tb(1) is_f64_2 is_f64_1] by simp_all
  moreover have key: "\<not> blank ''a''" by code_simp
  ultimately obtain tb' outs where "requests TokenBucket_Allow tb ?rs = Some (tb', outs)"
    using tb.alone_requests [of tb "''a''" ?rs] tb(2) by auto
  then show ?thesis
    using token_bucket_rate [OF tb(1) is_f64_2 is_f64_1 _ tb(2) key, of ?rs tb' outs 2 0 5 "[9]"] tb(1)
    by (simp add: numeral_2_eq_2)
qed


text \<open>
  A wait that is announced as none. Capacity 1, rate 5 per second, requests for a key at 0, 20
  and 200 milliseconds: the two partial refills add up to \<open>1 - 2\<^sup>-\<^sup>5\<^sup>3\<close> tokens, the third
  request is denied and its \<open>RetryAfter\<close> is 0, since \<open>durationFromSecondsCeil\<close> rounds a wait
  below a millionth of a nanosecond down.
\<close>

theorem token_bucket_denied_without_wait:
  "let tb = \<lparr>tb_capacity = Fin 1, tb_rate = Fin 5, tb_opts = defaultOptions, tb_store = newShardedStore defaultOptions (\<lambda>t. \<lparr>tokens = Fin 1, lastRefilled = t\<rparr>) None\<rparr>
   in alone (refillAndDecide tb) (tb_fresh tb) None [0, 20 * Millisecond, 200 * Millisecond]
      = [(\<lparr>Allowed = True, Remaining = 0, RetryAfter = 0\<rparr>, None),
         (\<lparr>Allowed = False, Remaining = 0, RetryAfter = 180 * Millisecond\<rparr>, None),
         (\<lparr>Allowed = False, Remaining = 0, RetryAfter = 0\<rparr>, None)]"
  by code_simp

end
