(* ===== verification/Mem_LeakyBucket.thy ===== *)
theory Mem_LeakyBucket
  imports Mem_TokenBucket
begin

section \<open>\<open>memory/leaky_bucket.go\<close>\<close>

text \<open>
  The leaky bucket: the leak computation under the shard lock, the constructor and \<open>Allow\<close>,
  the contract it keeps and its rate conformance.
\<close>

record leakyState =
  water :: float64
  lastLeak :: time

record LeakyBucket =
  lb_capacity :: float64
  lb_rate :: float64
  lb_opts :: options
  lb_store :: "leakyState shardedStore"

definition leakAndDecide :: "LeakyBucket \<Rightarrow> leakyState callback" where
  "leakAndDecide lb b now =
     (let elapsed = Seconds (Sub now (lastLeak b));
          leakedWater = fmul elapsed (lb_rate lb);
          w1 = fsub (water b) leakedWater;
          w2 = (if flt w1 (Fin 0) then Fin 0 else w1)
      in if fle (fadd w2 (Fin 1)) (lb_capacity lb)
         then let w3 = fadd w2 (Fin 1)
              in (\<lparr>water = w3, lastLeak = now\<rparr>,
                  (\<lparr>Allowed = True, Remaining = remainingFloor (fsub (lb_capacity lb) w3), RetryAfter = 0\<rparr>, None))
         else let overflow = fsub (fadd w2 (Fin 1)) (lb_capacity lb);
                  retryAfter = durationFromSecondsCeil (fdiv overflow (lb_rate lb))
              in (\<lparr>water = w2, lastLeak = now\<rparr>,
                  (\<lparr>Allowed = False, Remaining = 0, RetryAfter = retryAfter\<rparr>, None)))"

definition NewLeakyBucket :: "float64 \<Rightarrow> float64 \<Rightarrow> Option list \<Rightarrow> LeakyBucket panics" where
  "NewLeakyBucket capacity rate opts =
     (if \<not> isFinite capacity \<or> flt capacity (Fin 1)
      then Inl ''memory: leaky bucket capacity must be >= 1''
      else if \<not> isFinite rate \<or> fle rate (Fin 0)
      then Inl ''memory: leaky bucket rate must be > 0''
      else case buildOptions opts of
             Inl msg \<Rightarrow> Inl msg
           | Inr o1 \<Rightarrow>
               (case newStateStore o1 (\<lambda>now. \<lparr>water = Fin 0, lastLeak = now\<rparr>)
                       (Some (if sink o1 then [OnEvict TierSingle] else [])) of
                  Inl msg \<Rightarrow> Inl msg
                | Inr st \<Rightarrow>
                    Inr \<lparr>lb_capacity = capacity, lb_rate = rate, lb_opts = o1, lb_store = st\<rparr>))"

definition LeakyBucket_Allow :: "(LeakyBucket, mem_env) limiter" where
  "LeakyBucket_Allow lb env key =
     (case mem_validateKey key of
        Some err \<Rightarrow>
          Some (lb, (zero_Result, Some err), if sink (lb_opts lb) then [OnError TierSingle err] else [])
      | None \<Rightarrow>
          (case withState (env_iter env) (lb_store lb) key (env_now env) (leakAndDecide lb) of
             None \<Rightarrow> None
           | Some (st, (result, err)) \<Rightarrow>
               if sink (lb_opts lb)
               then let evs = (case err of
                                 Some er \<Rightarrow> [OnError TierSingle er]
                               | None \<Rightarrow> if Allowed result then [OnAllowed TierSingle result]
                                         else [OnRejected TierSingle result]);
                        keys = [SetKeys TierSingle (len st)];
                        (st', n, evicted) = drainEvictions st
                    in Some (lb\<lparr>lb_store := st'\<rparr>, (result, err), evs @ keys @ evicted)
               else Some (lb\<lparr>lb_store := st\<rparr>, (result, err), [])))"

subsection \<open>The leak in exact terms\<close>

definition leaked :: "rat \<Rightarrow> rat \<Rightarrow> duration \<Rightarrow> rat" where
  "leaked r x d = max 0 (rnd (x - rnd (seconds_rat d * r)))"

lemma clamp_leak:
  assumes x: "is_f64 (Fin x)" "0 \<le> x" and p: "0 \<le> p"
  defines "w \<equiv> fsub (Fin x) (rnd64 p)"
  shows "(if flt w (Fin 0) then Fin 0 else w) = Fin (max 0 (rnd (x - rnd p)))"
  using p
proof (cases rule: rnd64_nonneg_cases)
  case 1
  have "x - rnd p \<le> 0" using 1 is_f64_FinD(2) [OF x(1)] by linarith
  then have "rnd (x - rnd p) \<le> 0" by (rule ieee.le_repr) simp
  then show ?thesis using 1 by (simp add: w_def fsub_def max_def)
next
  case 2
  have w: "w = rnd64 (x - rnd p)" using 2 by (simp add: w_def fsub_Fin)
  have "x - rnd p \<le> x" using 2 by simp
  then have "rnd (x - rnd p) \<le> x" using is_f64_FinD(1) [OF x(1)] by (rule ieee.le_repr)
  then have "rnd (x - rnd p) < huge64" using is_f64_FinD(2) [OF x(1)] by linarith
  then show ?thesis using huge64_pos by (auto simp: w rnd64_eq max_def)
qed

lemma leaked_bounds:
  assumes "is_f64 (Fin x)" "0 \<le> x" "0 \<le> d" "0 < r"
  shows "0 \<le> leaked r x d" "leaked r x d \<le> x" "is_f64 (Fin (leaked r x d))"
proof -
  have p: "0 \<le> rnd (seconds_rat d * r)" using seconds_rat_nonneg [OF assms(3)] assms(4) by (intro rnd_nonneg) simp
  then have "rnd (x - rnd (seconds_rat d * r)) \<le> x" using is_f64_FinD(1) [OF assms(1)] by (intro ieee.le_repr) simp
  then show b: "0 \<le> leaked r x d" "leaked r x d \<le> x" using assms(2) by (simp_all add: leaked_def)
  have "leaked r x d \<in> F64" by (simp add: leaked_def max_def rnd_in_F64)
  then show "is_f64 (Fin (leaked r x d))" using b is_f64_FinD(2) [OF assms(1)] by (intro is_f64_FinI) auto
qed

definition lb_cfg :: "LeakyBucket \<Rightarrow> bool" where
  "lb_cfg lb \<longleftrightarrow> (\<exists>c r. lb_capacity lb = Fin c \<and> lb_rate lb = Fin r \<and> is_f64 (Fin c) \<and> is_f64 (Fin r)
     \<and> 1 \<le> c \<and> c < 2 ^ 63 \<and> 0 < r)"

definition lb_fresh :: "LeakyBucket \<Rightarrow> time \<Rightarrow> leakyState" where
  "lb_fresh lb now = \<lparr>water = Fin 0, lastLeak = now\<rparr>"

text \<open>A bucket holds between 0 and \<open>capacity\<close> drops and did not leak in the future.\<close>

definition lb_ok :: "LeakyBucket \<Rightarrow> time \<Rightarrow> leakyState \<Rightarrow> bool" where
  "lb_ok lb t b \<longleftrightarrow> (\<exists>x. water b = Fin x \<and> is_f64 (Fin x) \<and> 0 \<le> x \<and> fle (Fin x) (lb_capacity lb)) \<and> lastLeak b \<le> t"

lemma is_f64_2_64: "is_f64 (Fin (2 ^ 64))"
proof (rule is_f64_FinI)
  have "(2 ^ 64 :: rat) = of_int 1 * 2 powi 64" by simp
  then show "(2 ^ 64 :: rat) \<in> F64" unfolding F64_def by fastforce
  have "(2::rat) powi 64 < huge64" unfolding huge64_def by (rule power_int_strict_increasing) auto
  then show "\<bar>2 ^ 64 :: rat\<bar> < huge64" by simp
qed

lemma leakAndDecide_Fin:
  assumes cfg: "lb_capacity lb = Fin c" "lb_rate lb = Fin r" "is_f64 (Fin c)" "1 \<le> c" "0 < r" "c < 2 ^ 63"
    and b: "water b = Fin x" "is_f64 (Fin x)" "0 \<le> x" "x \<le> c" "lastLeak b \<le> now"
  defines "y \<equiv> leaked r x (Sub now (lastLeak b))"
  shows "0 \<le> y" "y \<le> c" "is_f64 (Fin y)" "is_f64 (Fin (rnd (y + 1)))"
    and "leakAndDecide lb b now =
      (if rnd (y + 1) \<le> c
       then (\<lparr>water = Fin (rnd (y + 1)), lastLeak = now\<rparr>,
             (\<lparr>Allowed = True, Remaining = remainingFloor (Fin (rnd (c - rnd (y + 1)))), RetryAfter = 0\<rparr>, None))
       else (\<lparr>water = Fin y, lastLeak = now\<rparr>,
             (\<lparr>Allowed = False, Remaining = 0,
               RetryAfter = durationFromSecondsCeil (fdiv (Fin (rnd (rnd (y + 1) - c))) (Fin r))\<rparr>, None)))"
proof -
  let ?d = "Sub now (lastLeak b)"
  let ?p = "seconds_rat ?d * r"
  have d: "0 \<le> ?d" "?d \<le> max_int64" using elapsed_bounds [OF b(5)] by simp_all
  have p0: "0 \<le> ?p" using d(1) cfg(5) seconds_rat_nonneg by simp
  have s: "Seconds ?d = Fin (seconds_rat ?d)" using d by (rule Seconds_eq)
  have t: "(if flt (fsub (Fin x) (rnd64 ?p)) (Fin 0) then Fin 0 else fsub (Fin x) (rnd64 ?p)) = Fin y"
    unfolding y_def leaked_def using b p0 by (intro clamp_leak)
  note L = leaked_bounds [OF b(2,3) d(1) cfg(5), folded y_def]
  show y0: "0 \<le> y" and yf: "is_f64 (Fin y)" by (fact L)+
  show yc: "y \<le> c" using L(2) b(4) by linarith
  have y1: "0 \<le> y + 1" "y + 1 \<le> 2 ^ 64" using y0 yc cfg(6) by simp_all
  note R = rnd64_between [OF is_f64_0 is_f64_2_64 y1]
  show "is_f64 (Fin (rnd (y + 1)))" using is_f64_rnd64 [of "y + 1"] R(1) by simp
  have sub: "fsub (Fin c) (Fin (rnd (y + 1))) = Fin (rnd (c - rnd (y + 1)))" if "rnd (y + 1) \<le> c"
    unfolding fsub_Fin using that R(2) cfg(3) by (intro rnd64_between(1) [of 0 c]) simp_all
  have sub': "fsub (Fin (rnd (y + 1))) (Fin c) = Fin (rnd (rnd (y + 1) - c))" if "c < rnd (y + 1)"
    unfolding fsub_Fin using that R(3) cfg(4) by (intro rnd64_between(1) [OF is_f64_0 is_f64_2_64]) simp_all
  show "leakAndDecide lb b now =
      (if rnd (y + 1) \<le> c
       then (\<lparr>water = Fin (rnd (y + 1)), lastLeak = now\<rparr>,
             (\<lparr>Allowed = True, Remaining = remainingFloor (Fin (rnd (c - rnd (y + 1)))), RetryAfter = 0\<rparr>, None))
       else (\<lparr>water = Fin y, lastLeak = now\<rparr>,
             (\<lparr>Allowed = False, Remaining = 0,
               RetryAfter = durationFromSecondsCeil (fdiv (Fin (rnd (rnd (y + 1) - c))) (Fin r))\<rparr>, None)))"
    unfolding leakAndDecide_def Let_def cfg b s fmul.simps t
    using sub sub' R(1) by (auto simp del: fdiv.simps)
qed

subsection \<open>The contract\<close>

lemma LeakyBucket_Allow_eq:
  "LeakyBucket_Allow lb env key =
     (case mem_allow (lb_opts lb) (leakAndDecide lb) (lb_store lb) env key of
        None \<Rightarrow> None | Some (st, out) \<Rightarrow> Some (lb\<lparr>lb_store := st\<rparr>, out))"
  by (simp add: LeakyBucket_Allow_def mem_allow_def sink_events_def Let_def case_prod_beta
      split: option.split)

lemma lb_store_simps [simp]:
  "leakAndDecide (lb\<lparr>lb_store := st\<rparr>) = leakAndDecide lb"
  "lb_cfg (lb\<lparr>lb_store := st\<rparr>) = lb_cfg lb" "lb_ok (lb\<lparr>lb_store := st\<rparr>) = lb_ok lb"
  "lb_fresh (lb\<lparr>lb_store := st\<rparr>) = lb_fresh lb"
  by (simp_all add: leakAndDecide_def lb_cfg_def lb_ok_def lb_fresh_def fun_eq_iff Let_def)

lemma leakAndDecide_step:
  assumes "lb_cfg lb" "lb_ok lb now b"
  shows "lb_ok lb now (fst (leakAndDecide lb b now))" "snd (snd (leakAndDecide lb b now)) = None"
    "result_ok (fst (snd (leakAndDecide lb b now)))"
proof -
  obtain c r where c: "lb_capacity lb = Fin c" "lb_rate lb = Fin r" "is_f64 (Fin c)" "1 \<le> c" "0 < r" "c < 2 ^ 63"
    using assms(1) by (auto simp: lb_cfg_def)
  obtain x where b: "water b = Fin x" "is_f64 (Fin x)" "0 \<le> x" "x \<le> c" "lastLeak b \<le> now"
    using assms(2) c(1) by (auto simp: lb_ok_def)
  let ?y = "leaked r x (Sub now (lastLeak b))"
  note R = leakAndDecide_Fin [OF c b]
  have "0 \<le> rnd (rnd (?y + 1) - c)" if "\<not> rnd (?y + 1) \<le> c" using that by (intro rnd_nonneg) simp
  then have W: "0 \<le> durationFromSecondsCeil (fdiv (Fin (rnd (rnd (?y + 1) - c))) (Fin r))" if "\<not> rnd (?y + 1) \<le> c"
    using that wait_range(1) c(5) by blast
  have S: "0 \<le> rnd (?y + 1)" using R(1) by (intro rnd_nonneg) simp
  have "0 \<le> rnd (c - rnd (?y + 1))" "rnd (c - rnd (?y + 1)) \<le> c" if "rnd (?y + 1) \<le> c"
    using that S is_f64_FinD(1) [OF c(3)] by (auto intro!: rnd_nonneg ieee.le_repr)
  then have F: "0 \<le> remainingFloor (Fin (rnd (c - rnd (?y + 1))))" if "rnd (?y + 1) \<le> c"
    using that c(6) remainingFloor_Fin [of "rnd (c - rnd (?y + 1))"] by simp
  show "lb_ok lb now (fst (leakAndDecide lb b now))" using R S c by (auto simp: lb_ok_def)
  show "snd (snd (leakAndDecide lb b now)) = None" by (simp add: R(5))
  show "result_ok (fst (snd (leakAndDecide lb b now)))" using F W by (simp add: R(5) result_ok_def)
qed

interpretation lb: memory_limiter leakAndDecide lb_fresh lb_cfg lb_ok
  LeakyBucket_Allow lb_store "\<lambda>st lb. lb\<lparr>lb_store := st\<rparr>" lb_opts
proof unfold_locales
  fix lb t assume "lb_cfg lb"
  then show "lb_ok lb t (lb_fresh lb t)" by (auto simp: lb_cfg_def lb_ok_def lb_fresh_def)
next
  fix lb t v and t' :: time assume "lb_ok lb t v" "t \<le> t'"
  then show "lb_ok lb t' v" by (auto simp: lb_ok_def)
qed (simp_all add: leakAndDecide_step LeakyBucket_Allow_eq)

subsection \<open>How much the float arithmetic can give away\<close>

lemma leaked_lower:
  assumes "0 \<le> x" "x \<le> c" "0 \<le> d" "1 \<le> c" "0 < r"
  shows "x - r * seconds_exact d * (1 + 8 * u64) - 4 * c * u64 \<le> leaked r x d"
proof -
  let ?D = "seconds_exact d" and ?p = "seconds_rat d * r"
  have D: "0 \<le> ?D" using assms(3) by (simp add: seconds_exact_def)
  have p0: "0 \<le> ?p" using seconds_rat_nonneg [OF assms(3)] assms(5) by simp
  have "?p \<le> ?D * (1 + 4 * u64) * r"
    using seconds_rat_upper [OF assms(3)] assms(5) by (intro mult_right_mono) auto
  then have p: "?p \<le> r * ?D * (1 + 4 * u64)" by (simp add: mult_ac)
  have pu: "?p * u64 \<le> r * ?D * (4 * u64)" using inflow_slack [OF p] D assms(5) by simp
  have "1 * u64 \<le> c * u64" using assms(4) u64_pos by (intro mult_right_mono) auto
  then have e: "eta64 \<le> c * u64" using eta64_le u64_pos by linarith
  have r: "rnd ?p \<le> ?p + ?p * u64 + eta64" using ieee.upper [of ?p] p0 by simp
  let ?z = "x - rnd ?p"
  have z: "?z - c * u64 - eta64 \<le> leaked r x d"
  proof (cases "0 \<le> ?z")
    case True
    have "\<bar>?z\<bar> * u64 \<le> c * u64" using True assms(2) rnd_nonneg [OF p0] u64_pos by (intro mult_right_mono) auto
    then show ?thesis unfolding leaked_def using ieee.lower [of ?z] by linarith
  next
    case False
    moreover have "0 \<le> c * u64" using assms(4) u64_pos by simp
    ultimately have "?z - c * u64 - eta64 \<le> 0" using eta64_pos by linarith
    then show ?thesis by (simp add: leaked_def)
  qed
  have "r * ?D * (1 + 8 * u64) = r * ?D * (1 + 4 * u64) + r * ?D * (4 * u64)" by (simp add: distrib_left)
  moreover have "0 \<le> c * u64" using assms(4) u64_pos by simp
  ultimately show ?thesis using r p pu e z by linarith
qed

lemma added_lower:
  assumes "0 \<le> y" "y \<le> c" "1 \<le> c"
  shows "y + 1 - 3 * c * u64 \<le> rnd (y + 1)"
proof -
  have "(y + 1) * u64 \<le> (2 * c) * u64" "1 * u64 \<le> c * u64"
    using assms u64_pos by (intro mult_right_mono; simp)+
  moreover have "\<bar>y + 1\<bar> = y + 1" using assms(1) by simp
  ultimately show ?thesis using ieee.lower [of "y + 1"] eta64_le u64_pos by linarith
qed

text \<open>
  One key's requests at times \<open>t\<close>, \<open>ts\<close>: the allowed ones fit into what the bucket has free
  at \<open>t\<close> and into what leaks until the last of them.
\<close>

lemma leaky_alone_rate:
  assumes c: "lb_capacity lb = Fin c" "lb_rate lb = Fin r" "is_f64 (Fin c)" "1 \<le> c" "0 < r" "c < 2 ^ 63"
    and "water b = Fin x" "is_f64 (Fin x)" "0 \<le> x" "x \<le> c" "sorted (lastLeak b # t # ts)"
  shows "of_nat (count_allowed (alone (leakAndDecide lb) fresh (Some b) (t # ts)))
     \<le> c - leaked r x (Sub t (lastLeak b)) + r * seconds_exact (last (t # ts) - t) * (1 + 8 * u64)
        + of_nat (length (t # ts)) * (8 * c * u64)"
  using assms(7-11)
proof (induction ts arbitrary: b x t)
  case Nil
  have lr: "lastLeak b \<le> t" using Nil.prems by simp
  note R = leakAndDecide_Fin [OF c Nil.prems(1-4) lr]
  have cu: "0 \<le> c * u64" using c(4) u64_pos by simp
  show ?case
    using R(1,2) R(5) added_lower [OF R(1,2) c(4)] cu by (simp add: count_allowed_def seconds_exact_def)
next
  case (Cons t2 ts)
  have lr: "lastLeak b \<le> t" and t2: "t \<le> t2" and srt: "sorted (t2 # ts)" using Cons.prems by auto
  let ?y = "leaked r x (Sub t (lastLeak b))"
  note R = leakAndDecide_Fin [OF c Cons.prems(1-4) lr]
  let ?a = "rnd (?y + 1) \<le> c"
  let ?x = "if ?a then rnd (?y + 1) else ?y"
  define b' where "b' = fst (leakAndDecide lb b t)"
  have b': "fst (leakAndDecide lb b t) = b'" "water b' = Fin ?x" "lastLeak b' = t"
    by (simp_all add: R(5) b'_def)
  have x: "is_f64 (Fin ?x)" "0 \<le> ?x" "?x \<le> c" using R(1-4) rnd_nonneg by simp_all
  have cu: "0 \<le> c * u64" using c(4) u64_pos by simp
  have xl: "?y + (if ?a then 1 else 0) - 3 * c * u64 \<le> ?x"
    using added_lower [OF R(1,2) c(4)] cu by (auto simp: mult_ac)
  have srt': "sorted (lastLeak b' # t2 # ts)" using t2 srt unfolding b'(3) by auto
  have IH: "of_nat (count_allowed (alone (leakAndDecide lb) fresh (Some b') (t2 # ts)))
     \<le> c - leaked r ?x (Sub t2 t) + r * seconds_exact (last (t2 # ts) - t2) * (1 + 8 * u64)
        + of_nat (length (t2 # ts)) * (8 * c * u64)"
    using Cons.IH [OF b'(2) x srt'] unfolding b'(3) .
  have d: "0 \<le> Sub t2 t" "Sub t2 t \<le> t2 - t" using elapsed_bounds [OF t2] by simp_all
  have "seconds_exact (Sub t2 t) \<le> seconds_exact (t2 - t)"
    using d(2) by (simp add: seconds_exact_def divide_right_mono)
  then have "r * seconds_exact (Sub t2 t) * (1 + 8 * u64) \<le> r * seconds_exact (t2 - t) * (1 + 8 * u64)"
    using c(5) u64_pos by (intro mult_right_mono mult_left_mono) auto
  then have low: "?x - r * seconds_exact (t2 - t) * (1 + 8 * u64) - 4 * c * u64 \<le> leaked r ?x (Sub t2 t)"
    using leaked_lower [OF x(2,3) d(1) c(4,5)] by linarith
  have split: "r * seconds_exact (last (t # t2 # ts) - t) * (1 + 8 * u64)
      = r * seconds_exact (last (t2 # ts) - t2) * (1 + 8 * u64) + r * seconds_exact (t2 - t) * (1 + 8 * u64)"
    by (simp add: seconds_exact_def field_simps)
  have cnt: "of_nat (count_allowed (alone (leakAndDecide lb) fresh (Some b) (t # t2 # ts)))
     = (if ?a then 1 else 0)
       + (of_nat (count_allowed (alone (leakAndDecide lb) fresh (Some b') (t2 # ts))) :: rat)"
    unfolding b'(1) [symmetric] count_allowed_def alone.simps(2) [of _ _ "Some b" t]
    by (simp add: R(5) del: alone.simps(2))
  have "of_nat (length (t # t2 # ts)) * (8 * c * u64) = of_nat (length (t2 # ts)) * (8 * c * u64) + 8 * (c * u64)"
    by (simp add: distrib_right)
  then show ?case unfolding cnt split using IH low xl cu by linarith
qed

subsection \<open>Properties\<close>

lemma NewLeakyBucket_inv:
  assumes "NewLeakyBucket capacity rate opts = Inr lb" "is_f64 capacity" "is_f64 rate" "flt capacity (Fin (2 ^ 63))"
  shows "lb_capacity lb = capacity" "lb_rate lb = rate" "lb_cfg lb" "store_inv 0 (lb_store lb)"
    "create (lb_store lb) = lb_fresh lb" "st_opts (lb_store lb) = lb_opts lb" "st_value (lb_store lb) = Map.empty"
    "states_ok P (lb_store lb)"
proof -
  have fin: "isFinite capacity" "\<not> flt capacity (Fin 1)" "isFinite rate" "\<not> fle rate (Fin 0)"
    using assms(1) by (auto simp: NewLeakyBucket_def split: if_splits)
  obtain o1 where o1: "buildOptions opts = Inr o1"
    using assms(1) by (auto simp: NewLeakyBucket_def split: if_splits sum.splits)
  note n = newStateStore_inv [OF buildOptions_valid [OF o1]]
  have lb: "lb = \<lparr>lb_capacity = capacity, lb_rate = rate, lb_opts = o1,
      lb_store = newShardedStore o1 (\<lambda>now. \<lparr>water = Fin 0, lastLeak = now\<rparr>)
                   (Some (if sink o1 then [OnEvict TierSingle] else []))\<rparr>"
    using assms(1) fin o1 by (auto simp: NewLeakyBucket_def n(1))
  show "lb_capacity lb = capacity" "lb_rate lb = rate" "store_inv 0 (lb_store lb)"
    "create (lb_store lb) = lb_fresh lb" "st_opts (lb_store lb) = lb_opts lb" "st_value (lb_store lb) = Map.empty"
    "states_ok P (lb_store lb)"
    by (simp_all add: lb lb_fresh_def fun_eq_iff states_ok_def n)
  show "lb_cfg lb"
    using fin assms(2-4) by (cases capacity; cases rate) (auto simp: lb lb_cfg_def isFinite_def)
qed

text \<open>
  Claim C23. The leaky bucket keeps the limiter contract along every run: from a new limiter, for
  any sequence of requests with any keys, under any eviction policy, key limit and TTL, as long
  as the clock does not run backwards, every call returns, with an error and the zero result or
  with a well-formed decision (\<open>RetryAfter = 0\<close> and \<open>Remaining >= 0\<close> when allowed,
  \<open>Remaining = 0\<close> and \<open>RetryAfter >= 0\<close> when denied), never a decision for a blank key.
\<close>

theorem leaky_bucket_contract:
  assumes "NewLeakyBucket capacity rate opts = Inr lb" "is_f64 capacity" "is_f64 rate" "flt capacity (Fin (2 ^ 63))"
    and "successively mem_later (map fst rs)"
  shows "\<exists>lb' outs. requests LeakyBucket_Allow lb rs = Some (lb', outs) \<and> length outs = length rs
     \<and> list_all2 (\<lambda>(env, key) (ret, evs). return_ok key ret) rs outs"
  using lb.requests_contract [OF _ assms(5)] NewLeakyBucket_inv [OF assms(1-4)] by blast

text \<open>
  Claim C22. Rate conformance of the leaky bucket, float rounding included: in any stretch of the
  requests for one key, in any run through a new limiter without key limit and TTL and with times
  that do not run backwards, at most \<open>capacity\<close> plus \<open>rate\<close> times the length of the stretch are
  allowed, up to a relative error of \<open>2\<^sup>-\<^sup>5\<^sup>0\<close> of the outflow and of the capacity per request.
\<close>

theorem leaky_bucket_rate:
  assumes "NewLeakyBucket (Fin c) (Fin r) opts = Inr lb" "is_f64 (Fin c)" "is_f64 (Fin r)" "c < 2 ^ 63"
    and "keeps_all_keys (lb_opts lb)" "\<not> blank key"
    and "requests LeakyBucket_Allow lb rs = Some (lb', outs)" "sorted (times_for key rs)"
    and "take n (drop m (times_for key rs)) = t # ts"
  shows "of_nat (count_allowed (take n (drop m (answers_for key rs outs))))
     \<le> c + r * seconds_exact (last (t # ts) - t) * (1 + 1 / 2 ^ 50) + of_nat (length (t # ts)) * (c / 2 ^ 50)"
proof -
  note N = NewLeakyBucket_inv [OF assms(1-3)]
  have cfg: "lb_capacity lb = Fin c" "lb_rate lb = Fin r" "is_f64 (Fin c)" "1 \<le> c" "0 < r" "c < 2 ^ 63" "lb_cfg lb"
    using N assms(2,4) by (auto simp: lb_cfg_def)
  have ans: "answers_for key rs outs = alone (leakAndDecide lb) (lb_fresh lb) None (times_for key rs)"
    using lb.alone_requests [of lb key rs] N assms(4-7) by auto
  obtain b where b: "take n (drop m (answers_for key rs outs)) = alone (leakAndDecide lb) (lb_fresh lb) (Some b) (t # ts)"
    "lb_ok lb t b"
    using lb.alone_stretch [OF cfg(7) assms(8,9)] unfolding ans by blast
  obtain x where x: "water b = Fin x" "is_f64 (Fin x)" "0 \<le> x" "x \<le> c" "lastLeak b \<le> t"
    using b(2) cfg(1) by (auto simp: lb_ok_def)
  have "sorted (t # ts)" using assms(8,9) by (metis sorted_wrt_drop sorted_wrt_take)
  then have "sorted (lastLeak b # t # ts)" using x(5) by auto
  note rate = leaky_alone_rate [OF cfg(1-6) x(1-4) this, of "lb_fresh lb"]
  have "0 \<le> leaked r x (Sub t (lastLeak b))" by (simp add: leaked_def)
  then show ?thesis using rate unfolding b(1) by (simp add: u64_def)
qed

subsection \<open>Witnesses\<close>

lemma small_leaky_bucket: "\<exists>lb. NewLeakyBucket (Fin 2) (Fin 1) [] = Inr lb \<and> keeps_all_keys (lb_opts lb)"
  by (auto simp: NewLeakyBucket_def isFinite_def buildOptions_Nil newStateStore_def keeps_all_keys_def)
    (simp_all add: defaultOptions_def)

theorem leaky_bucket_contract_witness:
  "\<exists>lb lb' outs. NewLeakyBucket (Fin 2) (Fin 1) [] = Inr lb
     \<and> requests LeakyBucket_Allow lb [(at_time 5, ''a''), (at_time 5, '' ''), (at_time 9, ''b'')] = Some (lb', outs)
     \<and> list_all2 (\<lambda>(env, key) (ret, evs). return_ok key ret)
         [(at_time 5, ''a''), (at_time 5, '' ''), (at_time 9, ''b'')] outs"
proof -
  obtain lb where lb: "NewLeakyBucket (Fin 2) (Fin 1) [] = Inr lb" using small_leaky_bucket by blast
  show ?thesis
    using leaky_bucket_contract [OF lb is_f64_2 is_f64_1, of "[(at_time 5, ''a''), (at_time 5, '' ''), (at_time 9, ''b'')]"] lb
    by auto
qed

theorem leaky_bucket_rate_witness:
  "\<exists>lb lb' outs. NewLeakyBucket (Fin 2) (Fin 1) [] = Inr lb
     \<and> requests LeakyBucket_Allow lb [(at_time 5, ''a''), (at_time 6, ''b''), (at_time 9, ''a'')] = Some (lb', outs)
     \<and> of_nat (count_allowed (take 2 (drop 0 (answers_for ''a''
           [(at_time 5, ''a''), (at_time 6, ''b''), (at_time 9, ''a'')] outs))))
       \<le> 2 + 1 * seconds_exact (last [5, 9] - 5) * (1 + 1 / 2 ^ 50) + of_nat (length [5, 9::time]) * (2 / 2 ^ 50 :: rat)"
proof -
  let ?rs = "[(at_time 5, ''a''), (at_time 6, ''b''), (at_time 9, ''a'')]"
  obtain lb where lb: "NewLeakyBucket (Fin 2) (Fin 1) [] = Inr lb" "keeps_all_keys (lb_opts lb)"
    using small_leaky_bucket by blast
  have "store_inv 0 (lb_store lb)" "create (lb_store lb) = lb_fresh lb" "st_opts (lb_store lb) = lb_opts lb"
    using NewLeakyBucket_inv [OF lb(1) is_f64_2 is_f64_1] by simp_all
  moreover have key: "\<not> blank ''a''" by code_simp
  ultimately obtain lb' outs where "requests LeakyBucket_Allow lb ?rs = Some (lb', outs)"
    using lb.alone_requests [of lb "''a''" ?rs] lb(2) by auto
  then show ?thesis
    using leaky_bucket_rate [OF lb(1) is_f64_2 is_f64_1 _ lb(2) key, of ?rs lb' outs 2 0 5 "[9]"] lb(1)
    by (simp add: numeral_2_eq_2)
qed

end
