(* ===== verification/Mem_SlidingWindow.thy ===== *)
theory Mem_SlidingWindow
  imports Mem_Limiter
begin

section \<open>\<open>memory/sliding_window_log.go\<close>\<close>

text \<open>
  The sliding window log: Go slices with their backing array, the binary search for the first
  live entry, trimming in place, the growth of the log, the constructor and \<open>Allow\<close>.
\<close>

subsection \<open>Slices\<close>

text \<open>
  A slice that starts at the front of its backing array: the array, whose length is the
  capacity, and the length. No other slice shares the array of a log.
\<close>

record 'a slice =
  sl_arr :: "'a list"
  sl_len :: nat

definition sl_cap :: "'a slice \<Rightarrow> nat" where
  "sl_cap s = length (sl_arr s)"

definition elems :: "'a slice \<Rightarrow> 'a list" where
  "elems s = take (sl_len s) (sl_arr s)"

text \<open>\<open>make([]T, n, c)\<close> with the zero value \<open>z\<close>.\<close>

definition sl_make :: "'a \<Rightarrow> nat \<Rightarrow> nat \<Rightarrow> 'a slice" where
  "sl_make z n c = \<lparr>sl_arr = replicate c z, sl_len = n\<rparr>"

text \<open>
  \<open>copy(s, src)\<close>: the first elements of \<open>src\<close> overwrite the front of the array; the result is
  the number of elements copied. Source and destination may overlap.
\<close>

definition sl_copy :: "'a slice \<Rightarrow> 'a list \<Rightarrow> 'a slice \<times> nat" where
  "sl_copy s src =
     (let n = min (sl_len s) (length src)
      in (s\<lparr>sl_arr := take n src @ drop n (sl_arr s)\<rparr>, n))"

text \<open>
  \<open>append(s, x)\<close>: in place while there is capacity. (The growth the runtime would choose
  otherwise is never used: \<open>appendWindowLog\<close> always leaves room.)
\<close>

definition sl_append :: "'a slice \<Rightarrow> 'a \<Rightarrow> 'a slice" where
  "sl_append s x =
     (if sl_len s < sl_cap s
      then \<lparr>sl_arr = (sl_arr s)[sl_len s := x], sl_len = Suc (sl_len s)\<rparr>
      else \<lparr>sl_arr = elems s @ [x], sl_len = Suc (sl_len s)\<rparr>)"

subsection \<open>The limiter\<close>

record windowState =
  logs :: "time slice"

record SlidingWindow =
  sw_limit :: int
  sw_window :: duration
  sw_opts :: options
  sw_store :: "windowState shardedStore"

text \<open>
  The search loop, with the bounds as the source has them. Reading outside the log would be a
  panic, here \<open>None\<close>.
\<close>

function searchValid :: "time list \<Rightarrow> time \<Rightarrow> int \<Rightarrow> int \<Rightarrow> int \<Rightarrow> int option" where
  "searchValid ls windowStart left right validIndex =
     (if left \<le> right
      then let mid = left + (right - left) div 2
           in if 0 \<le> mid \<and> mid < int (length ls)
              then if After (ls ! nat mid) windowStart
                   then searchValid ls windowStart left (mid - 1) mid
                   else searchValid ls windowStart (mid + 1) right validIndex
              else None
      else Some validIndex)"
  by pat_completeness auto
termination
  by (relation "measure (\<lambda>(ls, ws, left, right, v). nat (right - left + 1))") auto

declare searchValid.simps [simp del]

definition appendWindowLog :: "time slice \<Rightarrow> time \<Rightarrow> int \<Rightarrow> time slice" where
  "appendWindowLog ls now limit =
     (if sl_len ls < sl_cap ls then sl_append ls now
      else let c1 = int (sl_cap ls) * 2;
               c2 = (if c1 < 1 then 1 else c1);
               c3 = (if limit < c2 then limit else c2);
               newCap = (if c3 < int (sl_len ls) + 1 then int (sl_len ls) + 1 else c3);
               next = fst (sl_copy (sl_make 0 (sl_len ls) (nat newCap)) (elems ls))
           in sl_append next now)"

definition indexPanic :: go_error where
  "indexPanic = OtherError ''panic: index out of range''"

definition recordAndDecide :: "SlidingWindow \<Rightarrow> windowState callback" where
  "recordAndDecide sw state now =
     (let windowStart = Add now (- sw_window sw);
          n0 = sl_len (logs state)
      in case searchValid (elems (logs state)) windowStart 0 (int n0 - 1) (int n0) of
           None \<Rightarrow> (state, (zero_Result, Some indexPanic))
         | Some validIndex \<Rightarrow>
             let logs1 = (if 0 < validIndex
                          then let (s, n) = sl_copy (logs state) (drop (nat validIndex) (elems (logs state)))
                               in s\<lparr>sl_len := n\<rparr>
                          else logs state)
             in if int (sl_len logs1) < sw_limit sw
                then let logs2 = appendWindowLog logs1 now (sw_limit sw)
                     in (state\<lparr>logs := logs2\<rparr>,
                         (\<lparr>Allowed = True, Remaining = sw_limit sw - int (sl_len logs2), RetryAfter = 0\<rparr>, None))
                else (case elems logs1 of
                        [] \<Rightarrow> (state\<lparr>logs := logs1\<rparr>, (zero_Result, Some indexPanic))
                      | first # _ \<Rightarrow>
                          (state\<lparr>logs := logs1\<rparr>,
                           (\<lparr>Allowed = False, Remaining = 0,
                             RetryAfter = Sub (Add first (sw_window sw)) now\<rparr>, None))))"

definition NewSlidingWindow :: "int \<Rightarrow> duration \<Rightarrow> Option list \<Rightarrow> SlidingWindow panics" where
  "NewSlidingWindow limit window opts =
     (if limit \<le> 0 then Inl ''memory: sliding window limit must be > 0''
      else if window \<le> 0 then Inl ''memory: sliding window window must be > 0''
      else case buildOptions opts of
             Inl msg \<Rightarrow> Inl msg
           | Inr o1 \<Rightarrow>
               (case newStateStore o1 (\<lambda>now. \<lparr>logs = sl_make 0 0 0\<rparr>)
                       (Some (if sink o1 then [OnEvict TierSingle] else [])) of
                  Inl msg \<Rightarrow> Inl msg
                | Inr st \<Rightarrow>
                    Inr \<lparr>sw_limit = limit, sw_window = window, sw_opts = o1, sw_store = st\<rparr>))"

definition SlidingWindow_Allow :: "(SlidingWindow, mem_env) limiter" where
  "SlidingWindow_Allow sw env key =
     (case mem_validateKey key of
        Some err \<Rightarrow>
          Some (sw, (zero_Result, Some err), if sink (sw_opts sw) then [OnError TierSingle err] else [])
      | None \<Rightarrow>
          (case withState (env_iter env) (sw_store sw) key (env_now env) (recordAndDecide sw) of
             None \<Rightarrow> None
           | Some (st, (result, err)) \<Rightarrow>
               if sink (sw_opts sw)
               then let evs = (case err of
                                 Some er \<Rightarrow> [OnError TierSingle er]
                               | None \<Rightarrow> if Allowed result then [OnAllowed TierSingle result]
                                         else [OnRejected TierSingle result]);
                        keys = [SetKeys TierSingle (len st)];
                        (st', n, evicted) = drainEvictions st
                    in Some (sw\<lparr>sw_store := st'\<rparr>, (result, err), evs @ keys @ evicted)
               else Some (sw\<lparr>sw_store := st\<rparr>, (result, err), [])))"

subsection \<open>The search\<close>

text \<open>The first live position of a sorted log, by counting the dead entries.\<close>

definition dead :: "time \<Rightarrow> time list \<Rightarrow> nat" where
  "dead ws ls = length (takeWhile (\<lambda>x. x \<le> ws) ls)"

lemma dead_le: "dead ws ls \<le> length ls"
  by (simp add: dead_def length_takeWhile_le)

lemma dead_nth:
  assumes "sorted ls" "i < length ls"
  shows "After (ls ! i) ws \<longleftrightarrow> dead ws ls \<le> i"
proof (cases "i < dead ws ls")
  case True
  then have "ls ! i = takeWhile (\<lambda>x. x \<le> ws) ls ! i" by (simp add: dead_def takeWhile_nth)
  moreover have "takeWhile (\<lambda>x. x \<le> ws) ls ! i \<in> set (takeWhile (\<lambda>x. x \<le> ws) ls)"
    using True by (simp add: dead_def)
  ultimately have "ls ! i \<le> ws" using set_takeWhileD by metis
  then show ?thesis using True by (simp add: After_def)
next
  case False
  then have d: "dead ws ls < length ls" using assms(2) by simp
  then have "\<not> ls ! dead ws ls \<le> ws" unfolding dead_def by (rule nth_length_takeWhile)
  moreover have "ls ! dead ws ls \<le> ls ! i" using False assms by (intro sorted_nth_mono) auto
  ultimately show ?thesis using False by (simp add: After_def)
qed

lemma drop_dead: "sorted ls \<Longrightarrow> drop (dead ws ls) ls = filter (\<lambda>x. ws < x) ls"
proof (induction ls)
  case Nil
  then show ?case by (simp add: dead_def)
next
  case (Cons a ls)
  show ?case
  proof (cases "a \<le> ws")
    case True
    then show ?thesis using Cons by (simp add: dead_def)
  next
    case False
    then have "\<forall>x \<in> set ls. ws < x" using Cons.prems by auto
    then show ?thesis using False by (simp add: dead_def filter_id_conv)
  qed
qed

text \<open>Loop invariant of the search: the dead entries end between the bounds.\<close>

lemma searchValid_correct:
  assumes "sorted ls" "0 \<le> left" "right < int (length ls)" "left \<le> right + 1"
    and "left \<le> int (dead ws ls)" "int (dead ws ls) \<le> right + 1" "v = right + 1"
  shows "searchValid ls ws left right v = Some (int (dead ws ls))"
  using assms
proof (induction ls ws left right v rule: searchValid.induct)
  case (1 ls ws left right v)
  show ?case
  proof (cases "left \<le> right")
    case False
    then show ?thesis using 1 by (subst searchValid.simps) simp
  next
    case True
    let ?mid = "left + (right - left) div 2"
    have m: "left \<le> ?mid" "?mid \<le> right" using True by simp_all
    then have r: "0 \<le> ?mid" "?mid < int (length ls)" using "1.prems" by simp_all
    have nth: "After (ls ! nat ?mid) ws \<longleftrightarrow> int (dead ws ls) \<le> ?mid"
      using dead_nth [of ls "nat ?mid" ws] "1.prems"(1) r by (simp add: le_nat_iff nat_less_iff)
    show ?thesis
      using "1.IH" [OF True refl] "1.prems" True m r nth by (subst searchValid.simps) (auto simp: Let_def)
  qed
qed

lemma searchValid_dead:
  assumes "sorted ls"
  shows "searchValid ls ws 0 (int (length ls) - 1) (int (length ls)) = Some (int (dead ws ls))"
  using assms dead_le [of ws ls] by (intro searchValid_correct) simp_all

subsection \<open>Trimming and appending\<close>

definition slice_ok :: "'a slice \<Rightarrow> bool" where
  "slice_ok s \<longleftrightarrow> sl_len s \<le> sl_cap s"

lemma length_elems [simp]: "slice_ok s \<Longrightarrow> length (elems s) = sl_len s"
  by (simp add: slice_ok_def sl_cap_def elems_def)

lemma trim_slice:
  assumes "slice_ok s" "k \<le> sl_len s" "sl_copy s (drop k (elems s)) = (s', n)"
  shows "elems (s'\<lparr>sl_len := n\<rparr>) = drop k (elems s)" "slice_ok (s'\<lparr>sl_len := n\<rparr>)"
    "sl_cap (s'\<lparr>sl_len := n\<rparr>) = sl_cap s" "n = sl_len s - k"
  using assms by (auto simp: sl_copy_def Let_def elems_def slice_ok_def sl_cap_def)

lemma append_room:
  assumes "slice_ok s" "sl_len s < sl_cap s"
  shows "elems (sl_append s x) = elems s @ [x]" "slice_ok (sl_append s x)" "sl_cap (sl_append s x) = sl_cap s"
    "sl_len (sl_append s x) = Suc (sl_len s)"
  using assms by (simp_all add: sl_append_def elems_def slice_ok_def sl_cap_def take_Suc_conv_app_nth)

text \<open>\<open>appendWindowLog\<close> appends, and the capacity never passes the limit.\<close>

lemma appendWindowLog_ok:
  assumes "slice_ok s" "int (sl_len s) < limit" "int (sl_cap s) \<le> limit"
  shows "elems (appendWindowLog s now limit) = elems s @ [now]" "slice_ok (appendWindowLog s now limit)"
    "int (sl_cap (appendWindowLog s now limit)) \<le> limit" "sl_len (appendWindowLog s now limit) = Suc (sl_len s)"
proof -
  have "elems (appendWindowLog s now limit) = elems s @ [now] \<and> slice_ok (appendWindowLog s now limit)
    \<and> int (sl_cap (appendWindowLog s now limit)) \<le> limit \<and> sl_len (appendWindowLog s now limit) = Suc (sl_len s)"
  proof (cases "sl_len s < sl_cap s")
    case True
    then show ?thesis using append_room [OF assms(1) True] assms(3) by (simp add: appendWindowLog_def)
  next
    case False
    define c where "c = (let c1 = int (sl_cap s) * 2; c2 = (if c1 < 1 then 1 else c1);
        c3 = (if limit < c2 then limit else c2) in if c3 < int (sl_len s) + 1 then int (sl_len s) + 1 else c3)"
    define t where "t = fst (sl_copy (sl_make 0 (sl_len s) (nat c)) (elems s))"
    have c: "int (sl_len s) < c" "c \<le> limit" using assms(2) by (auto simp: c_def Let_def)
    have t: "elems t = elems s" "slice_ok t" "sl_cap t = nat c" "sl_len t = sl_len s"
      using assms(1) c(1) by (auto simp: t_def sl_copy_def sl_make_def elems_def slice_ok_def sl_cap_def Let_def min_def)
    have "appendWindowLog s now limit = sl_append t now"
      using False by (simp add: appendWindowLog_def Let_def c_def t_def)
    moreover have "sl_len t < sl_cap t" using t c(1) by simp
    ultimately show ?thesis using append_room [OF t(2)] t c by simp
  qed
  then show "elems (appendWindowLog s now limit) = elems s @ [now]" "slice_ok (appendWindowLog s now limit)"
    "int (sl_cap (appendWindowLog s now limit)) \<le> limit" "sl_len (appendWindowLog s now limit) = Suc (sl_len s)"
    by simp_all
qed

definition sw_cfg :: "SlidingWindow \<Rightarrow> bool" where
  "sw_cfg sw \<longleftrightarrow> 0 < sw_limit sw \<and> 0 < sw_window sw \<and> sw_window sw \<le> max_int64"

definition sw_fresh :: "SlidingWindow \<Rightarrow> time \<Rightarrow> windowState" where
  "sw_fresh sw now = \<lparr>logs = sl_make 0 0 0\<rparr>"

text \<open>
  The log is sorted, not in the future, and neither it nor its array is longer than the limit.
\<close>

definition sw_ok :: "SlidingWindow \<Rightarrow> time \<Rightarrow> windowState \<Rightarrow> bool" where
  "sw_ok sw t state \<longleftrightarrow>
     slice_ok (logs state) \<and> sorted (elems (logs state)) \<and> (\<forall>x \<in> set (elems (logs state)). x \<le> t)
     \<and> int (sl_len (logs state)) \<le> sw_limit sw \<and> int (sl_cap (logs state)) \<le> sw_limit sw"

definition live_log :: "SlidingWindow \<Rightarrow> windowState \<Rightarrow> time \<Rightarrow> time list" where
  "live_log sw state now = filter (\<lambda>x. now - sw_window sw < x) (elems (logs state))"

lemma recordAndDecide_live:
  assumes cfg: "sw_cfg sw" and ok: "sw_ok sw now state"
  defines "lv \<equiv> live_log sw state now"
  shows "\<exists>ls. slice_ok ls \<and> int (sl_cap ls) \<le> sw_limit sw
     \<and> (if int (length lv) < sw_limit sw
         then elems ls = lv @ [now] \<and> recordAndDecide sw state now =
           (\<lparr>logs = ls\<rparr>, (\<lparr>Allowed = True, Remaining = sw_limit sw - int (length lv) - 1, RetryAfter = 0\<rparr>, None))
         else elems ls = lv \<and> lv \<noteq> [] \<and> recordAndDecide sw state now =
           (\<lparr>logs = ls\<rparr>, (\<lparr>Allowed = False, Remaining = 0, RetryAfter = hd lv + sw_window sw - now\<rparr>, None)))"
proof -
  let ?L = "logs state" and ?ws = "now - sw_window sw"
  have L: "slice_ok ?L" "sorted (elems ?L)" "int (sl_cap ?L) \<le> sw_limit sw" using ok by (simp_all add: sw_ok_def)
  define k where "k = dead ?ws (elems ?L)"
  have k: "k \<le> sl_len ?L" using dead_le [of ?ws "elems ?L"] L(1) by (simp add: k_def)
  have lv: "lv = drop k (elems ?L)" using drop_dead [OF L(2)] by (simp add: lv_def live_log_def k_def)
  have sv: "searchValid (elems ?L) (Add now (- sw_window sw)) 0 (int (sl_len ?L) - 1) (int (sl_len ?L)) = Some (int k)"
    using searchValid_dead [OF L(2), of ?ws] L(1) by (simp add: Add_def k_def)
  define ls where "ls = (if 0 < int k then let (s, n) = sl_copy ?L (drop (nat (int k)) (elems ?L)) in s\<lparr>sl_len := n\<rparr> else ?L)"
  have ls: "elems ls = lv" "slice_ok ls" "sl_cap ls = sl_cap ?L" "sl_len ls = length lv"
  proof -
    obtain s n where sn: "sl_copy ?L (drop k (elems ?L)) = (s, n)" by (cases "sl_copy ?L (drop k (elems ?L))")
    show "elems ls = lv" "slice_ok ls" "sl_cap ls = sl_cap ?L" "sl_len ls = length lv"
      using trim_slice [OF L(1) k sn] L(1) sn by (auto simp: ls_def lv)
  qed
  have rd: "recordAndDecide sw state now =
      (if int (sl_len ls) < sw_limit sw
       then (state\<lparr>logs := appendWindowLog ls now (sw_limit sw)\<rparr>,
              (\<lparr>Allowed = True, Remaining = sw_limit sw - int (sl_len (appendWindowLog ls now (sw_limit sw))), RetryAfter = 0\<rparr>, None))
       else (case elems ls of
               [] \<Rightarrow> (state\<lparr>logs := ls\<rparr>, (zero_Result, Some indexPanic))
             | first # _ \<Rightarrow> (state\<lparr>logs := ls\<rparr>,
                 (\<lparr>Allowed = False, Remaining = 0, RetryAfter = Sub (Add first (sw_window sw)) now\<rparr>, None))))"
    unfolding recordAndDecide_def Let_def sv option.case ls_def ..
  show ?thesis
  proof (cases "int (length lv) < sw_limit sw")
    case True
    note a = appendWindowLog_ok [OF ls(2), of "sw_limit sw" now]
    show ?thesis using a True ls L(3) rd by (intro exI [of _ "appendWindowLog ls now (sw_limit sw)"]) simp
  next
    case False
    then obtain f fs where f: "lv = f # fs" using cfg by (cases lv) (auto simp: sw_cfg_def)
    have "f \<in> set lv" by (simp add: f)
    then have "now - sw_window sw < f" "f \<le> now"
      using ok unfolding lv_def live_log_def by (auto simp: sw_ok_def)
    then have "Sub (Add f (sw_window sw)) now = f + sw_window sw - now"
      using cfg by (simp add: Sub_def Add_def sat64_def sw_cfg_def max_int64_def min_int64_def)
    then show ?thesis using False ls L(3) rd f by (intro exI [of _ ls]) simp
  qed
qed

subsection \<open>The contract\<close>

lemma SlidingWindow_Allow_eq:
  "SlidingWindow_Allow sw env key =
     (case mem_allow (sw_opts sw) (recordAndDecide sw) (sw_store sw) env key of
        None \<Rightarrow> None | Some (st, out) \<Rightarrow> Some (sw\<lparr>sw_store := st\<rparr>, out))"
  by (simp add: SlidingWindow_Allow_def mem_allow_def sink_events_def Let_def case_prod_beta
      split: option.split)

lemma sw_store_fields:
  "sw_limit (sw\<lparr>sw_store := st\<rparr>) = sw_limit sw" "sw_window (sw\<lparr>sw_store := st\<rparr>) = sw_window sw"
  by simp_all

lemma sw_store_simps [simp]:
  "recordAndDecide (sw\<lparr>sw_store := st\<rparr>) = recordAndDecide sw"
  "sw_cfg (sw\<lparr>sw_store := st\<rparr>) = sw_cfg sw" "sw_ok (sw\<lparr>sw_store := st\<rparr>) = sw_ok sw"
  "sw_fresh (sw\<lparr>sw_store := st\<rparr>) = sw_fresh sw"
  by (rule ext | simp only: recordAndDecide_def sw_cfg_def sw_ok_def sw_fresh_def sw_store_fields)+

lemma live_log_ok:
  assumes "sw_ok sw now state"
  shows "sorted (live_log sw state now)" "\<forall>x \<in> set (live_log sw state now). now - sw_window sw < x \<and> x \<le> now"
    "int (length (live_log sw state now)) \<le> sw_limit sw"
proof -
  have "length (live_log sw state now) \<le> sl_len (logs state)"
    using assms length_filter_le [of _ "elems (logs state)"] by (simp add: live_log_def sw_ok_def)
  then show "int (length (live_log sw state now)) \<le> sw_limit sw" using assms by (simp add: sw_ok_def)
  show "sorted (live_log sw state now)" "\<forall>x \<in> set (live_log sw state now). now - sw_window sw < x \<and> x \<le> now"
    using assms by (auto simp: live_log_def sw_ok_def sorted_wrt_filter)
qed

lemma recordAndDecide_step:
  assumes "sw_cfg sw" "sw_ok sw now state"
  shows "sw_ok sw now (fst (recordAndDecide sw state now))" "snd (snd (recordAndDecide sw state now)) = None"
    "result_ok (fst (snd (recordAndDecide sw state now)))"
proof -
  let ?l = "live_log sw state now"
  note L = live_log_ok [OF assms(2)]
  obtain ls where ls: "slice_ok ls" "int (sl_cap ls) \<le> sw_limit sw"
    "if int (length ?l) < sw_limit sw
     then elems ls = ?l @ [now] \<and> recordAndDecide sw state now =
       (\<lparr>logs = ls\<rparr>, (\<lparr>Allowed = True, Remaining = sw_limit sw - int (length ?l) - 1, RetryAfter = 0\<rparr>, None))
     else elems ls = ?l \<and> ?l \<noteq> [] \<and> recordAndDecide sw state now =
       (\<lparr>logs = ls\<rparr>, (\<lparr>Allowed = False, Remaining = 0, RetryAfter = hd ?l + sw_window sw - now\<rparr>, None))"
    using recordAndDecide_live [OF assms] by blast
  have "sl_len ls = length (elems ls)" using ls(1) by simp
  then show "sw_ok sw now (fst (recordAndDecide sw state now))"
    using ls L by (cases "int (length ?l) < sw_limit sw") (auto simp: sw_ok_def sorted_append)
  show "snd (snd (recordAndDecide sw state now)) = None" using ls(3) by (auto split: if_splits)
  have "?l \<noteq> [] \<Longrightarrow> now - sw_window sw < hd ?l" using L(2) by (metis hd_in_set)
  then show "result_ok (fst (snd (recordAndDecide sw state now)))"
    using ls(3) by (auto simp: result_ok_def split: if_splits)
qed

interpretation sw: memory_limiter recordAndDecide sw_fresh sw_cfg sw_ok
  SlidingWindow_Allow sw_store "\<lambda>st sw. sw\<lparr>sw_store := st\<rparr>" sw_opts
proof unfold_locales
  fix sw t assume "sw_cfg sw"
  then show "sw_ok sw t (sw_fresh sw t)"
    by (simp add: sw_ok_def sw_fresh_def sw_cfg_def slice_ok_def sl_make_def elems_def sl_cap_def)
next
  fix sw t v and t' :: time assume "sw_ok sw t v" "t \<le> t'"
  then show "sw_ok sw t' v" by (auto simp: sw_ok_def)
qed (simp_all add: recordAndDecide_step SlidingWindow_Allow_eq)

subsection \<open>The reference: decisions from the full history\<close>

text \<open>
  What the limiter should do, from the list of all times at which it allowed a request: allow
  when fewer than \<open>limit\<close> of them are later than \<open>now - window\<close>; otherwise announce the time
  until the oldest of these leaves the window.
\<close>

definition in_window :: "duration \<Rightarrow> time \<Rightarrow> time list \<Rightarrow> time list" where
  "in_window window now hist = filter (\<lambda>x. now - window < x) hist"

fun window_reference :: "int \<Rightarrow> duration \<Rightarrow> time list \<Rightarrow> time list \<Rightarrow> Result list" where
  "window_reference limit window hist [] = []"
| "window_reference limit window hist (t # ts) =
     (let l = in_window window t hist
      in if int (length l) < limit
         then \<lparr>Allowed = True, Remaining = limit - int (length l) - 1, RetryAfter = 0\<rparr>
              # window_reference limit window (hist @ [t]) ts
         else \<lparr>Allowed = False, Remaining = 0, RetryAfter = hd l + window - t\<rparr>
              # window_reference limit window hist ts)"

lemma alone_reference:
  assumes cfg: "sw_cfg sw" and "sw_ok sw t0 state" "sorted (t0 # ts)"
    and "elems (logs state) = in_window (sw_window sw) t0 hist"
  shows "alone (recordAndDecide sw) fresh (Some state) ts
     = map (\<lambda>r. (r, None)) (window_reference (sw_limit sw) (sw_window sw) hist ts)"
  using assms(2-)
proof (induction ts arbitrary: t0 state hist)
  case Nil
  then show ?case by simp
next
  case (Cons t ts)
  let ?w = "sw_window sw"
  have t: "t0 \<le> t" "sorted (t # ts)" using Cons.prems(2) by auto
  have ok: "sw_ok sw t state" using Cons.prems(1) t(1) by (rule sw.ok_later)
  have l: "live_log sw state t = in_window ?w t hist"
    using t(1) unfolding live_log_def Cons.prems(3) in_window_def filter_filter by (intro filter_cong) auto
  obtain ls where ls: "if int (length (in_window ?w t hist)) < sw_limit sw
     then elems ls = in_window ?w t hist @ [t] \<and> recordAndDecide sw state t =
       (\<lparr>logs = ls\<rparr>, (\<lparr>Allowed = True, Remaining = sw_limit sw - int (length (in_window ?w t hist)) - 1, RetryAfter = 0\<rparr>, None))
     else elems ls = in_window ?w t hist \<and> recordAndDecide sw state t =
       (\<lparr>logs = ls\<rparr>, (\<lparr>Allowed = False, Remaining = 0, RetryAfter = hd (in_window ?w t hist) + ?w - t\<rparr>, None))"
    using recordAndDecide_live [OF cfg ok] unfolding l by (auto split: if_splits)
  have st: "fst (recordAndDecide sw state t) = \<lparr>logs = ls\<rparr>" using ls by (auto split: if_splits)
  have ok': "sw_ok sw t \<lparr>logs = ls\<rparr>" using recordAndDecide_step(1) [OF cfg ok] st by simp
  show ?case
  proof (cases "int (length (in_window ?w t hist)) < sw_limit sw")
    case True
    have "elems ls = in_window ?w t (hist @ [t])" using ls True cfg by (simp add: in_window_def sw_cfg_def)
    then show ?thesis using Cons.IH [OF ok' t(2), of "hist @ [t]"] ls True by (simp add: Let_def)
  next
    case False
    then show ?thesis using Cons.IH [OF ok' t(2), of hist] ls by (simp add: Let_def)
  qed
qed

text \<open>The times of the allowed requests.\<close>

fun allowed_times :: "time list \<Rightarrow> Result list \<Rightarrow> time list" where
  "allowed_times (t # ts) (r # rs) = (if Allowed r then [t] else []) @ allowed_times ts rs"
| "allowed_times _ _ = []"

lemma window_reference_bound:
  assumes "0 < limit" "0 < window" "sorted (hist @ ts)"
    and "\<And>e. int (length (filter (\<lambda>x. e - window < x \<and> x \<le> e) hist)) \<le> limit"
  shows "int (length (filter (\<lambda>x. e - window < x \<and> x \<le> e)
     (hist @ allowed_times ts (window_reference limit window hist ts)))) \<le> limit"
  using assms(3-)
proof (induction ts arbitrary: hist)
  case Nil
  then show ?case by simp
next
  case (Cons t ts)
  let ?l = "in_window window t hist"
  have h: "\<forall>x \<in> set hist. x \<le> t" and s1: "sorted ((hist @ [t]) @ ts)" and s2: "sorted (hist @ ts)"
    using Cons.prems(1) by (auto simp: sorted_append)
  show ?case
  proof (cases "int (length ?l) < limit")
    case True
    have "int (length (filter (\<lambda>x. e - window < x \<and> x \<le> e) (hist @ [t]))) \<le> limit" for e
    proof (cases "e < t \<or> t \<le> e - window")
      case True
      then have "filter (\<lambda>x. e - window < x \<and> x \<le> e) (hist @ [t]) = filter (\<lambda>x. e - window < x \<and> x \<le> e) hist" by auto
      then show ?thesis using Cons.prems(2) by simp
    next
      case False
      then have "length (filter (\<lambda>x. e - window < x \<and> x \<le> e) hist) \<le> length ?l"
        unfolding in_window_def by (intro length_filter_imp) auto
      then show ?thesis using \<open>int (length ?l) < limit\<close> by simp
    qed
    then show ?thesis using Cons.IH [OF s1] True by (simp add: Let_def)
  next
    case False
    then show ?thesis using Cons.IH [OF s2 Cons.prems(2)] by (simp add: Let_def)
  qed
qed

subsection \<open>Properties\<close>

lemma NewSlidingWindow_inv:
  assumes "NewSlidingWindow limit window opts = Inr sw" "window \<le> max_int64"
  shows "sw_limit sw = limit" "sw_window sw = window" "sw_cfg sw" "store_inv 0 (sw_store sw)"
    "create (sw_store sw) = sw_fresh sw" "st_opts (sw_store sw) = sw_opts sw" "st_value (sw_store sw) = Map.empty"
    "states_ok P (sw_store sw)"
proof -
  have fin: "0 < limit" "0 < window" using assms(1) by (auto simp: NewSlidingWindow_def split: if_splits)
  obtain o1 where o1: "buildOptions opts = Inr o1"
    using assms(1) by (auto simp: NewSlidingWindow_def split: if_splits sum.splits)
  note n = newStateStore_inv [OF buildOptions_valid [OF o1]]
  have sw: "sw = \<lparr>sw_limit = limit, sw_window = window, sw_opts = o1,
      sw_store = newShardedStore o1 (\<lambda>now. \<lparr>logs = sl_make 0 0 0\<rparr>)
                   (Some (if sink o1 then [OnEvict TierSingle] else []))\<rparr>"
    using assms(1) fin o1 by (auto simp: NewSlidingWindow_def n(1))
  show "sw_limit sw = limit" "sw_window sw = window" "store_inv 0 (sw_store sw)"
    "create (sw_store sw) = sw_fresh sw" "st_opts (sw_store sw) = sw_opts sw" "st_value (sw_store sw) = Map.empty"
    "states_ok P (sw_store sw)"
    by (simp_all add: sw sw_fresh_def fun_eq_iff states_ok_def n)
  show "sw_cfg sw" using fin assms(2) by (simp add: sw sw_cfg_def)
qed

lemma window_alone:
  assumes "NewSlidingWindow limit window opts = Inr sw" "window \<le> max_int64" "sorted ts"
  shows "alone (recordAndDecide sw) (sw_fresh sw) None ts = map (\<lambda>r. (r, None)) (window_reference limit window [] ts)"
proof (cases ts)
  case (Cons t us)
  note N = NewSlidingWindow_inv [OF assms(1,2)]
  have "alone (recordAndDecide sw) (sw_fresh sw) None ts = alone (recordAndDecide sw) (sw_fresh sw) (Some (sw_fresh sw t)) (t # us)"
    by (simp add: Cons)
  moreover have "sw_ok sw t (sw_fresh sw t)" using N(3) by (rule sw.fresh_ok)
  moreover have "elems (logs (sw_fresh sw t)) = in_window (sw_window sw) t []"
    by (simp add: sw_fresh_def elems_def sl_make_def in_window_def)
  ultimately show ?thesis
    using alone_reference [OF N(3), of t "sw_fresh sw t" "t # us" "[]"] assms(3) N(1,2) unfolding Cons by simp
qed simp

lemma window_alone_bound:
  assumes "NewSlidingWindow limit window opts = Inr sw" "window \<le> max_int64" "sorted ts"
  shows "int (length (filter (\<lambda>x. e - window < x \<and> x \<le> e)
     (allowed_times ts (map fst (alone (recordAndDecide sw) (sw_fresh sw) None ts))))) \<le> limit"
proof -
  have "0 < limit" "0 < window" using NewSlidingWindow_inv [OF assms(1,2)] by (auto simp: sw_cfg_def)
  then have "int (length (filter (\<lambda>x. e - window < x \<and> x \<le> e)
      ([] @ allowed_times ts (window_reference limit window [] ts)))) \<le> limit"
    using assms(3) by (intro window_reference_bound) simp_all
  then show ?thesis unfolding window_alone [OF assms] by (simp add: comp_def)
qed

lemma sliding_window_answers:
  assumes "NewSlidingWindow limit window opts = Inr sw" "window \<le> max_int64"
    and "keeps_all_keys (sw_opts sw)" "\<not> blank key" "requests SlidingWindow_Allow sw rs = Some (sw', outs)"
  shows "answers_for key rs outs = alone (recordAndDecide sw) (sw_fresh sw) None (times_for key rs)"
  using sw.alone_requests [of sw key rs] NewSlidingWindow_inv [OF assms(1,2)] assms(3-) by auto

lemma sliding_window_alone:
  assumes "NewSlidingWindow limit window opts = Inr sw" "window \<le> max_int64"
    and "keeps_all_keys (sw_opts sw)" "\<not> blank key" "sorted (times_for key rs)"
    and "requests SlidingWindow_Allow sw rs = Some (sw', outs)"
  shows "answers_for key rs outs = map (\<lambda>r. (r, None)) (window_reference limit window [] (times_for key rs))"
  using sliding_window_answers [OF assms(1-4,6)] window_alone [OF assms(1,2,5)] by simp

text \<open>
  Claim C1. The sliding window refines its specification: in any run through a new limiter
  without key limit and TTL, the answers for one key (with times that do not run backwards) are
  exactly those computed from the full history of the key's allowed requests, although the
  limiter keeps only a trimmed log, finds the live part by binary search and reuses the array.
\<close>

theorem sliding_window_exact:
  assumes "NewSlidingWindow limit window opts = Inr sw" "window \<le> max_int64"
    and "keeps_all_keys (sw_opts sw)" "\<not> blank key" "sorted (times_for key rs)"
    and "requests SlidingWindow_Allow sw rs = Some (sw', outs)"
  shows "answers_for key rs outs = map (\<lambda>r. (r, None)) (window_reference limit window [] (times_for key rs))"
  using assms by (rule sliding_window_alone)

text \<open>
  Claim C2. The sliding window never lets more than \<open>limit\<close> requests for a key through in any
  window: for every instant \<open>e\<close>, at most \<open>limit\<close> of the key's allowed requests have a time in
  \<open>(e - window, e]\<close>.
\<close>

theorem sliding_window_limit:
  assumes "NewSlidingWindow limit window opts = Inr sw" "window \<le> max_int64"
    and "keeps_all_keys (sw_opts sw)" "\<not> blank key" "sorted (times_for key rs)"
    and "requests SlidingWindow_Allow sw rs = Some (sw', outs)"
  shows "int (length (filter (\<lambda>x. e - window < x \<and> x \<le> e)
     (allowed_times (times_for key rs) (map fst (answers_for key rs outs))))) \<le> limit"
  unfolding sliding_window_answers [OF assms(1-4,6)] using assms(1,2,5) by (rule window_alone_bound)


text \<open>
  Claim C21. The wait announced by the sliding window is exact: after a denial with
  \<open>RetryAfter = d\<close>, a further request for the key is denied before \<open>d\<close> has passed, and allowed
  from then on.
\<close>

theorem sliding_window_retry:
  assumes "sw_cfg sw" "sw_ok sw t state" "recordAndDecide sw state t = (state', (res, err))" "\<not> Allowed res" "t \<le> t'"
  shows "Allowed (fst (snd (recordAndDecide sw state' t'))) \<longleftrightarrow> t + RetryAfter res \<le> t'"
proof -
  let ?l = "live_log sw state t"
  obtain ls where ls: "elems ls = ?l" "?l \<noteq> []" "\<not> int (length ?l) < sw_limit sw"
    "state' = \<lparr>logs = ls\<rparr>" "RetryAfter res = hd ?l + sw_window sw - t"
    using recordAndDecide_live [OF assms(1,2)] assms(3,4) by (auto split: if_splits)
  have "sw_ok sw t state'" using recordAndDecide_step(1) [OF assms(1,2)] assms(3) by simp
  then have ok': "sw_ok sw t' state'" using assms(5) by (rule sw.ok_later)
  have srt: "sorted ?l" and full: "int (length ?l) = sw_limit sw" using live_log_ok [OF assms(2)] ls(3) by simp_all
  have "Allowed (fst (snd (recordAndDecide sw state' t'))) \<longleftrightarrow> int (length (live_log sw state' t')) < sw_limit sw"
    using recordAndDecide_live [OF assms(1) ok'] by (auto split: if_splits)
  moreover have "live_log sw state' t' = filter (\<lambda>x. t' - sw_window sw < x) ?l"
    unfolding ls(4) live_log_def [of sw "\<lparr>logs = ls\<rparr>" t'] by (simp add: ls(1))
  moreover have "length (filter (\<lambda>x. t' - sw_window sw < x) ?l) < length ?l \<longleftrightarrow> hd ?l \<le> t' - sw_window sw"
  proof (cases "hd ?l \<le> t' - sw_window sw")
    case True
    have "hd ?l \<in> set ?l" using ls(2) by (rule hd_in_set)
    then have "length (filter (\<lambda>x. t' - sw_window sw < x) ?l) < length ?l"
      using True by (intro length_filter_less) auto
    then show ?thesis using True by simp
  next
    case False
    then have "\<forall>x \<in> set ?l. t' - sw_window sw < x" using srt ls(2) by (cases ?l) auto
    then show ?thesis using False by (simp add: filter_id_conv)
  qed
  ultimately show ?thesis using full by (auto simp: ls(5))
qed

subsection \<open>Witnesses\<close>

lemma small_window: "\<exists>sw. NewSlidingWindow 2 10 [] = Inr sw \<and> keeps_all_keys (sw_opts sw)"
  by (auto simp: NewSlidingWindow_def buildOptions_Nil newStateStore_def keeps_all_keys_def)
    (simp_all add: defaultOptions_def)

abbreviation window_demo :: "(mem_env \<times> string) list" where
  "window_demo \<equiv> [(at_time 1, ''a''), (at_time 2, ''b''), (at_time 3, ''a''), (at_time 4, ''a''), (at_time 11, ''a'')]"

lemma window_demo_runs:
  "\<exists>sw sw' outs. NewSlidingWindow 2 10 [] = Inr sw \<and> keeps_all_keys (sw_opts sw)
     \<and> requests SlidingWindow_Allow sw window_demo = Some (sw', outs)"
proof -
  obtain sw where sw: "NewSlidingWindow 2 10 [] = Inr sw" "keeps_all_keys (sw_opts sw)" using small_window by blast
  have N: "sw_cfg sw" "store_inv 0 (sw_store sw)" "create (sw_store sw) = sw_fresh sw"
    "states_ok (sw_ok sw 1) (sw_store sw)"
    using NewSlidingWindow_inv [OF sw(1)] by (simp_all add: max_int64_def)
  then show ?thesis using sw.requests_contract [of sw window_demo] sw by auto
qed

lemma key_a: "\<not> blank ''a''"
  by code_simp

theorem sliding_window_exact_witness:
  "\<exists>sw sw' outs. requests SlidingWindow_Allow sw window_demo = Some (sw', outs)
     \<and> answers_for ''a'' window_demo outs
       = [(\<lparr>Allowed = True, Remaining = 1, RetryAfter = 0\<rparr>, None), (\<lparr>Allowed = True, Remaining = 0, RetryAfter = 0\<rparr>, None),
          (\<lparr>Allowed = False, Remaining = 0, RetryAfter = 7\<rparr>, None), (\<lparr>Allowed = True, Remaining = 0, RetryAfter = 0\<rparr>, None)]"
proof -
  obtain sw sw' outs where r: "NewSlidingWindow 2 10 [] = Inr sw" "keeps_all_keys (sw_opts sw)"
    "requests SlidingWindow_Allow sw window_demo = Some (sw', outs)" using window_demo_runs by blast
  show ?thesis
    using sliding_window_exact [OF r(1) _ r(2) key_a _ r(3)] r(3)
    by (auto simp: max_int64_def in_window_def Let_def)
qed

theorem sliding_window_limit_witness:
  "\<exists>sw sw' outs. requests SlidingWindow_Allow sw window_demo = Some (sw', outs)
     \<and> int (length (filter (\<lambda>x. 11 - 10 < x \<and> x \<le> 11)
         (allowed_times (times_for ''a'' window_demo) (map fst (answers_for ''a'' window_demo outs))))) \<le> 2"
proof -
  obtain sw sw' outs where r: "NewSlidingWindow 2 10 [] = Inr sw" "keeps_all_keys (sw_opts sw)"
    "requests SlidingWindow_Allow sw window_demo = Some (sw', outs)" using window_demo_runs by blast
  show ?thesis
    using sliding_window_limit [OF r(1) _ r(2) key_a _ r(3), of 11] r(3) by (auto simp: max_int64_def)
qed


theorem sliding_window_retry_witness:
  "let sw = \<lparr>sw_limit = 1, sw_window = 10, sw_opts = defaultOptions, sw_store = newShardedStore defaultOptions (\<lambda>t. \<lparr>logs = sl_make 0 0 0\<rparr>) None\<rparr>;
       state = \<lparr>logs = \<lparr>sl_arr = [3], sl_len = 1\<rparr>\<rparr>
   in recordAndDecide sw state 5 = (state, (\<lparr>Allowed = False, Remaining = 0, RetryAfter = 8\<rparr>, None))
      \<and> Allowed (fst (snd (recordAndDecide sw state 13))) \<and> \<not> Allowed (fst (snd (recordAndDecide sw state 12)))"
proof -
  define sw where "sw = \<lparr>sw_limit = 1, sw_window = 10, sw_opts = defaultOptions, sw_store = newShardedStore defaultOptions (\<lambda>t. \<lparr>logs = sl_make 0 0 0\<rparr>) None\<rparr>"
  have step: "recordAndDecide sw \<lparr>logs = \<lparr>sl_arr = [3], sl_len = 1\<rparr>\<rparr> 5
      = (\<lparr>logs = \<lparr>sl_arr = [3], sl_len = 1\<rparr>\<rparr>, (\<lparr>Allowed = False, Remaining = 0, RetryAfter = 8\<rparr>, None))"
    unfolding sw_def by code_simp
  have "sw_cfg sw" "sw_ok sw 5 \<lparr>logs = \<lparr>sl_arr = [3], sl_len = 1\<rparr>\<rparr>"
    by (simp_all add: sw_cfg_def sw_ok_def sw_def slice_ok_def sl_cap_def elems_def max_int64_def)
  from sliding_window_retry [OF this step] show ?thesis
    unfolding sw_def [symmetric] Let_def by (simp add: step [simplified])
qed

text \<open>
  Requests whose clock readings reach the log out of order, as when two calls read the clock
  before they take the shard lock in the other order. With the readings 10, 8, 11, 19, 19, a
  limit of 3 and a window of 10, all five are allowed: the binary search on the unsorted log
  \<open>[10, 8, 11]\<close> drops the live entry 10, and four allowed readings lie in \<open>(9, 19]\<close>.
\<close>

theorem sliding_window_out_of_order:
  "let sw = \<lparr>sw_limit = 3, sw_window = 10, sw_opts = defaultOptions, sw_store = newShardedStore defaultOptions (\<lambda>t. \<lparr>logs = sl_make 0 0 0\<rparr>) None\<rparr>
   in map (Allowed \<circ> fst) (alone (recordAndDecide sw) (sw_fresh sw) None [10, 8, 11, 19, 19])
      = [True, True, True, True, True]"
  by code_simp

end
