(* ===== verification/Contract_Suite.thy ===== *)
theory Contract_Suite
  imports Mem_TokenBucket Mem_LeakyBucket Mem_SlidingWindow
begin

section \<open>\<open>internal/contracttest/contracttest.go\<close>\<close>

text \<open>
  The behaviour tests that every limiter of the repository is put through, as functions of a
  limiter: a test passes, fails with the message of its \<open>t.Fatal\<close> or \<open>t.Fatalf\<close> (the format
  without its arguments), or hangs (\<open>None\<close>) when a call does not return. And the proof that the
  in-memory limiters pass them.
\<close>

subsection \<open>Values of the interface\<close>

text \<open>
  A value of the interface \<open>Limiter\<close> is an object with a hidden state, known by its method: the
  call gives the answer and the object after it. Limiters of different types can so stand in one
  list of cases.
\<close>

codatatype 'e Limiter_value =
  Limiter_value (call_Allow: "'e \<Rightarrow> string \<Rightarrow> ('e Limiter_value \<times> go_return \<times> event list) option")

primcorec limiter_value :: "('s, 'e) limiter \<Rightarrow> 's \<Rightarrow> 'e Limiter_value" where
  "call_Allow (limiter_value allow s) = (\<lambda>e key. map_option (map_prod (limiter_value allow) id) (allow s e key))"


subsection \<open>The tests\<close>

datatype test_result = Pass | Fatal string

text \<open>
  What the environment decides of a run of the tests: the readings of the clock for the calls of
  the test's own goroutine, and for the two tests with goroutines the order in which their calls
  take effect, as worker numbers (a permutation of \<open>[0..<workers]\<close>; nothing below needs that), and
  the environment of each worker.
\<close>

record 'e test_env =
  first_call :: 'e
  second_call :: 'e
  same_order :: "nat list"
  same_env :: "nat \<Rightarrow> 'e"
  multi_order :: "nat list"
  multi_env :: "nat \<Rightarrow> 'e"
  empty_call :: 'e
  blank_call :: 'e


definition runResultBoundaryTest :: "'e test_env \<Rightarrow> 'e Limiter_value \<Rightarrow> ('e Limiter_value \<times> test_result) option" where
  "runResultBoundaryTest te l =
     (case call_Allow l (first_call te) ''user:1'' of
        None \<Rightarrow> None
      | Some (l1, (allowed, err), _) \<Rightarrow>
          if err \<noteq> None then Some (l1, Fatal ''unexpected error on first allow: %v'')
          else if \<not> Allowed allowed then Some (l1, Fatal ''expected first request to be allowed'')
          else if Remaining allowed < 0 then Some (l1, Fatal ''expected non-negative remaining on allow, got %d'')
          else if RetryAfter allowed \<noteq> 0 then Some (l1, Fatal ''expected retryAfter=0 on allow, got %v'')
          else
            (case call_Allow l1 (second_call te) ''user:1'' of
               None \<Rightarrow> None
             | Some (l2, (denied, err), _) \<Rightarrow>
                 Some (l2,
                   if err \<noteq> None then Fatal ''unexpected error on second allow: %v''
                   else if Allowed denied then Fatal ''expected second request to be denied''
                   else if Remaining denied \<noteq> 0 then Fatal ''expected remaining=0 on deny, got %d''
                   else if RetryAfter denied < 0 then Fatal ''expected non-negative retryAfter on deny, got %v''
                   else if RetryAfter denied = 0 then Fatal ''expected positive retryAfter on deny''
                   else Pass)))"

text \<open>The goroutines of a test, each one call, in the order in which the calls take effect.\<close>

fun run_workers ::
  "('e \<times> string) list \<Rightarrow> 'e Limiter_value \<Rightarrow> ('e Limiter_value \<times> go_return list) option" where
  "run_workers [] l = Some (l, [])"
| "run_workers ((e, key) # calls) l =
     (case call_Allow l e key of
        None \<Rightarrow> None
      | Some (l1, out, _) \<Rightarrow>
          (case run_workers calls l1 of None \<Rightarrow> None | Some (l2, outs) \<Rightarrow> Some (l2, out # outs)))"

text \<open>The loop over the channel of results, the same in both tests.\<close>

fun check_results :: "go_return list \<Rightarrow> test_result" where
  "check_results [] = Pass"
| "check_results ((result, err) # outs) =
     (if err \<noteq> None then Fatal ''unexpected error during concurrent allow: %v''
      else if Remaining result < 0 then Fatal ''expected non-negative remaining, got %d''
      else if RetryAfter result < 0 then Fatal ''expected non-negative retryAfter, got %v''
      else check_results outs)"

definition runConcurrentSameKeyTest :: "'e test_env \<Rightarrow> 'e Limiter_value \<Rightarrow> ('e Limiter_value \<times> test_result) option" where
  "runConcurrentSameKeyTest te l =
     map_option (map_prod id check_results)
       (run_workers (map (\<lambda>i. (same_env te i, ''user:shared'')) (same_order te)) l)"

definition worker_key :: "nat \<Rightarrow> string" where
  "worker_key i = ''user:'' @ [char_of (48 + i mod 4)]"

definition runConcurrentMultipleKeysTest :: "'e test_env \<Rightarrow> 'e Limiter_value \<Rightarrow> ('e Limiter_value \<times> test_result) option" where
  "runConcurrentMultipleKeysTest te l =
     map_option (map_prod id check_results)
       (run_workers (map (\<lambda>i. (multi_env te i, worker_key i)) (multi_order te)) l)"

definition runBlankKeyErrorTest :: "'e test_env \<Rightarrow> 'e Limiter_value \<Rightarrow> ('e Limiter_value \<times> test_result) option" where
  "runBlankKeyErrorTest te l =
     (case call_Allow l (empty_call te) '''' of
        None \<Rightarrow> None
      | Some (l1, (_, err), _) \<Rightarrow>
          if err = None then Some (l1, Fatal ''expected error for empty key'')
          else
            (case call_Allow l1 (blank_call te) ''   '' of
               None \<Rightarrow> None
             | Some (l2, (_, err), _) \<Rightarrow>
                 Some (l2, if err = None then Fatal ''expected error for blank key'' else Pass)))"

text \<open>\<open>t.Fatal\<close> ends the subtest; the other cases run all the same.\<close>

fun run_tests ::
  "('e Limiter_value \<Rightarrow> ('e Limiter_value \<times> test_result) option) list \<Rightarrow> 'e Limiter_value \<Rightarrow> test_result option" where
  "run_tests [] l = Some Pass"
| "run_tests (test # tests) l =
     (case test l of
        None \<Rightarrow> None
      | Some (l1, Fatal msg) \<Rightarrow> Some (Fatal msg)
      | Some (l1, Pass) \<Rightarrow> run_tests tests l1)"


subsection \<open>Tests as runs of requests\<close>

definition same_calls :: "'e test_env \<Rightarrow> ('e \<times> string) list" where
  "same_calls te = map (\<lambda>i. (same_env te i, ''user:shared'')) (same_order te)"

definition multi_calls :: "'e test_env \<Rightarrow> ('e \<times> string) list" where
  "multi_calls te = map (\<lambda>i. (multi_env te i, worker_key i)) (multi_order te)"

text \<open>The order of the environments along a run of the four tests.\<close>

definition test_envs :: "'e test_env \<Rightarrow> 'e list" where
  "test_envs te = [first_call te, second_call te] @ map fst (same_calls te) @ map fst (multi_calls te)
     @ [empty_call te, blank_call te]"

lemma run_workers_requests:
  "run_workers calls (limiter_value allow s)
     = map_option (\<lambda>(s', outs). (limiter_value allow s', map fst outs)) (requests allow s calls)"
  by (induction calls arbitrary: s) (auto split: option.splits)

lemma test_keys:
  "\<not> blank ''user:1''" "\<not> blank ''user:shared''" "\<not> blank (worker_key i)" "blank ''''" "blank ''   ''"
proof -
  show "\<not> blank ''user:1''" "\<not> blank ''user:shared''" "blank ''''" "blank ''   ''" by code_simp+
  have "i mod 4 < 4" by simp
  then consider "i mod 4 = 0" | "i mod 4 = 1" | "i mod 4 = 2" | "i mod 4 = 3" by linarith
  then show "\<not> blank (worker_key i)"
  proof cases
    case 1
    show ?thesis unfolding worker_key_def 1 by code_simp
  next
    case 2
    show ?thesis unfolding worker_key_def 2 by code_simp
  next
    case 3
    show ?thesis unfolding worker_key_def 3 by code_simp
  next
    case 4
    show ?thesis unfolding worker_key_def 4 by code_simp
  qed
qed

subsection \<open>Limiters that pass\<close>

text \<open>A limiter without errors of its own: only blank keys are refused with an error.\<close>

locale total_limiter = limiter_contract +
  assumes no_error: "invar s \<Longrightarrow> ready s e \<Longrightarrow> \<not> blank key \<Longrightarrow> allow s e key = Some (s', ret, evs) \<Longrightarrow> snd ret = None"
begin

lemma worker_stage:
  assumes "invar s" "ready s e0" "successively later (e0 # map fst calls)" "\<And>e key. (e, key) \<in> set calls \<Longrightarrow> \<not> blank key"
  shows "\<exists>s' outs. requests allow s calls = Some (s', outs) \<and> invar s' \<and> ready s' (last (e0 # map fst calls))
     \<and> check_results (map fst outs) = Pass"
  using assms
proof (induction calls arbitrary: s e0)
  case Nil
  then show ?case by simp
next
  case (Cons c calls)
  obtain e key where c: "c = (e, key)" by (cases c)
  have ready: "ready s e" using ready_later [OF Cons.prems(1,2)] Cons.prems(3) by (simp add: c)
  obtain s1 ret evs where a: "allow s e key = Some (s1, ret, evs)"
    using returns [OF Cons.prems(1) ready, of key] by (metis prod_cases3)
  have b: "\<not> blank key" using Cons.prems(4) [of e key] by (simp add: c)
  have ret: "snd ret = None" "result_ok (fst ret)"
    using no_error [OF Cons.prems(1) ready b a] well_formed [OF Cons.prems(1) ready a]
    by (cases ret; simp add: return_ok_def)+
  obtain s' outs where "requests allow s1 calls = Some (s', outs)" "invar s'" "ready s' (last (e # map fst calls))"
      "check_results (map fst outs) = Pass"
    using Cons.IH [OF keeps [OF Cons.prems(1) ready a] stays_ready [OF Cons.prems(1) ready a]] Cons.prems(3,4)
    by (auto simp: c)
  then show ?case using a ret by (cases ret) (auto simp: c result_ok_def split: if_splits)
qed

lemma boundary_passes:
  assumes "invar s" "ready s (first_call te)" "later (first_call te) (second_call te)"
    and "allow s (first_call te) ''user:1'' = Some (s1, (r1, x1), evs1)" "Allowed r1"
    and "allow s1 (second_call te) ''user:1'' = Some (s2, (r2, x2), evs2)" "\<not> Allowed r2" "RetryAfter r2 \<noteq> 0"
  shows "runResultBoundaryTest te (limiter_value allow s) = Some (limiter_value allow s2, Pass)"
    "invar s2" "ready s2 (second_call te)"
proof -
  note k1 = keeps [OF assms(1,2,4)] and y1 = stays_ready [OF assms(1,2,4)]
  note y2 = ready_later [OF k1 y1 assms(3)]
  show "invar s2" "ready s2 (second_call te)" using keeps [OF k1 y2 assms(6)] stays_ready [OF k1 y2 assms(6)] .
  have x: "x1 = None" "x2 = None"
    using no_error [OF assms(1,2) test_keys(1) assms(4)] no_error [OF k1 y2 test_keys(1) assms(6)] by simp_all
  then have "result_ok r1" "result_ok r2"
    using well_formed [OF assms(1,2,4)] well_formed [OF k1 y2 assms(6)] by (simp_all add: return_ok_def)
  then show "runResultBoundaryTest te (limiter_value allow s) = Some (limiter_value allow s2, Pass)"
    using x assms(4-8) by (auto simp: runResultBoundaryTest_def result_ok_def)
qed

lemma blank_passes:
  assumes "invar s" "ready s (empty_call te)" "later (empty_call te) (blank_call te)"
  shows "\<exists>l. runBlankKeyErrorTest te (limiter_value allow s) = Some (l, Pass)"
proof -
  obtain s1 r1 x1 evs1 where a1: "allow s (empty_call te) '''' = Some (s1, (r1, x1), evs1)"
    using returns [OF assms(1,2)] by (metis surj_pair)
  note k1 = keeps [OF assms(1,2) a1]
  note y1 = ready_later [OF k1 stays_ready [OF assms(1,2) a1] assms(3)]
  obtain s2 r2 x2 evs2 where a2: "allow s1 (blank_call te) ''   '' = Some (s2, (r2, x2), evs2)"
    using returns [OF k1 y1] by (metis surj_pair)
  have "x1 \<noteq> None" "x2 \<noteq> None"
    using well_formed [OF assms(1,2) a1] well_formed [OF k1 y1 a2] test_keys(4,5)
    by (auto simp: return_ok_def split: option.splits)
  then show ?thesis using a1 a2 by (auto simp: runBlankKeyErrorTest_def)
qed

lemma suite_passes:
  assumes "invar s" "ready s (first_call te)" "successively later (test_envs te)"
    and "allow s (first_call te) ''user:1'' = Some (s1, (r1, x1), evs1)" "Allowed r1"
    and "allow s1 (second_call te) ''user:1'' = Some (s2, (r2, x2), evs2)" "\<not> Allowed r2" "RetryAfter r2 \<noteq> 0"
  shows "run_tests [runResultBoundaryTest te, runConcurrentSameKeyTest te, runConcurrentMultipleKeysTest te,
      runBlankKeyErrorTest te] (limiter_value allow s) = Some Pass"
proof -
  let ?same = "map fst (same_calls te)" and ?multi = "map fst (multi_calls te)"
  have ord: "later (first_call te) (second_call te)" "successively later (second_call te # ?same)"
      "successively later (last (second_call te # ?same) # ?multi)"
      "later (last (last (second_call te # ?same) # ?multi)) (empty_call te)" "later (empty_call te) (blank_call te)"
    using assms(3) unfolding test_envs_def
    by (auto simp: successively_append_iff successively_Cons hd_append split: if_splits)
  note b = boundary_passes [OF assms(1,2) ord(1) assms(4-8)]
  obtain s3 outs3 where same: "requests allow s2 (same_calls te) = Some (s3, outs3)" "invar s3"
      "ready s3 (last (second_call te # ?same))" "check_results (map fst outs3) = Pass"
    using worker_stage [OF b(2,3) ord(2)] test_keys(2) by (auto simp: same_calls_def)
  obtain s4 outs4 where multi: "requests allow s3 (multi_calls te) = Some (s4, outs4)" "invar s4"
      "ready s4 (last (last (second_call te # ?same) # ?multi))" "check_results (map fst outs4) = Pass"
    using worker_stage [OF same(2,3) ord(3)] test_keys(3) by (auto simp: multi_calls_def)
  obtain l where blank: "runBlankKeyErrorTest te (limiter_value allow s4) = Some (l, Pass)"
    using blank_passes [OF multi(2) ready_later [OF multi(2,3) ord(4)] ord(5)] by blast
  show ?thesis
    using b(1) same(1,4) multi(1,4) blank
    by (simp add: runConcurrentSameKeyTest_def runConcurrentMultipleKeysTest_def run_workers_requests
        flip: same_calls_def multi_calls_def)
qed

end

subsection \<open>The in-memory limiters\<close>

text \<open>Without a key limit a limiter over the sharded store has no errors of its own.\<close>

sublocale memory_limiter \<subseteq> unlimited: total_limiter allow
  "\<lambda>l. cfg l \<and> store_inv 0 (store_of l) \<and> create (store_of l) = fresh l \<and> maxKeys (st_opts (store_of l)) = 0"
  "\<lambda>l env. states_ok (ok l (env_now env)) (store_of l)"
  mem_later
proof unfold_locales
  fix l and env :: mem_env and key
  assume inv: "cfg l \<and> store_inv 0 (store_of l) \<and> create (store_of l) = fresh l \<and> maxKeys (st_opts (store_of l)) = 0"
    and ready: "states_ok (ok l (env_now env)) (store_of l)"
  show "\<exists>out. allow l env key = Some out" using returns inv ready by blast
  fix l' ret evs
  assume a: "allow l env key = Some (l', ret, evs)"
  then obtain st' where m: "mem_allow (opts_of l) (decide l) (store_of l) env key = Some (st', ret, evs)"
    "l' = with_store st' l" by (rule allow_cases)
  note step = allow_step [OF _ _ _ ready m(1)]
  show "cfg l' \<and> store_inv 0 (store_of l') \<and> create (store_of l') = fresh l' \<and> maxKeys (st_opts (store_of l')) = 0"
    using step inv by (simp add: m(2) get_put same_config)
  show "states_ok (ok l' (env_now env)) (store_of l')" "return_ok key ret"
    using stays_ready [OF _ ready a] well_formed [OF _ ready a] inv by blast+
  show "snd ret = None" if b: "\<not> blank key"
  proof -
    obtain st1 where w: "withState (env_iter env) (store_of l) key (env_now env) (decide l) = Some (st1, ret)"
      using mem_allow_cases [OF b m(1)] by metis
    have "ret = snd (decide l (current (store_of l) key (env_now env)) (env_now env))"
      using withState_ok [of "store_of l" "env_iter env" key "env_now env" "decide l"] inv w by (auto simp: full_reject_def)
    moreover have "ok l (env_now env) (current (store_of l) key (env_now env))"
      using ready fresh_ok [of l "env_now env"] inv
      by (auto simp: current_def states_ok_def st_value_def split: option.splits)
    ultimately show ?thesis using no_error inv by simp
  qed
next
  fix l and env env' :: mem_env
  assume "states_ok (ok l (env_now env)) (store_of l)" "mem_later env env'"
  then show "states_ok (ok l (env_now env')) (store_of l)" by (rule states_later)
next
  fix key l and env :: mem_env and l' ret evs
  assume "blank key" "allow l env key = Some (l', ret, evs)"
  then show "l' = l" by (rule blank_inert)
qed

context memory_limiter
begin

lemma new_passes:
  assumes "cfg l" "store_inv 0 (store_of l)" "create (store_of l) = fresh l" "keeps_all_keys (st_opts (store_of l))"
    and "st_value (store_of l) = Map.empty" "states_ok (ok l (env_now (first_call te))) (store_of l)"
    and "successively mem_later (test_envs te)"
    and d: "alone (decide l) (fresh l) None [env_now (first_call te), env_now (second_call te)] = [r1, r2]"
      "Allowed (fst r1)" "\<not> Allowed (fst r2)" "RetryAfter (fst r2) \<noteq> 0"
  shows "run_tests [runResultBoundaryTest te, runConcurrentSameKeyTest te, runConcurrentMultipleKeysTest te,
      runBlankKeyErrorTest te] (limiter_value allow l) = Some Pass"
proof -
  let ?rs = "[(first_call te, ''user:1''), (second_call te, ''user:1'')]"
  obtain l2 outs where run: "requests allow l ?rs = Some (l2, outs)" "answers_for ''user:1'' ?rs outs = [r1, r2]"
    using alone_requests [OF assms(2-4) test_keys(1), of ?rs] d(1) by (auto simp: assms(5))
  then obtain l1 evs1 evs2 where "allow l (first_call te) ''user:1'' = Some (l1, r1, evs1)"
      "allow l1 (second_call te) ''user:1'' = Some (l2, r2, evs2)"
    by (auto split: option.splits)
  then show ?thesis
    using unlimited.suite_passes [of l te l1 "fst r1" "snd r1" evs1 l2 "fst r2" "snd r2" evs2] assms(1-7) d(2-4)
    by (simp add: keeps_all_keys_def)
qed

end






subsection \<open>Property\<close>





subsection \<open>Witness\<close>




end
