(* ===== verification/Redis_Lua.thy ===== *)
theory Redis_Lua
  imports Kaka_Core
begin

section \<open>\<open>redis/scripts/*.lua\<close>\<close>

text \<open>
  The three Lua scripts. A Lua number is a double, and \<open>nil\<close> is \<open>None\<close>. A script is a
  computation on the state of the Redis server that ends with a value or with an error; the
  writes made before an error stay. The server is not part of the sources: its commands are the
  fields of a record that every script takes as an argument. \<open>numberArg\<close> is the string it makes
  of a number that a script passes to \<open>redis.call\<close>, \<open>replyInt\<close> the integer it makes of a number
  that a script returns.
\<close>

type_synonym ('r, 'a) lua = "'r \<Rightarrow> 'r \<times> (string + 'a)"

definition lua_return :: "'a \<Rightarrow> ('r, 'a) lua" where
  "lua_return a = (\<lambda>r. (r, Inr a))"

definition lua_error :: "string \<Rightarrow> ('r, 'a) lua" where
  "lua_error msg = (\<lambda>r. (r, Inl msg))"

definition lua_bind :: "('r, 'a) lua \<Rightarrow> ('a \<Rightarrow> ('r, 'b) lua) \<Rightarrow> ('r, 'b) lua" where
  "lua_bind m f = (\<lambda>r. case m r of (r', Inl msg) \<Rightarrow> (r', Inl msg) | (r', Inr a) \<Rightarrow> f a r')"

record 'r redis =
  TIME :: "('r, string list) lua"
  HMGET :: "string \<Rightarrow> string list \<Rightarrow> ('r, string option list) lua"
  HSET :: "string \<Rightarrow> (string \<times> string) list \<Rightarrow> ('r, int) lua"
  PEXPIRE :: "string \<Rightarrow> string \<Rightarrow> ('r, int) lua"
  ZREMRANGEBYSCORE :: "string \<Rightarrow> string \<Rightarrow> string \<Rightarrow> ('r, int) lua"
  ZCARD :: "string \<Rightarrow> ('r, int) lua"
  ZADD :: "string \<Rightarrow> string \<Rightarrow> string \<Rightarrow> ('r, int) lua"
  ZRANGE_WITHSCORES :: "string \<Rightarrow> string \<Rightarrow> string \<Rightarrow> ('r, string list) lua"
  numberArg :: "float64 \<Rightarrow> string"
  replyInt :: "float64 \<Rightarrow> int64"

datatype reply = RInt int64 | RStr string | RArr "reply list" | RNil

type_synonym 'r script = "string list \<Rightarrow> string list \<Rightarrow> ('r, reply) lua"

subsection \<open>\<open>tonumber\<close>\<close>

text \<open>
  Lua's \<open>tonumber\<close> on a string, by \<open>strtod\<close>: white space around a sign, digits, an optional
  fraction and an optional exponent, read exactly and rounded once; or the name of a non-finite
  value. (Hexadecimal numerals, which nobody passes, are left out.)
\<close>

definition digit :: "char \<Rightarrow> nat option" where
  "digit c = (let n = of_char c in if 48 \<le> n \<and> n \<le> 57 then Some (n - 48) else None)"

fun digits :: "nat \<Rightarrow> nat \<Rightarrow> string \<Rightarrow> nat \<times> nat \<times> string" where
  "digits acc k [] = (acc, k, [])"
| "digits acc k (c # s) =
     (case digit c of Some d \<Rightarrow> digits (10 * acc + d) (Suc k) s | None \<Rightarrow> (acc, k, c # s))"

definition pow10 :: "int \<Rightarrow> rat" where
  "pow10 e = (if 0 \<le> e then of_int (10 ^ nat e) else 1 / of_int (10 ^ nat (- e)))"

definition sign :: "string \<Rightarrow> bool \<times> string" where
  "sign s = (case s of
      c # s' \<Rightarrow> if c = CHR ''-'' then (True, s') else if c = CHR ''+'' then (False, s') else (False, s)
    | [] \<Rightarrow> (False, s))"

definition exponent :: "string \<Rightarrow> int option" where
  "exponent s =
     (case s of
        [] \<Rightarrow> Some 0
      | c # s' \<Rightarrow>
          if c = CHR ''e'' \<or> c = CHR ''E''
          then let (neg, ds) = sign s'; (n, k, rest) = digits 0 0 ds
               in if 0 < k \<and> rest = [] then Some (if neg then - int n else int n) else None
          else None)"

definition unsigned_number :: "string \<Rightarrow> rat option" where
  "unsigned_number s =
     (let (n, k, rest) = digits 0 0 s;
          (n', k', j, rest') =
            (case rest of
               c # ds \<Rightarrow> if c = CHR ''.'' then (let (n2, k2, r2) = digits n 0 ds in (n2, k + k2, k2, r2))
                         else (n, k, 0, rest)
             | [] \<Rightarrow> (n, k, 0, rest))
      in if 0 < k' then map_option (\<lambda>e. of_nat n' * pow10 (e - int j)) (exponent rest') else None)"

definition lower :: "string \<Rightarrow> string" where
  "lower = map (\<lambda>c. let n = of_char c :: nat in if 65 \<le> n \<and> n \<le> 90 then char_of (n + 32) else c)"

definition c_space :: "char \<Rightarrow> bool" where
  "c_space c = (let n = of_char c :: nat in 9 \<le> n \<and> n \<le> 13 \<or> n = 32)"

definition tonumber :: "string \<Rightarrow> float64 option" where
  "tonumber s0 =
     (let s = rev (dropWhile c_space (rev (dropWhile c_space s0)));
          (neg, s') = sign s
      in if lower s' = ''inf'' \<or> lower s' = ''infinity'' then Some (if neg then NInf else PInf)
         else if lower s' = ''nan'' then Some NaN
         else map_option (\<lambda>q. rnd64 (if neg then - q else q)) (unsigned_number s'))"

text \<open>A number that arithmetic or a comparison needs; \<open>nil\<close> is an error of the script.\<close>

definition nilError :: string where
  "nilError = ''attempt to perform arithmetic on a nil value''"

definition num :: "float64 option \<Rightarrow> ('r, float64) lua" where
  "num v = (case v of Some x \<Rightarrow> lua_return x | None \<Rightarrow> lua_error nilError)"

text \<open>The element of a table, \<open>tonumber\<close> of it, and \<open>KEYS[1]\<close> as the argument of a command.\<close>

definition elem :: "'a list \<Rightarrow> nat \<Rightarrow> 'a option" where
  "elem t i = (if 1 \<le> i \<and> i \<le> length t then Some (t ! (i - 1)) else None)"

definition numberAt :: "string list \<Rightarrow> nat \<Rightarrow> float64 option" where
  "numberAt t i = Option.bind (elem t i) tonumber"

definition stringAt :: "string list \<Rightarrow> nat \<Rightarrow> ('r, string) lua" where
  "stringAt t i = (case elem t i of
      Some s \<Rightarrow> lua_return s
    | None \<Rightarrow> lua_error ''Lua redis lib command arguments must be strings or integers'')"

subsection \<open>What the scripts share\<close>

text \<open>\<open>tonumber(t[1]) * 1000 + math.floor(tonumber(t[2]) / 1000)\<close>, with \<open>t\<close> the reply of \<open>TIME\<close>.\<close>

definition nowMillis :: "'r redis \<Rightarrow> ('r, float64) lua" where
  "nowMillis ops =
     lua_bind (TIME ops) (\<lambda>t.
     lua_bind (num (numberAt t 1)) (\<lambda>secs.
     lua_bind (num (numberAt t 2)) (\<lambda>micros.
     lua_return (fadd (fmul secs (Fin 1000)) (fFloor (fdiv micros (Fin 1000)))))))"

text \<open>The end of every script: \<open>PEXPIRE\<close> when \<open>ttl_ms > 0\<close>, and the reply.\<close>

definition expireAndReply ::
  "'r redis \<Rightarrow> string \<Rightarrow> float64 option \<Rightarrow> float64 \<Rightarrow> float64 \<Rightarrow> float64 \<Rightarrow> ('r, reply) lua" where
  "expireAndReply ops key ttl_ms allowed remaining retry_after_ms =
     (let result = lua_return (RArr [RInt (replyInt ops allowed), RInt (replyInt ops remaining),
                                     RInt (replyInt ops retry_after_ms)])
      in lua_bind (num ttl_ms) (\<lambda>ttl.
         if flt (Fin 0) ttl then lua_bind (PEXPIRE ops key (numberArg ops ttl)) (\<lambda>_. result) else result))"

text \<open>
  The stored pair of a hash: what the two fields hold (nothing: the given amount, at the time
  \<open>now\<close>), and the time to go on with, which is never before the stored one.
\<close>

definition loadFields ::
  "'r redis \<Rightarrow> string \<Rightarrow> string \<Rightarrow> string \<Rightarrow> float64 option \<Rightarrow> float64
     \<Rightarrow> ('r, float64 option \<times> float64 \<times> float64) lua" where
  "loadFields ops key f1 f2 amount0 now =
     lua_bind (HMGET ops key [f1, f2]) (\<lambda>fields.
       case Option.bind (elem fields 1) (\<lambda>v. v) of
         None \<Rightarrow> lua_return (amount0, now, now)
       | Some v1 \<Rightarrow>
           lua_bind (num (Option.bind (Option.bind (elem fields 2) (\<lambda>v. v)) tonumber)) (\<lambda>lst.
           lua_return (tonumber v1, lst, if flt now lst then lst else now)))"

subsection \<open>\<open>token_bucket.lua\<close>\<close>

text \<open>The refill, the decision (the new tokens and the three numbers of the reply), the script.\<close>

definition refill_tokens ::
  "float64 option \<Rightarrow> float64 option \<Rightarrow> float64 option \<Rightarrow> float64 \<Rightarrow> ('r, float64) lua" where
  "refill_tokens tokens rate capacity elapsed =
     (if flt (Fin 0) elapsed
      then lua_bind (num tokens) (\<lambda>t0.
           lua_bind (num rate) (\<lambda>r.
           lua_bind (num capacity) (\<lambda>c.
           let t = fadd t0 (fdiv (fmul elapsed r) (Fin 1000))
           in lua_return (if flt c t then c else t))))
      else num tokens)"

definition take_token ::
  "float64 \<Rightarrow> float64 option \<Rightarrow> ('r, float64 \<times> float64 \<times> float64 \<times> float64) lua" where
  "take_token tokens rate =
     (if fle (Fin 1) tokens
      then let t = fsub tokens (Fin 1) in lua_return (t, Fin 1, fFloor t, Fin 0)
      else lua_bind (num rate) (\<lambda>r.
           lua_return (tokens, Fin 0, Fin 0, fCeil (fdiv (fmul (fsub (Fin 1) tokens) (Fin 1000)) r))))"

definition token_bucket_lua :: "'r redis \<Rightarrow> 'r script" where
  "token_bucket_lua ops keys argv =
     lua_bind (nowMillis ops) (\<lambda>now0.
     let capacity = numberAt argv 1; rate = numberAt argv 2; ttl_ms = numberAt argv 3
     in lua_bind (stringAt keys 1) (\<lambda>key.
        lua_bind (loadFields ops key ''tokens'' ''last_refilled_ms'' capacity now0) (\<lambda>(tokens0, lst, now).
        lua_bind (refill_tokens tokens0 rate capacity (fsub now lst)) (\<lambda>tokens1.
        lua_bind (take_token tokens1 rate) (\<lambda>(tokens2, allowed, remaining, retry_after_ms).
        lua_bind (HSET ops key [(''tokens'', numberArg ops tokens2), (''last_refilled_ms'', numberArg ops now)]) (\<lambda>_.
        expireAndReply ops key ttl_ms allowed remaining retry_after_ms))))))"

subsection \<open>\<open>leaky_bucket.lua\<close>\<close>

definition leak_water :: "float64 option \<Rightarrow> float64 option \<Rightarrow> float64 \<Rightarrow> ('r, float64) lua" where
  "leak_water water rate elapsed =
     (if flt (Fin 0) elapsed
      then lua_bind (num water) (\<lambda>w0.
           lua_bind (num rate) (\<lambda>r.
           let w = fsub w0 (fdiv (fmul elapsed r) (Fin 1000))
           in lua_return (if flt w (Fin 0) then Fin 0 else w)))
      else num water)"

definition add_drop ::
  "float64 \<Rightarrow> float64 option \<Rightarrow> float64 option \<Rightarrow> ('r, float64 \<times> float64 \<times> float64 \<times> float64) lua" where
  "add_drop water capacity rate =
     lua_bind (num capacity) (\<lambda>c.
     if fle (fadd water (Fin 1)) c
     then let w = fadd water (Fin 1) in lua_return (w, Fin 1, fFloor (fsub c w), Fin 0)
     else let overflow = fsub (fadd water (Fin 1)) c
          in lua_bind (num rate) (\<lambda>r.
             lua_return (water, Fin 0, Fin 0, fCeil (fdiv (fmul overflow (Fin 1000)) r))))"

definition leaky_bucket_lua :: "'r redis \<Rightarrow> 'r script" where
  "leaky_bucket_lua ops keys argv =
     lua_bind (nowMillis ops) (\<lambda>now0.
     let capacity = numberAt argv 1; rate = numberAt argv 2; ttl_ms = numberAt argv 3
     in lua_bind (stringAt keys 1) (\<lambda>key.
        lua_bind (loadFields ops key ''water'' ''last_leak_ms'' (Some (Fin 0)) now0) (\<lambda>(water0, lst, now).
        lua_bind (leak_water water0 rate (fsub now lst)) (\<lambda>water1.
        lua_bind (add_drop water1 capacity rate) (\<lambda>(water2, allowed, remaining, retry_after_ms).
        lua_bind (HSET ops key [(''water'', numberArg ops water2), (''last_leak_ms'', numberArg ops now)]) (\<lambda>_.
        expireAndReply ops key ttl_ms allowed remaining retry_after_ms))))))"

subsection \<open>\<open>sliding_window_log.lua\<close>\<close>

definition sliding_window_log_lua :: "'r redis \<Rightarrow> 'r script" where
  "sliding_window_log_lua ops keys argv =
     lua_bind (nowMillis ops) (\<lambda>now.
     lua_bind (num (numberAt argv 2)) (\<lambda>window_ms.
     let limit = numberAt argv 1; ttl_ms = numberAt argv 3; window_start = fsub now window_ms
     in lua_bind (stringAt keys 1) (\<lambda>key.
        lua_bind (ZREMRANGEBYSCORE ops key ''-inf'' (numberArg ops window_start)) (\<lambda>_.
        lua_bind (ZCARD ops key) (\<lambda>n.
        let count = f64_of_int n
        in lua_bind (num limit) (\<lambda>l.
           lua_bind
             (if flt count l
              then lua_bind (stringAt argv 4) (\<lambda>member.
                   lua_bind (ZADD ops key (numberArg ops now) member) (\<lambda>_.
                   lua_return (Fin 1, fsub (fsub l count) (Fin 1), Fin 0)))
              else lua_bind (ZRANGE_WITHSCORES ops key ''0'' ''0'') (\<lambda>oldest.
                   lua_bind (num (numberAt oldest 2)) (\<lambda>s.
                   lua_return (Fin 0, Fin 0, fsub (fadd s window_ms) now))))
             (\<lambda>(allowed, remaining, retry_after_ms).
           expireAndReply ops key ttl_ms allowed remaining retry_after_ms)))))))"

end
