(* ===== verification/Redis_Laws.thy ===== *)
theory Redis_Laws
  imports Redis_Lua Mem_TokenBucket
begin

section \<open>What the scripts rely on\<close>

text \<open>
  The documented behaviour of the Redis commands the scripts call, over a view of the server's
  state: the clock, and the value of every key. These are hypotheses about code outside the
  repository; the theorems about the Redis limiters name them. Also the time the scripts read.
\<close>

datatype redis_value = Absent | Hash "string \<rightharpoonup> string" | ZSet "string \<rightharpoonup> float64" | OtherValue

record 'r redis_view =
  v_now :: "'r \<Rightarrow> int \<times> int"
  v_val :: "'r \<Rightarrow> string \<Rightarrow> redis_value"

fun hash_of :: "redis_value \<Rightarrow> (string \<rightharpoonup> string) option" where
  "hash_of Absent = Some Map.empty"
| "hash_of (Hash h) = Some h"
| "hash_of _ = None"

fun zset_of :: "redis_value \<Rightarrow> (string \<rightharpoonup> float64) option" where
  "zset_of Absent = Some Map.empty"
| "zset_of (ZSet z) = (if finite (dom z) then Some z else None)"
| "zset_of _ = None"

text \<open>A sorted set that becomes empty is removed.\<close>

definition zset_value :: "(string \<rightharpoonup> float64) \<Rightarrow> redis_value" where
  "zset_value z = (if z = Map.empty then Absent else ZSet z)"

text \<open>
  \<open>TIME\<close> gives the seconds and the microseconds as decimal numerals; \<open>HMGET\<close> and \<open>HSET\<close> read
  and write the fields of a hash; \<open>PEXPIRE\<close> with a positive number of milliseconds does not
  change a value; \<open>ZREMRANGEBYSCORE key -inf m\<close> removes the members with a score of at most \<open>m\<close>;
  \<open>ZCARD\<close> counts; \<open>ZADD\<close> sets the score of a member; \<open>ZRANGE key 0 0 WITHSCORES\<close> gives a member
  with a least score. Commands on an absent key work as on an empty value. A number passed to a
  command is written with enough digits to be read back exactly, and a returned number is
  truncated to an integer.
\<close>

definition time_law :: "'r redis \<Rightarrow> 'r redis_view \<Rightarrow> bool" where
  "time_law ops v \<longleftrightarrow> (\<forall>r. \<exists>s u. TIME ops r = (r, Inr [s, u])
     \<and> 0 \<le> snd (v_now v r) \<and> snd (v_now v r) < 1000000
     \<and> tonumber s = Some (f64_of_int (fst (v_now v r))) \<and> tonumber u = Some (f64_of_int (snd (v_now v r))))"

definition hash_laws :: "'r redis \<Rightarrow> 'r redis_view \<Rightarrow> bool" where
  "hash_laws ops v \<longleftrightarrow>
     (\<forall>r key f g h. hash_of (v_val v r key) = Some h \<longrightarrow> HMGET ops key [f, g] r = (r, Inr [h f, h g]))
   \<and> (\<forall>r key f a g b h. hash_of (v_val v r key) = Some h \<longrightarrow>
        (\<exists>r' n. HSET ops key [(f, a), (g, b)] r = (r', Inr n)
           \<and> v_val v r' = (v_val v r)(key := Hash (h(f \<mapsto> a, g \<mapsto> b)))))"

definition zset_laws :: "'r redis \<Rightarrow> 'r redis_view \<Rightarrow> bool" where
  "zset_laws ops v \<longleftrightarrow>
     (\<forall>r key s m z. zset_of (v_val v r key) = Some z \<and> tonumber s = Some m \<longrightarrow>
        (\<exists>r' n. ZREMRANGEBYSCORE ops key ''-inf'' s r = (r', Inr n)
           \<and> v_val v r' = (v_val v r)(key := zset_value (z |` {k. \<exists>x. z k = Some x \<and> flt m x}))))
   \<and> (\<forall>r key z. zset_of (v_val v r key) = Some z \<longrightarrow> ZCARD ops key r = (r, Inr (int (card (dom z)))))
   \<and> (\<forall>r key s x m z. zset_of (v_val v r key) = Some z \<and> tonumber s = Some (Fin x) \<longrightarrow>
        (\<exists>r' n. ZADD ops key s m r = (r', Inr n) \<and> v_val v r' = (v_val v r)(key := ZSet (z(m \<mapsto> Fin x)))))
   \<and> (\<forall>r key z. zset_of (v_val v r key) = Some z \<and> z \<noteq> Map.empty \<longrightarrow>
        (\<exists>m x s. ZRANGE_WITHSCORES ops key ''0'' ''0'' r = (r, Inr [m, s])
           \<and> z m = Some x \<and> tonumber s = Some x \<and> (\<forall>y \<in> ran z. \<not> flt y x)))"

definition number_laws :: "'r redis \<Rightarrow> 'r redis_view \<Rightarrow> bool" where
  "number_laws ops v \<longleftrightarrow>
     (\<forall>x. is_f64 (Fin x) \<longrightarrow> tonumber (numberArg ops (Fin x)) = Some (Fin x))
   \<and> (\<forall>x. \<bar>x\<bar> < 2 ^ 63 \<longrightarrow> replyInt ops (Fin x) = trunc x)
   \<and> (\<forall>r key n. 0 < n \<and> n \<le> 2 ^ 53 \<longrightarrow>
        (\<exists>r' m. PEXPIRE ops key (numberArg ops (Fin (of_int n))) r = (r', Inr m) \<and> v_val v r' = v_val v r))"

definition redis_laws :: "'r redis \<Rightarrow> 'r redis_view \<Rightarrow> bool" where
  "redis_laws ops v \<longleftrightarrow> time_law ops v \<and> hash_laws ops v \<and> zset_laws ops v \<and> number_laws ops v"

text \<open>The server's clock in whole milliseconds; the range of times the theorems are about.\<close>

definition millis :: "'r redis_view \<Rightarrow> 'r \<Rightarrow> int" where
  "millis v r = fst (v_now v r) * 1000 + snd (v_now v r) div 1000"

abbreviation max_millis :: int where
  "max_millis \<equiv> 2 ^ 42"

text \<open>The laws one by one.\<close>

lemma law_HMGET:
  "redis_laws ops v \<Longrightarrow> hash_of (v_val v r key) = Some h \<Longrightarrow> HMGET ops key [f, g] r = (r, Inr [h f, h g])"
  unfolding redis_laws_def hash_laws_def by blast

lemma law_HSET:
  "redis_laws ops v \<Longrightarrow> hash_of (v_val v r key) = Some h \<Longrightarrow>
     \<exists>r' n. HSET ops key [(f, a), (g, b)] r = (r', Inr n) \<and> v_val v r' = (v_val v r)(key := Hash (h(f \<mapsto> a, g \<mapsto> b)))"
  unfolding redis_laws_def hash_laws_def by blast

lemma law_ZREMRANGEBYSCORE:
  "redis_laws ops v \<Longrightarrow> zset_of (v_val v r key) = Some z \<Longrightarrow> tonumber s = Some m \<Longrightarrow>
     \<exists>r' n. ZREMRANGEBYSCORE ops key ''-inf'' s r = (r', Inr n)
       \<and> v_val v r' = (v_val v r)(key := zset_value (z |` {k. \<exists>x. z k = Some x \<and> flt m x}))"
  unfolding redis_laws_def zset_laws_def by blast

lemma law_ZCARD:
  "redis_laws ops v \<Longrightarrow> zset_of (v_val v r key) = Some z \<Longrightarrow> ZCARD ops key r = (r, Inr (int (card (dom z))))"
  unfolding redis_laws_def zset_laws_def by blast

lemma law_ZADD:
  "redis_laws ops v \<Longrightarrow> zset_of (v_val v r key) = Some z \<Longrightarrow> tonumber s = Some (Fin x) \<Longrightarrow>
     \<exists>r' n. ZADD ops key s m r = (r', Inr n) \<and> v_val v r' = (v_val v r)(key := ZSet (z(m \<mapsto> Fin x)))"
  unfolding redis_laws_def zset_laws_def by blast

lemma law_ZRANGE:
  "redis_laws ops v \<Longrightarrow> zset_of (v_val v r key) = Some z \<Longrightarrow> z \<noteq> Map.empty \<Longrightarrow>
     \<exists>m x s. ZRANGE_WITHSCORES ops key ''0'' ''0'' r = (r, Inr [m, s])
       \<and> z m = Some x \<and> tonumber s = Some x \<and> (\<forall>y \<in> ran z. \<not> flt y x)"
  unfolding redis_laws_def zset_laws_def by blast

lemma law_numberArg: "redis_laws ops v \<Longrightarrow> is_f64 (Fin x) \<Longrightarrow> tonumber (numberArg ops (Fin x)) = Some (Fin x)"
  unfolding redis_laws_def number_laws_def by blast

lemma law_replyInt: "redis_laws ops v \<Longrightarrow> \<bar>n\<bar> < 2 ^ 63 \<Longrightarrow> replyInt ops (Fin (of_int n)) = n"
proof -
  assume l: "redis_laws ops v" and n: "\<bar>n\<bar> < 2 ^ 63"
  have "\<bar>of_int n :: rat\<bar> < 2 ^ 63" using n by (simp flip: of_int_abs add: of_int_less_numeral_power_cancel_iff)
  then have "replyInt ops (Fin (of_int n)) = trunc (of_int n)"
    using l unfolding redis_laws_def number_laws_def by blast
  then show ?thesis by (simp add: trunc_def)
qed

lemma law_PEXPIRE:
  "redis_laws ops v \<Longrightarrow> 0 < n \<Longrightarrow> n \<le> 2 ^ 53 \<Longrightarrow>
     \<exists>r' m. PEXPIRE ops key (numberArg ops (Fin (of_int n))) r = (r', Inr m) \<and> v_val v r' = v_val v r"
  unfolding redis_laws_def number_laws_def by blast

subsection \<open>The computation monad\<close>

lemma lua_bind_simps [simp]:
  "m r = (r', Inr a) \<Longrightarrow> lua_bind m f r = f a r'"
  "lua_return a r = (r, Inr a)"
  "lua_bind (lua_return a) f = f a"
  "num (Some x) = lua_return x"
  by (simp_all add: lua_bind_def lua_return_def num_def)

lemma elem_simps [simp]:
  "elem (x # xs) (Suc 0) = Some x" "elem (x # y # xs) 2 = Some y" "elem (x # y # z # xs) 3 = Some z"
  "elem (x # y # z # w # xs) 4 = Some w"
  by (simp_all add: elem_def numeral_eq_Suc)

subsection \<open>Whole numbers\<close>

lemma fsub_ints:
  assumes "\<bar>a - b\<bar> \<le> 2 ^ 53"
  shows "fsub (Fin (of_int a)) (Fin (of_int b)) = Fin (of_int (a - b))"
  using f64_of_int_exact [OF assms] by (simp add: fsub_Fin f64_of_int_def)

lemma fadd_ints:
  assumes "\<bar>a + b\<bar> \<le> 2 ^ 53"
  shows "fadd (Fin (of_int a)) (Fin (of_int b)) = Fin (of_int (a + b))"
  using f64_of_int_exact [OF assms] by (simp add: f64_of_int_def)


lemma Milliseconds_le: "in_int64 d \<Longrightarrow> \<bar>Milliseconds d\<bar> \<le> 2 ^ 53"
proof -
  assume "in_int64 d"
  then have d: "\<bar>d\<bar> \<le> 2 ^ 63" by (auto simp: in_int64_def min_int64_def max_int64_def)
  have "\<bar>Milliseconds d\<bar> \<le> \<bar>d\<bar> div 1000000"
    by (auto simp: Milliseconds_def go_div_def Millisecond_def abs_mult sgn_if)
  also have "\<dots> \<le> 2 ^ 63 div 1000000" using d by (intro zdiv_mono1) simp_all
  finally show ?thesis by simp
qed

lemma Milliseconds_nonneg: "0 \<le> d \<Longrightarrow> Milliseconds d = d div Millisecond"
  by (simp add: Milliseconds_def go_div_pos Millisecond_def)

subsection \<open>The time\<close>

lemma is_f64_dyadic: "\<bar>m\<bar> \<le> 2 ^ 53 \<Longrightarrow> is_f64 (Fin (of_int m / 1024))"
proof (rule is_f64_FinI)
  assume m: "\<bar>m\<bar> \<le> 2 ^ 53"
  have "of_int m / 1024 = of_int m * (2::rat) powi (- 10)" by (simp add: power_int_def power_one_over)
  then show "of_int m / 1024 \<in> F64" unfolding F64_def using m by fastforce
  have "\<bar>of_int m / 1024 :: rat\<bar> \<le> \<bar>of_int m\<bar>" by simp
  also have "\<dots> < huge64" using is_f64_FinD(2) [OF is_f64_int [OF m]] .
  finally show "\<bar>of_int m / 1024 :: rat\<bar> < huge64" .
qed

lemma floor_micros:
  assumes "0 \<le> u" "u < 1000000"
  shows "fFloor (fdiv (Fin (of_int u)) (Fin 1000)) = Fin (of_int (u div 1000))"
proof -
  let ?k = "u div 1000" and ?q = "of_int u / 1000 :: rat"
  have k: "0 \<le> ?k" "?k < 1000" using assms by auto
  have u: "?k * 1000 \<le> u" "u \<le> ?k * 1000 + 999" by presburger+
  have lo: "of_int ?k \<le> ?q" using u(1) by (simp add: le_divide_eq flip: of_int_mult)
  have "of_int u \<le> (of_int (?k * 1000 + 999) :: rat)" using u(2) by (simp only: of_int_le_iff)
  then have hi: "?q \<le> of_int (?k * 1024 + 1023) / 1024" by simp
  have a: "is_f64 (Fin (of_int ?k))" using k by (intro is_f64_int) simp
  have b: "is_f64 (Fin (of_int (?k * 1024 + 1023) / 1024))" using k by (intro is_f64_dyadic) simp
  note R = rnd64_between [OF a b lo hi]
  have "\<lfloor>rnd ?q\<rfloor> = ?k" using R(2,3) by (intro floor_unique) simp_all
  then show ?thesis using R(1) by (simp add: fFloor_def)
qed

lemma nowMillis_eq:
  assumes "redis_laws ops v" "0 \<le> millis v r" "millis v r \<le> max_millis"
  shows "nowMillis ops r = (r, Inr (Fin (of_int (millis v r))))"
proof -
  obtain n u where nu: "v_now v r = (n, u)" by (cases "v_now v r")
  obtain s t where T: "TIME ops r = (r, Inr [s, t])" "0 \<le> u" "u < 1000000"
    "tonumber s = Some (f64_of_int n)" "tonumber t = Some (f64_of_int u)"
    using assms(1) nu unfolding redis_laws_def time_law_def by (metis fst_conv snd_conv)
  have m: "millis v r = n * 1000 + u div 1000" by (simp add: millis_def nu)
  have k: "0 \<le> u div 1000" "u div 1000 < 1000" using T by auto
  have "0 \<le> n"
  proof (rule ccontr)
    assume "\<not> 0 \<le> n"
    then have "n * 1000 \<le> - 1000" by simp
    then show False using assms(2) k(2) unfolding m by linarith
  qed
  then have n: "0 \<le> n * 1000" "n * 1000 \<le> 2 ^ 42" using assms(3) k(1) unfolding m by linarith+
  have "\<bar>n\<bar> \<le> 2 ^ 53" "\<bar>u\<bar> \<le> 2 ^ 53" using n T(2,3) by simp_all
  then have c: "f64_of_int n = Fin (of_int n)" "f64_of_int u = Fin (of_int u)" by (simp_all add: f64_of_int_exact)
  have "fmul (Fin (of_int n)) (Fin 1000) = f64_of_int (n * 1000)" by (simp add: f64_of_int_def)
  then have f: "fmul (Fin (of_int n)) (Fin 1000) = Fin (of_int (n * 1000))"
    using n f64_of_int_exact [of "n * 1000"] by simp
  have "fadd (Fin (of_int (n * 1000))) (Fin (of_int (u div 1000))) = f64_of_int (millis v r)"
    by (simp add: f64_of_int_def m)
  then have "fadd (Fin (of_int (n * 1000))) (Fin (of_int (u div 1000))) = Fin (of_int (millis v r))"
    using assms(2,3) f64_of_int_exact [of "millis v r"] by simp
  then show ?thesis
    using T(1,4,5) floor_micros [OF T(2,3)] f by (simp add: nowMillis_def numberAt_def c)
qed

lemma expireAndReply_eq:
  assumes "redis_laws ops v" "\<bar>n\<bar> \<le> 2 ^ 53"
  shows "\<exists>r'. expireAndReply ops key (Some (Fin (of_int n))) a b c r
      = (r', Inr (RArr [RInt (replyInt ops a), RInt (replyInt ops b), RInt (replyInt ops c)]))
     \<and> v_val v r' = v_val v r"
proof (cases "0 < n")
  case True
  then obtain r' m where "PEXPIRE ops key (numberArg ops (Fin (of_int n))) r = (r', Inr m)" "v_val v r' = v_val v r"
    using law_PEXPIRE [OF assms(1)] assms(2) by (metis abs_of_pos)
  then show ?thesis using True by (simp add: expireAndReply_def Let_def)
next
  case False
  then show ?thesis by (simp add: expireAndReply_def Let_def)
qed

end
