(* ===== verification/Redis_Limiter.thy ===== *)
theory Redis_Limiter
  imports Redis_Lua Kaka_Contract Mem_Options
begin

section \<open>Package \<open>redis\<close>: options, script runner, limiters\<close>

text \<open>
  The Go side of the Redis limiters: \<open>redis/options.go\<close>, \<open>redis/limiter.go\<close>,
  \<open>redis/script.go\<close> and the three \<open>Allow\<close> methods. The client (\<open>go-redis\<close>) is not part of the
  sources: \<open>ScriptLoad\<close> and \<open>EvalSha\<close> are the fields of a record that every operation takes as
  an argument, functions of the state \<open>'w\<close> of the world behind the client. An error of the
  client is its text.
\<close>

subsection \<open>\<open>redis/options.go\<close>\<close>

type_synonym ErrorPolicy = int

definition ErrorFailClosed :: ErrorPolicy where "ErrorFailClosed = 0"
definition ErrorFailOpen :: ErrorPolicy where "ErrorFailOpen = 1"

text \<open>The callback and the sink are their presence; the calls they receive are events.\<close>

record r_Options =
  keyPrefix :: string
  r_keyTTL :: duration
  policy :: ErrorPolicy
  has_onError :: bool
  r_sink :: bool

type_synonym r_Option = "r_Options \<Rightarrow> r_Options"

definition r_defaultOptions :: r_Options where
  "r_defaultOptions =
     \<lparr>keyPrefix = ''kaka:'', r_keyTTL = 30 * Minute, policy = ErrorFailClosed, has_onError = False, r_sink = False\<rparr>"

definition WithKeyPrefix :: "string \<Rightarrow> r_Option" where
  "WithKeyPrefix prefix = (\<lambda>o1. o1\<lparr>keyPrefix := prefix\<rparr>)"

definition r_WithKeyTTL :: "duration \<Rightarrow> r_Option" where
  "r_WithKeyTTL ttl = (\<lambda>o1. o1\<lparr>r_keyTTL := ttl\<rparr>)"

definition WithErrorPolicy :: "ErrorPolicy \<Rightarrow> r_Option" where
  "WithErrorPolicy p = (\<lambda>o1. o1\<lparr>policy := p\<rparr>)"

definition WithOnError :: "bool \<Rightarrow> r_Option" where
  "WithOnError fn = (\<lambda>o1. o1\<lparr>has_onError := fn\<rparr>)"

definition r_WithMetricSink :: "bool \<Rightarrow> r_Option" where
  "r_WithMetricSink s = (\<lambda>o1. o1\<lparr>r_sink := s\<rparr>)"

subsection \<open>\<open>redis/limiter.go\<close>\<close>

text \<open>
  What the limiters use of the client. The arguments of a script are passed as Go values.
\<close>

datatype arg = ArgFloat float64 | ArgInt int | ArgStr string

record 'w client =
  ScriptLoad :: "'w \<Rightarrow> string \<Rightarrow> 'w \<times> (string + string)"
  EvalSha :: "'w \<Rightarrow> string \<Rightarrow> string list \<Rightarrow> arg list \<Rightarrow> 'w \<times> (string + reply)"

record 'w r_limiter =
  l_client :: "'w client"
  l_opts :: r_Options

definition newLimiter :: "'w client \<Rightarrow> r_Option list \<Rightarrow> 'w r_limiter" where
  "newLimiter client opts = \<lparr>l_client = client, l_opts = fold (\<lambda>opt o2. opt o2) opts r_defaultOptions\<rparr>"

definition keyFor :: "'w r_limiter \<Rightarrow> string \<Rightarrow> string" where
  "keyFor l key = keyPrefix (l_opts l) @ key"

definition onError :: "'w r_limiter \<Rightarrow> go_error \<Rightarrow> event list" where
  "onError l err = (if has_onError (l_opts l) then [ErrorCallback err] else [])"

definition fallback :: "'w r_limiter \<Rightarrow> go_error \<Rightarrow> Result \<times> event list" where
  "fallback l err =
     (if policy (l_opts l) = ErrorFailOpen
      then (zero_Result\<lparr>Allowed := True\<rparr>, onError l err)
      else (zero_Result\<lparr>Allowed := False\<rparr>, onError l err))"

definition r_emit :: "'w r_limiter \<Rightarrow> Result \<Rightarrow> event list" where
  "r_emit l result =
     (if \<not> r_sink (l_opts l) then []
      else if Allowed result then [OnAllowed TierSingle result] else [OnRejected TierSingle result])"

definition r_emitError :: "'w r_limiter \<Rightarrow> go_error \<Rightarrow> event list" where
  "r_emitError l err = (if r_sink (l_opts l) then [OnError TierSingle err] else [])"

subsection \<open>\<open>redis/script.go\<close>\<close>

record Script =
  sc_name :: string
  sc_body :: string
  sha :: string

definition NewScript :: "string \<Rightarrow> string \<Rightarrow> Script" where
  "NewScript name body = \<lparr>sc_name = name, sc_body = body, sha = ''''\<rparr>"

definition getSHA :: "Script \<Rightarrow> string" where
  "getSHA s = sha s"

text \<open>\<open>strings.Contains\<close>.\<close>

fun contains :: "string \<Rightarrow> string \<Rightarrow> bool" where
  "contains [] sub = (sub = [])"
| "contains (c # s) sub = (take (length sub) (c # s) = sub \<or> contains s sub)"

definition isNoScriptErr :: "string \<Rightarrow> bool" where
  "isNoScriptErr err = contains err ''NOSCRIPT''"

definition Script_Load :: "'w client \<Rightarrow> Script \<Rightarrow> 'w \<Rightarrow> (Script \<times> 'w) \<times> go_error option" where
  "Script_Load c s w =
     (case ScriptLoad c w (sc_body s) of
        (w', Inl err) \<Rightarrow>
          ((s, w'), Some (ErrRedisUnavailable (''load '' @ sc_name s @ '': '' @ err)))
      | (w', Inr sh) \<Rightarrow> ((s\<lparr>sha := sh\<rparr>, w'), None))"

definition Script_Run ::
  "'w client \<Rightarrow> Script \<Rightarrow> 'w \<Rightarrow> string list \<Rightarrow> arg list \<Rightarrow> (Script \<times> 'w) \<times> (go_error + reply)" where
  "Script_Run c s w keys args =
     (case (if getSHA s = '''' then Script_Load c s w else ((s, w), None)) of
        ((s1, w1), Some err) \<Rightarrow> ((s1, w1), Inl err)
      | ((s1, w1), None) \<Rightarrow>
          (case EvalSha c w1 (getSHA s1) keys args of
             (w2, Inr res) \<Rightarrow> ((s1, w2), Inr res)
           | (w2, Inl err) \<Rightarrow>
               if isNoScriptErr err
               then (case Script_Load c s1 w2 of
                       ((s2, w3), Some loadErr) \<Rightarrow> ((s2, w3), Inl loadErr)
                     | ((s2, w3), None) \<Rightarrow>
                         (case EvalSha c w3 (getSHA s2) keys args of
                            (w4, Inr res) \<Rightarrow> ((s2, w4), Inr res)
                          | (w4, Inl err2) \<Rightarrow>
                              ((s2, w4), Inl (ErrScript (''run '' @ sc_name s2 @ '': '' @ err2)))))
               else ((s1, w2), Inl (ErrScript (''run '' @ sc_name s1 @ '': '' @ err)))))"

subsection \<open>Reading a reply\<close>

text \<open>The \<open>%T\<close> of a reply.\<close>

fun reply_type :: "reply \<Rightarrow> string" where
  "reply_type (RInt _) = ''int64''"
| "reply_type (RStr _) = ''string''"
| "reply_type (RArr _) = ''[]interface {}''"
| "reply_type RNil = ''<nil>''"

text \<open>
  The part of \<open>Allow\<close> after \<open>Run\<close>, which the three limiters share word for word: the error of
  the script runner, a reply that is not an array of three, elements that are not integers, and
  the decision. \<open>time.Duration(retryMs) * time.Millisecond\<close> wraps around.
\<close>

definition degrade :: "'w r_limiter \<Rightarrow> go_error \<Rightarrow> go_return \<times> event list" where
  "degrade base err =
     (let (result, evs) = fallback base err
      in ((result, None), r_emitError base err @ evs @ r_emit base result))"

definition decide_reply :: "'w r_limiter \<Rightarrow> go_error + reply \<Rightarrow> go_return \<times> event list" where
  "decide_reply base out =
     (case out of
        Inl err \<Rightarrow> degrade base err
      | Inr res \<Rightarrow>
          (case res of
             RArr arr \<Rightarrow>
               if length arr \<noteq> 3
               then degrade base (ErrScript (''unexpected result type '' @ reply_type res))
               else (case arr of
                       [RInt allowed, RInt remaining, RInt retryMs] \<Rightarrow>
                         let result = \<lparr>Allowed = (allowed = 1), Remaining = remaining,
                                       RetryAfter = wrap64 (retryMs * Millisecond)\<rparr>
                         in ((result, None), r_emit base result)
                     | _ \<Rightarrow> degrade base (ErrScript (''unexpected result element type '' @ reply_type res)))
           | _ \<Rightarrow> degrade base (ErrScript (''unexpected result type '' @ reply_type res))))"

subsection \<open>The limiters\<close>

text \<open>
  The state of a Redis limiter is the limiter, whose script caches its SHA, and the world. The
  environment of a call is what happened to the world since the limiter last touched it (the
  server's clock, expiry, other clients), and for the sliding window the number that
  \<open>rand.Uint64\<close> returns.
\<close>

record 'w r_TokenBucket =
  rtb_base :: "'w r_limiter"
  rtb_script :: Script
  rtb_capacity :: float64
  rtb_rate :: float64

definition r_isFinite :: "float64 \<Rightarrow> bool" where
  "r_isFinite f \<longleftrightarrow> \<not> IsNaN f \<and> \<not> IsInf0 f"

definition r_NewTokenBucket :: "string \<Rightarrow> 'w client \<Rightarrow> float64 \<Rightarrow> float64 \<Rightarrow> r_Option list \<Rightarrow> 'w r_TokenBucket panics" where
  "r_NewTokenBucket tokenBucketScript client capacity rate opts =
     (if \<not> r_isFinite capacity \<or> flt capacity (Fin 1)
      then Inl ''kaka/redis: token bucket capacity must be >= 1''
      else if \<not> r_isFinite rate \<or> fle rate (Fin 0)
      then Inl ''kaka/redis: token bucket rate must be > 0''
      else Inr \<lparr>rtb_base = newLimiter client opts, rtb_script = NewScript ''token_bucket'' tokenBucketScript,
                rtb_capacity = capacity, rtb_rate = rate\<rparr>)"

definition r_TokenBucket_Allow :: "('w r_TokenBucket \<times> 'w, 'w \<Rightarrow> 'w) limiter" where
  "r_TokenBucket_Allow = (\<lambda>(tb, w0) env key.
     let w = env w0
     in case redis_validateKey key of
          Some err \<Rightarrow> Some ((tb, w0), (zero_Result, Some err), r_emitError (rtb_base tb) err)
        | None \<Rightarrow>
            let ttlMs = Milliseconds (r_keyTTL (l_opts (rtb_base tb)));
                ((sc, w'), out) = Script_Run (l_client (rtb_base tb)) (rtb_script tb) w [keyFor (rtb_base tb) key]
                                    [ArgFloat (rtb_capacity tb), ArgFloat (rtb_rate tb), ArgInt ttlMs];
                (ret, evs) = decide_reply (rtb_base tb) out
            in Some ((tb\<lparr>rtb_script := sc\<rparr>, w'), ret, evs))"

record 'w r_LeakyBucket =
  rlb_base :: "'w r_limiter"
  rlb_script :: Script
  rlb_capacity :: float64
  rlb_rate :: float64

definition r_NewLeakyBucket :: "string \<Rightarrow> 'w client \<Rightarrow> float64 \<Rightarrow> float64 \<Rightarrow> r_Option list \<Rightarrow> 'w r_LeakyBucket panics" where
  "r_NewLeakyBucket leakyBucketScript client capacity rate opts =
     (if \<not> r_isFinite capacity \<or> flt capacity (Fin 1)
      then Inl ''kaka/redis: leaky bucket capacity must be >= 1''
      else if \<not> r_isFinite rate \<or> fle rate (Fin 0)
      then Inl ''kaka/redis: leaky bucket rate must be > 0''
      else Inr \<lparr>rlb_base = newLimiter client opts, rlb_script = NewScript ''leaky_bucket'' leakyBucketScript,
                rlb_capacity = capacity, rlb_rate = rate\<rparr>)"

definition r_LeakyBucket_Allow :: "('w r_LeakyBucket \<times> 'w, 'w \<Rightarrow> 'w) limiter" where
  "r_LeakyBucket_Allow = (\<lambda>(lb, w0) env key.
     let w = env w0
     in case redis_validateKey key of
          Some err \<Rightarrow> Some ((lb, w0), (zero_Result, Some err), r_emitError (rlb_base lb) err)
        | None \<Rightarrow>
            let ttlMs = Milliseconds (r_keyTTL (l_opts (rlb_base lb)));
                ((sc, w'), out) = Script_Run (l_client (rlb_base lb)) (rlb_script lb) w [keyFor (rlb_base lb) key]
                                    [ArgFloat (rlb_capacity lb), ArgFloat (rlb_rate lb), ArgInt ttlMs];
                (ret, evs) = decide_reply (rlb_base lb) out
            in Some ((lb\<lparr>rlb_script := sc\<rparr>, w'), ret, evs))"

record 'w r_SlidingWindow =
  rsw_base :: "'w r_limiter"
  rsw_script :: Script
  rsw_limit :: int
  rsw_window :: duration

definition r_NewSlidingWindow :: "string \<Rightarrow> 'w client \<Rightarrow> int \<Rightarrow> duration \<Rightarrow> r_Option list \<Rightarrow> 'w r_SlidingWindow panics" where
  "r_NewSlidingWindow slidingWindowLogScript client limit window opts =
     (if limit \<le> 0 then Inl ''kaka/redis: sliding window limit must be > 0''
      else if window \<le> 0 then Inl ''kaka/redis: sliding window window must be > 0''
      else Inr \<lparr>rsw_base = newLimiter client opts, rsw_script = NewScript ''sliding_window_log'' slidingWindowLogScript,
                rsw_limit = limit, rsw_window = window\<rparr>)"

text \<open>\<open>strconv.FormatUint(n, 16)\<close>.\<close>

fun hex_loop :: "nat \<Rightarrow> nat \<Rightarrow> string \<Rightarrow> string" where
  "hex_loop 0 n acc = acc"
| "hex_loop (Suc k) n acc =
     (let d = n mod 16; c = char_of (if d < 10 then 48 + d else 87 + d) :: char
      in if n div 16 = 0 then c # acc else hex_loop k (n div 16) (c # acc))"

definition FormatUint16 :: "64 word \<Rightarrow> string" where
  "FormatUint16 n = hex_loop 16 (unat n) ''''"

definition r_SlidingWindow_Allow ::
  "('w r_SlidingWindow \<times> 'w, ('w \<Rightarrow> 'w) \<times> 64 word) limiter" where
  "r_SlidingWindow_Allow = (\<lambda>(sw, w0) (env, salt) key.
     let w = env w0
     in case redis_validateKey key of
          Some err \<Rightarrow> Some ((sw, w0), (zero_Result, Some err), r_emitError (rsw_base sw) err)
        | None \<Rightarrow>
            let member = FormatUint16 salt;
                ((sc, w'), out) = Script_Run (l_client (rsw_base sw)) (rsw_script sw) w [keyFor (rsw_base sw) key]
                                    [ArgInt (rsw_limit sw), ArgInt (Milliseconds (rsw_window sw)),
                                     ArgInt (Milliseconds (r_keyTTL (l_opts (rsw_base sw)))), ArgStr member];
                (ret, evs) = decide_reply (rsw_base sw) out
            in Some ((sw\<lparr>rsw_script := sc\<rparr>, w'), ret, evs))"

end
