(* ===== verification/Redis_Contract.thy ===== *)
theory Redis_Contract
  imports Redis_Laws Redis_Limiter
begin

section \<open>From scripts to limiters\<close>

text \<open>
  What the Go side of the Redis limiters shares, once and for all three algorithms: the script
  runner against a server that keeps its promises, an interface for an algorithm whose script
  implements a decision function on an abstract state per key, and what follows for the limiter:
  the contract of \<open>kaka.Limiter\<close>, and that every key sees exactly its own decision function.
\<close>

subsection \<open>A server that keeps its promises\<close>

text \<open>
  The server behind a client: the commands the scripts call and the view of its state; how the
  client writes arguments; the SHA1 of a script and whether a script is cached under it; and the
  computation that a script's text denotes.
\<close>

record 'w backend =
  be_redis :: "'w redis"
  be_view :: "'w redis_view"
  be_encode :: "arg \<Rightarrow> string"
  be_sha :: "string \<Rightarrow> string"
  be_cached :: "'w \<Rightarrow> string \<Rightarrow> bool"
  be_script :: "string \<Rightarrow> 'w script"

text \<open>
  Numbers are written so that they can be read back; strings as they are.
\<close>

definition encode_laws :: "(arg \<Rightarrow> string) \<Rightarrow> bool" where
  "encode_laws enc \<longleftrightarrow> (\<forall>x. is_f64 (Fin x) \<longrightarrow> tonumber (enc (ArgFloat (Fin x))) = Some (Fin x))
     \<and> (\<forall>n. tonumber (enc (ArgInt n)) = Some (f64_of_int n)) \<and> (\<forall>s. enc (ArgStr s) = s)"

text \<open>
  \<open>SCRIPT LOAD\<close> caches a script and returns its SHA1; \<open>EVALSHA\<close> runs a cached script and fails
  with a \<open>NOSCRIPT\<close> error otherwise.
\<close>

definition client_laws :: "'w backend \<Rightarrow> 'w client \<Rightarrow> bool" where
  "client_laws be c \<longleftrightarrow>
     (\<forall>w body. \<exists>w'. ScriptLoad c w body = (w', Inr (be_sha be body)) \<and> be_cached be w' (be_sha be body)
        \<and> v_val (be_view be) w' = v_val (be_view be) w \<and> v_now (be_view be) w' = v_now (be_view be) w)
   \<and> (\<forall>w body keys args. be_cached be w (be_sha be body) \<longrightarrow>
        EvalSha c w (be_sha be body) keys args = be_script be body keys (map (be_encode be) args) w)
   \<and> (\<forall>w body keys args. \<not> be_cached be w (be_sha be body) \<longrightarrow>
        (\<exists>msg. EvalSha c w (be_sha be body) keys args = (w, Inl msg) \<and> isNoScriptErr msg))
   \<and> (\<forall>body. be_sha be body \<noteq> '''')"

text \<open>
  All of it together, for a client and a script with its meaning. What may happen on the server
  between two calls of a limiter: keys of the limiter may expire (\<open>benign\<close>); or nothing happens
  to them, and the clock shows the time \<open>t\<close> (\<open>quiet\<close>).
\<close>

definition honest :: "'w backend \<Rightarrow> 'w client \<Rightarrow> string \<Rightarrow> ('w redis \<Rightarrow> 'w script) \<Rightarrow> bool" where
  "honest be c body lua \<longleftrightarrow> client_laws be c \<and> redis_laws (be_redis be) (be_view be) \<and> encode_laws (be_encode be)
     \<and> be_script be body = lua (be_redis be)"

definition benign :: "'w backend \<Rightarrow> 'w r_limiter \<Rightarrow> ('w \<Rightarrow> 'w) \<Rightarrow> bool" where
  "benign be base step \<longleftrightarrow> (\<forall>w. 0 \<le> millis (be_view be) (step w) \<and> millis (be_view be) (step w) \<le> max_millis
     \<and> (\<forall>key. v_val (be_view be) (step w) (keyFor base key) \<in> {v_val (be_view be) w (keyFor base key), Absent}))"

definition quiet :: "'w backend \<Rightarrow> int \<Rightarrow> ('w \<Rightarrow> 'w) \<Rightarrow> bool" where
  "quiet be t step \<longleftrightarrow> 0 \<le> t \<and> t \<le> max_millis
     \<and> (\<forall>w. v_val (be_view be) (step w) = v_val (be_view be) w \<and> millis (be_view be) (step w) = t)"

definition no_keys :: "'w backend \<Rightarrow> 'w r_limiter \<Rightarrow> 'w \<Rightarrow> bool" where
  "no_keys be base w \<longleftrightarrow> (\<forall>key. v_val (be_view be) w (keyFor base key) = Absent)"

definition sha_ok :: "'w backend \<Rightarrow> Script \<Rightarrow> bool" where
  "sha_ok be s \<longleftrightarrow> sha s = '''' \<or> sha s = be_sha be (sc_body s)"

definition same_data :: "'w backend \<Rightarrow> 'w \<Rightarrow> 'w \<Rightarrow> bool" where
  "same_data be w w' \<longleftrightarrow> v_val (be_view be) w' = v_val (be_view be) w \<and> v_now (be_view be) w' = v_now (be_view be) w"

lemma Script_Load_honest:
  assumes "client_laws be c"
  shows "\<exists>w'. Script_Load c s w = ((s\<lparr>sha := be_sha be (sc_body s)\<rparr>, w'), None)
     \<and> be_cached be w' (be_sha be (sc_body s)) \<and> same_data be w w'"
proof -
  obtain w' where "ScriptLoad c w (sc_body s) = (w', Inr (be_sha be (sc_body s)))"
    "be_cached be w' (be_sha be (sc_body s))" "same_data be w w'"
    using assms unfolding client_laws_def same_data_def by meson
  then show ?thesis by (simp add: Script_Load_def)
qed

text \<open>
  The script runner runs the script once, whatever the state of the script cache: before the
  first load, with the script cached, and after the cache was flushed.
\<close>

lemma Script_Run_once:
  assumes c: "client_laws be c" and s: "sha_ok be s"
    and err: "\<And>w1 w2 msg. same_data be w w1 \<Longrightarrow>
      be_script be (sc_body s) keys (map (be_encode be) args) w1 = (w2, Inl msg) \<Longrightarrow> \<not> isNoScriptErr msg"
  shows "\<exists>w1. same_data be w w1 \<and> Script_Run c s w keys args =
     (case be_script be (sc_body s) keys (map (be_encode be) args) w1 of
        (w2, Inr res) \<Rightarrow> ((s\<lparr>sha := be_sha be (sc_body s)\<rparr>, w2), Inr res)
      | (w2, Inl msg) \<Rightarrow> ((s\<lparr>sha := be_sha be (sc_body s)\<rparr>, w2), Inl (ErrScript (''run '' @ sc_name s @ '': '' @ msg))))"
proof -
  let ?sha = "be_sha be (sc_body s)" and ?s = "s\<lparr>sha := be_sha be (sc_body s)\<rparr>"
  let ?run = "be_script be (sc_body s) keys (map (be_encode be) args)"
  have ev: "EvalSha c w1 ?sha keys args = ?run w1" if "be_cached be w1 ?sha" for w1
    using c that unfolding client_laws_def by metis
  have no: "\<exists>msg. EvalSha c w1 ?sha keys args = (w1, Inl msg) \<and> isNoScriptErr msg" if "\<not> be_cached be w1 ?sha" for w1
    using c that unfolding client_laws_def by metis
  obtain w1 where w1: "(if getSHA s = '''' then Script_Load c s w else ((s, w), None)) = ((?s, w1), None)" "same_data be w w1"
  proof (cases "sha s = ''''")
    case True
    then show thesis using that Script_Load_honest [OF c, of s w] by (auto simp: getSHA_def)
  next
    case False
    then have "?s = s" using s by (simp add: sha_ok_def)
    then show thesis using that [of w] False by (simp add: getSHA_def same_data_def)
  qed
  show ?thesis
  proof (cases "be_cached be w1 ?sha")
    case True
    then show ?thesis
      unfolding Script_Run_def w1(1) using w1(2) ev [OF True] err [OF w1(2)]
      by (intro exI [of _ w1]) (auto simp: getSHA_def split: prod.split sum.split)
  next
    case False
    obtain msg where m: "EvalSha c w1 ?sha keys args = (w1, Inl msg)" "isNoScriptErr msg" using no [OF False] by blast
    obtain w3 where w3: "Script_Load c ?s w1 = ((?s, w3), None)" "be_cached be w3 ?sha" "same_data be w1 w3"
      using Script_Load_honest [OF c, of ?s w1] by auto
    then have "same_data be w w3" using w1(2) by (simp add: same_data_def)
    then show ?thesis
      unfolding Script_Run_def w1(1) using m w3(1) ev [OF w3(2)]
      by (intro exI [of _ w3]) (auto simp: getSHA_def split: prod.split sum.split)
  qed
qed

lemma Script_Run_honest:
  assumes c: "client_laws be c" and s: "sha_ok be s"
    and run: "\<And>w1. same_data be w w1 \<Longrightarrow>
      \<exists>w2. be_script be (sc_body s) keys (map (be_encode be) args) w1 = (w2, Inr res) \<and> P w2"
  shows "\<exists>w2. Script_Run c s w keys args = ((s\<lparr>sha := be_sha be (sc_body s)\<rparr>, w2), Inr res) \<and> P w2"
proof -
  have "\<not> isNoScriptErr msg"
    if "same_data be w w1" "be_script be (sc_body s) keys (map (be_encode be) args) w1 = (w2, Inl msg)" for w1 w2 msg
    using run [OF that(1)] that(2) by auto
  then have "\<exists>w1. same_data be w w1 \<and> Script_Run c s w keys args =
     (case be_script be (sc_body s) keys (map (be_encode be) args) w1 of
        (w2, Inr res) \<Rightarrow> ((s\<lparr>sha := be_sha be (sc_body s)\<rparr>, w2), Inr res)
      | (w2, Inl msg) \<Rightarrow> ((s\<lparr>sha := be_sha be (sc_body s)\<rparr>, w2), Inl (ErrScript (''run '' @ sc_name s @ '': '' @ msg))))"
    by (rule Script_Run_once [OF c s])
  then show ?thesis using run by fastforce
qed

subsection \<open>\<open>Allow\<close> of the three limiters\<close>

definition redis_allow ::
  "'w r_limiter \<Rightarrow> arg list \<Rightarrow> ('w \<Rightarrow> 'w) \<Rightarrow> Script \<Rightarrow> 'w \<Rightarrow> string \<Rightarrow> (Script \<times> 'w) \<times> go_return \<times> event list" where
  "redis_allow base args step sc w key =
     (case redis_validateKey key of
        Some err \<Rightarrow> ((sc, w), (zero_Result, Some err), r_emitError base err)
      | None \<Rightarrow>
          (let ((sc', w'), out) = Script_Run (l_client base) sc (step w) [keyFor base key] args;
               (ret, evs) = decide_reply base out
           in ((sc', w'), ret, evs)))"

lemma redis_allow_blank:
  "blank key \<Longrightarrow> redis_allow base args step sc w key
     = ((sc, w), (zero_Result, Some RedisBlankKey), r_emitError base RedisBlankKey)"
  by (simp add: redis_allow_def redis_validateKey_def)

text \<open>The reply of a script for a decision.\<close>

definition reply_for :: "Result \<Rightarrow> reply" where
  "reply_for res = RArr [RInt (if Allowed res then 1 else 0), RInt (Remaining res), RInt (RetryAfter res div Millisecond)]"

definition whole_millis :: "Result \<Rightarrow> bool" where
  "whole_millis res \<longleftrightarrow> RetryAfter res mod Millisecond = 0 \<and> in_int64 (RetryAfter res)"

lemma decide_reply_for: "whole_millis res \<Longrightarrow> decide_reply base (Inr (reply_for res)) = ((res, None), r_emit base res)"
proof -
  assume w: "whole_millis res"
  have "RetryAfter res div Millisecond * Millisecond = RetryAfter res"
    using w by (auto simp: whole_millis_def Millisecond_def)
  then have "wrap64 (RetryAfter res div Millisecond * Millisecond) = RetryAfter res"
    using w by (simp add: whole_millis_def wrap64_id)
  then have "\<lparr>Allowed = ((if Allowed res then 1 else 0) = (1::int)), Remaining = Remaining res,
      RetryAfter = wrap64 (RetryAfter res div Millisecond * Millisecond)\<rparr> = res"
    by simp
  then show ?thesis by (simp add: decide_reply_def reply_for_def Let_def)
qed

text \<open>One key's decisions, in sequence.\<close>

fun replay :: "('e \<Rightarrow> int \<Rightarrow> 's \<Rightarrow> 's \<times> Result) \<Rightarrow> 's \<Rightarrow> ('e \<times> int) list \<Rightarrow> Result list" where
  "replay d st [] = []"
| "replay d st ((e, t) # ets) = (let (st', res) = d e t st in res # replay d st' ets)"

text \<open>The requests for one key in a run, with the server's times.\<close>

fun timed_for :: "string \<Rightarrow> ('e \<times> string) list \<Rightarrow> int list \<Rightarrow> ('e \<times> int) list" where
  "timed_for key ((e, k) # rs) (t # ts) = (if k = key then [(e, t)] else []) @ timed_for key rs ts"
| "timed_for key _ _ = []"

subsection \<open>The interface of an algorithm\<close>

text \<open>
  An algorithm: a decision function on the abstract state of a key at a time in milliseconds;
  the states it can have and how the server stores them; its script with the arguments that
  \<open>Allow\<close> passes. The law \<open>script_runs\<close> is what the script promises the limiter.
\<close>

locale redis_algorithm =
  fixes decide :: "'l \<Rightarrow> 'e \<Rightarrow> int \<Rightarrow> 's \<Rightarrow> 's \<times> Result"
    and inv :: "'l \<Rightarrow> 's \<Rightarrow> bool"
    and rep :: "'l \<Rightarrow> redis_value \<Rightarrow> 's \<Rightarrow> bool"
    and start :: "'s"
    and cfg :: "'l \<Rightarrow> bool"
    and lua :: "'w redis \<Rightarrow> 'w script"
    and args_of :: "'l \<Rightarrow> 'e \<Rightarrow> arg list"
  assumes start_ok: "cfg l \<Longrightarrow> inv l start" "rep l Absent start"
    and decide_ok: "cfg l \<Longrightarrow> inv l st \<Longrightarrow> 0 \<le> t \<Longrightarrow> t \<le> max_millis \<Longrightarrow>
        inv l (fst (decide l e t st)) \<and> result_ok (snd (decide l e t st)) \<and> whole_millis (snd (decide l e t st))"
    and script_runs: "cfg l \<Longrightarrow> inv l st \<Longrightarrow> redis_laws ops v \<Longrightarrow> encode_laws enc \<Longrightarrow> rep l (v_val v w key) st \<Longrightarrow>
        millis v w = t \<Longrightarrow> 0 \<le> t \<Longrightarrow> t \<le> max_millis \<Longrightarrow>
        \<exists>w'. lua ops [key] (map enc (args_of l e)) w = (w', Inr (reply_for (snd (decide l e t st))))
          \<and> rep l (v_val v w' key) (fst (decide l e t st)) \<and> (\<forall>k. k \<noteq> key \<longrightarrow> v_val v w' k = v_val v w k)"

locale redis_limiter = redis_algorithm decide inv rep start cfg lua args_of
  for decide :: "'l \<Rightarrow> 'e \<Rightarrow> int \<Rightarrow> 's \<Rightarrow> 's \<times> Result" and inv rep start cfg
    and lua :: "'w redis \<Rightarrow> 'w script" and args_of +
  fixes allow :: "('l \<times> 'w, 'e) limiter"
    and base_of :: "'l \<Rightarrow> 'w r_limiter"
    and script_of :: "'l \<Rightarrow> Script"
    and with_script :: "Script \<Rightarrow> 'l \<Rightarrow> 'l"
    and step_of :: "'e \<Rightarrow> 'w \<Rightarrow> 'w"
  assumes allow_eq: "allow (l, w) e key =
      (case redis_allow (base_of l) (args_of l e) (step_of e) (script_of l) w key of
         ((sc, w'), out) \<Rightarrow> Some ((with_script sc l, w'), out))"
    and get_put: "script_of (with_script sc l) = sc" "with_script (script_of l) l = l"
      "with_script sc (with_script sc' l) = with_script sc l"
    and same_config: "base_of (with_script sc l) = base_of l" "decide (with_script sc l) = decide l"
      "inv (with_script sc l) = inv l" "rep (with_script sc l) = rep l" "cfg (with_script sc l) = cfg l"
      "args_of (with_script sc l) = args_of l"
begin

text \<open>
  A limiter on a server that keeps its promises; the keys of the limiter hold states of the
  algorithm; what the environment may do between two calls.
\<close>

definition served :: "'w backend \<Rightarrow> 'l \<Rightarrow> bool" where
  "served be l \<longleftrightarrow> cfg l \<and> honest be (l_client (base_of l)) (sc_body (script_of l)) lua \<and> sha_ok be (script_of l)"

definition keys_ok :: "'w backend \<Rightarrow> 'l \<Rightarrow> 'w \<Rightarrow> bool" where
  "keys_ok be l w \<longleftrightarrow> (\<forall>key. \<exists>st. rep l (v_val (be_view be) w (keyFor (base_of l) key)) st \<and> inv l st)"

definition gentle :: "'w backend \<Rightarrow> 'l \<Rightarrow> 'e \<Rightarrow> bool" where
  "gentle be l e \<longleftrightarrow> (\<forall>w. keys_ok be l w \<longrightarrow> keys_ok be l (step_of e w)
     \<and> 0 \<le> millis (be_view be) (step_of e w) \<and> millis (be_view be) (step_of e w) \<le> max_millis)"

lemma keyFor_eq [simp]: "keyFor b key = keyFor b key' \<longleftrightarrow> key = key'"
  by (simp add: keyFor_def)

lemma served_with_script:
  "served be l \<Longrightarrow> sha_ok be sc \<Longrightarrow> sc_body sc = sc_body (script_of l) \<Longrightarrow> served be (with_script sc l)"
  "keys_ok be (with_script sc l) = keys_ok be l" "gentle be (with_script sc l) = gentle be l"
  by (simp_all add: served_def keys_ok_def gentle_def get_put same_config fun_eq_iff)

text \<open>One call for a key that is not blank.\<close>

lemma allow_step:
  assumes l: "served be l" and key: "\<not> blank key"
    and st: "rep l (v_val (be_view be) (step_of e w) (keyFor (base_of l) key)) st" "inv l st"
    and t: "millis (be_view be) (step_of e w) = t" "0 \<le> t" "t \<le> max_millis"
  defines "k \<equiv> keyFor (base_of l) key"
  shows "\<exists>sc w' evs. allow (l, w) e key = Some ((with_script sc l, w'), (snd (decide l e t st), None), evs)
     \<and> served be (with_script sc l) \<and> rep l (v_val (be_view be) w' k) (fst (decide l e t st))
     \<and> (\<forall>k'. k' \<noteq> k \<longrightarrow> v_val (be_view be) w' k' = v_val (be_view be) (step_of e w) k')"
proof -
  let ?b = "base_of l" and ?sc = "script_of l" and ?v = "be_view be" and ?res = "snd (decide l e t st)"
  let ?P = "\<lambda>w'. rep l (v_val ?v w' k) (fst (decide l e t st)) \<and> (\<forall>k'. k' \<noteq> k \<longrightarrow> v_val ?v w' k' = v_val ?v (step_of e w) k')"
  have L: "cfg l" "client_laws be (l_client ?b)" "redis_laws (be_redis be) ?v" "encode_laws (be_encode be)"
    "be_script be (sc_body ?sc) = lua (be_redis be)" "sha_ok be ?sc"
    using l by (simp_all add: served_def honest_def)
  have "\<exists>w2. be_script be (sc_body ?sc) [k] (map (be_encode be) (args_of l e)) w1 = (w2, Inr (reply_for ?res)) \<and> ?P w2"
    if "same_data be (step_of e w) w1" for w1
  proof -
    have "rep l (v_val ?v w1 k) st" "millis ?v w1 = t"
      using that st t(1) by (simp_all add: same_data_def k_def millis_def)
    then show ?thesis
      using script_runs [OF L(1) st(2) L(3,4), of w1 k t e] t that unfolding L(5) by (simp add: same_data_def)
  qed
  from Script_Run_honest [OF L(2,6) this]
  obtain w2 where run: "Script_Run (l_client ?b) ?sc (step_of e w) [k] (args_of l e)
      = ((?sc\<lparr>sha := be_sha be (sc_body ?sc)\<rparr>, w2), Inr (reply_for ?res))" "?P w2" by blast
  have "whole_millis ?res" using decide_ok [OF L(1) st(2) t(2,3)] by simp
  then have "redis_allow ?b (args_of l e) (step_of e) ?sc w key
      = ((?sc\<lparr>sha := be_sha be (sc_body ?sc)\<rparr>, w2), (?res, None), r_emit ?b ?res)"
    using key run(1) by (simp add: redis_allow_def redis_validateKey_def decide_reply_for k_def)
  moreover have "served be (with_script (?sc\<lparr>sha := be_sha be (sc_body ?sc)\<rparr>) l)"
    using l by (intro served_with_script) (simp_all add: sha_ok_def)
  ultimately show ?thesis using run(2) by (auto simp: allow_eq)
qed

text \<open>A new limiter on a server that has none of its keys; expiry is no harm.\<close>

lemma no_keys_ok: "served be l \<Longrightarrow> no_keys be (base_of l) w \<Longrightarrow> keys_ok be l w"
  using start_ok by (auto simp: keys_ok_def no_keys_def served_def)

lemma benign_gentle: "served be l \<Longrightarrow> benign be (base_of l) (step_of e) \<Longrightarrow> gentle be l e"
  unfolding gentle_def keys_ok_def benign_def using start_ok by (simp add: served_def) (metis insertE singletonD)

lemma allow_blank:
  "blank key \<Longrightarrow> allow (l, w) e key = Some ((l, w), (zero_Result, Some RedisBlankKey), r_emitError (base_of l) RedisBlankKey)"
  by (simp add: allow_eq redis_allow_blank get_put)

text \<open>The limiter keeps the contract of \<open>kaka.Limiter\<close>.\<close>

lemma contract:
  "limiter_contract allow (\<lambda>(l, w). (\<exists>sc. l = with_script sc l0) \<and> served be l \<and> keys_ok be l0 w)
     (\<lambda>s e. gentle be l0 e) (\<lambda>e e'. gentle be l0 e')"
proof unfold_locales
  fix s e key
  assume "case s of (l, w) \<Rightarrow> (\<exists>sc. l = with_script sc l0) \<and> served be l \<and> keys_ok be l0 w" and g: "gentle be l0 e"
  then obtain l w sc0 where s: "s = (l, w)" "l = with_script sc0 l0" "served be l" "keys_ok be l0 w" by auto
  let ?v = "be_view be" and ?w = "step_of e w"
  have w: "keys_ok be l0 ?w" "0 \<le> millis ?v ?w" "millis ?v ?w \<le> max_millis" using g s(4) by (simp_all add: gentle_def)
  obtain st where st: "rep l (v_val ?v ?w (keyFor (base_of l) key)) st" "inv l st"
    using w(1) unfolding keys_ok_def s(2) same_config by blast
  have cfg: "cfg l" using s(3) by (simp add: served_def)
  have step: "\<exists>s' ret evs. allow s e key = Some (s', ret, evs)
     \<and> (case s' of (l, w) \<Rightarrow> (\<exists>sc. l = with_script sc l0) \<and> served be l \<and> keys_ok be l0 w) \<and> return_ok key ret"
  proof (cases "blank key")
    case True
    then show ?thesis using s by (auto simp: allow_blank return_ok_def)
  next
    case False
    let ?d = "decide l e (millis ?v ?w) st"
    obtain sc w' evs where a: "allow (l, w) e key = Some ((with_script sc l, w'), (snd ?d, None), evs)"
      "served be (with_script sc l)" "rep l (v_val ?v w' (keyFor (base_of l) key)) (fst ?d)"
      "\<forall>k'. k' \<noteq> keyFor (base_of l) key \<longrightarrow> v_val ?v w' k' = v_val ?v ?w k'"
      using allow_step [OF s(3) False st _ w(2,3)] by blast
    note d = decide_ok [OF cfg st(2) w(2,3), of e]
    have "\<exists>st. rep l (v_val ?v w' (keyFor (base_of l) k)) st \<and> inv l st" for k
    proof (cases "k = key")
      case True
      then show ?thesis using a(3) d by blast
    next
      case False
      then have "v_val ?v w' (keyFor (base_of l) k) = v_val ?v ?w (keyFor (base_of l) k)" using a(4) by simp
      then show ?thesis using w(1) unfolding keys_ok_def s(2) same_config by metis
    qed
    then have "keys_ok be l0 w'" unfolding keys_ok_def s(2) same_config by blast
    then show ?thesis using a False d by (auto simp: s get_put return_ok_def)
  qed
  then show "\<exists>out. allow s e key = Some out" by blast
  fix s' ret evs
  assume "allow s e key = Some (s', ret, evs)"
  then show "case s' of (l, w) \<Rightarrow> (\<exists>sc. l = with_script sc l0) \<and> served be l \<and> keys_ok be l0 w" "return_ok key ret"
    using step by auto
  show "gentle be l0 e" by (fact g)
next
  fix key s e s' ret evs
  assume "blank key" "allow s e key = Some (s', ret, evs)"
  then show "s' = s" by (cases s) (simp add: allow_blank)
qed

text \<open>
  Every key sees exactly its own decision function, started on an absent key, at the times of
  the server's clock; other keys do not matter.
\<close>

lemma refines:
  assumes "served be l" "rep l (v_val (be_view be) w (keyFor (base_of l) key)) st" "inv l st" "keys_ok be l w"
    and "list_all2 (\<lambda>(e, k) t. quiet be t (step_of e)) rs ts" and key: "\<not> blank key"
  shows "\<exists>s' outs. requests allow (l, w) rs = Some (s', outs)
     \<and> answers_for key rs outs = map (\<lambda>r. (r, None)) (replay (decide l) st (timed_for key rs ts))"
  using assms(1-5)
proof (induction rs arbitrary: l w st ts)
  case Nil
  then show ?case by simp
next
  case (Cons x rs)
  obtain e k where x: "x = (e, k)" by (cases x)
  obtain t us where ts: "ts = t # us" and q: "quiet be t (step_of e)"
    and rest: "list_all2 (\<lambda>(e, k) t. quiet be t (step_of e)) rs us"
    using Cons.prems(5) by (auto simp: x list_all2_Cons1)
  let ?v = "be_view be" and ?w = "step_of e w"
  have t: "0 \<le> t" "t \<le> max_millis" "millis ?v ?w = t" "v_val ?v ?w = v_val ?v w" using q by (simp_all add: quiet_def)
  show ?case
  proof (cases "blank k")
    case True
    then have "k \<noteq> key" using key by auto
    then show ?thesis
      using Cons.IH [OF Cons.prems(1-4) rest] True by (auto simp: x ts allow_blank)
  next
    case False
    obtain st1 where st1: "rep l (v_val ?v ?w (keyFor (base_of l) k)) st1" "inv l st1" "k = key \<longrightarrow> st1 = st"
      using Cons.prems(2-4) unfolding keys_ok_def t(4) by metis
    let ?d = "decide l e t st1"
    obtain sc w' evs where a: "allow (l, w) e k = Some ((with_script sc l, w'), (snd ?d, None), evs)"
      "served be (with_script sc l)" "rep l (v_val ?v w' (keyFor (base_of l) k)) (fst ?d)"
      "\<forall>k'. k' \<noteq> keyFor (base_of l) k \<longrightarrow> v_val ?v w' k' = v_val ?v w k'"
      using allow_step [OF Cons.prems(1) False st1(1,2) t(3,1,2)] unfolding t(4) by blast
    have "cfg l" using Cons.prems(1) by (simp add: served_def)
    note d = decide_ok [OF this st1(2) t(1,2), of e]
    let ?l = "with_script sc l" and ?st = "if k = key then fst ?d else st"
    have "\<exists>st. rep l (v_val ?v w' (keyFor (base_of l) k2)) st \<and> inv l st" for k2
    proof (cases "k2 = k")
      case True
      then show ?thesis using a(3) d by blast
    next
      case False
      then have "v_val ?v w' (keyFor (base_of l) k2) = v_val ?v w (keyFor (base_of l) k2)" using a(4) by simp
      then show ?thesis using Cons.prems(4) unfolding keys_ok_def by metis
    qed
    then have ok: "keys_ok be ?l w'" unfolding keys_ok_def same_config by blast
    have rep: "rep ?l (v_val ?v w' (keyFor (base_of ?l) key)) ?st"
      unfolding same_config using a(3,4) Cons.prems(2) by auto
    have inv: "inv ?l ?st" unfolding same_config using d Cons.prems(3) by simp
    obtain s' outs where IH: "requests allow (?l, w') rs = Some (s', outs)"
      "answers_for key rs outs = map (\<lambda>r. (r, None)) (replay (decide l) ?st (timed_for key rs us))"
      using Cons.IH [OF a(2) rep inv ok rest] unfolding same_config by blast
    have "answers_for key (x # rs) (((snd ?d, None), evs) # outs)
        = map (\<lambda>r. (r, None)) (replay (decide l) st (timed_for key (x # rs) ts))"
      using IH(2) st1(3) by (simp add: x ts case_prod_beta Let_def)
    then show ?thesis using a(1) IH(1) by (simp add: x)
  qed
qed

text \<open>Both for a new limiter.\<close>

lemma new_contract:
  assumes "served be l" "no_keys be (base_of l) w" "\<forall>(e, key) \<in> set rs. benign be (base_of l) (step_of e)"
  shows "\<exists>s' outs. requests allow (l, w) rs = Some (s', outs) \<and> length outs = length rs
     \<and> list_all2 (\<lambda>(e, key) (ret, evs). return_ok key ret) rs outs"
proof -
  have g: "\<forall>e \<in> set (map fst rs). gentle be l e" using assms(1,3) benign_gentle by fastforce
  then have "successively (\<lambda>e e'. gentle be l e') (map fst rs)"
    by (induction rs rule: induct_list012) auto
  moreover have "rs \<noteq> [] \<Longrightarrow> gentle be l (fst (hd rs))" using g by simp
  moreover have "\<exists>sc. l = with_script sc l" using get_put(2) by metis
  ultimately show ?thesis
    using limiter_contract.requests_contract [OF contract [of l be], of "(l, w)" rs] assms(1) no_keys_ok [OF assms(1,2)]
    by auto
qed

lemma new_refines:
  assumes "served be l" "no_keys be (base_of l) w" "\<not> blank key"
    and "list_all2 (\<lambda>(e, k) t. quiet be t (step_of e)) rs ts"
  shows "\<exists>s' outs. requests allow (l, w) rs = Some (s', outs)
     \<and> answers_for key rs outs = map (\<lambda>r. (r, None)) (replay (decide l) start (timed_for key rs ts))"
proof -
  have "rep l (v_val (be_view be) w (keyFor (base_of l) key)) start" "inv l start"
    using assms(1,2) start_ok by (auto simp: no_keys_def served_def)
  then show ?thesis using refines [OF assms(1) _ _ no_keys_ok [OF assms(1,2)] assms(4,3)] by blast
qed

end

end
