(* ===== verification/Go_Format.thy ===== *)
theory Go_Format
  imports Main
begin

section \<open>Decimal numerals\<close>

text \<open>
  \<open>fmt.Sprintf("%d", n)\<close>: the decimal numeral of an integer, and a reader of such numerals that
  undoes it.
\<close>

fun show_nat :: "nat \<Rightarrow> string" where
  "show_nat n = (if n < 10 then [char_of (48 + n)] else show_nat (n div 10) @ [char_of (48 + n mod 10)])"

declare show_nat.simps [simp del]

definition show_int :: "int \<Rightarrow> string" where
  "show_int n = (if n < 0 then ''-'' else '''') @ show_nat (nat \<bar>n\<bar>)"

fun read_nat :: "nat \<Rightarrow> string \<Rightarrow> nat option" where
  "read_nat acc [] = Some acc"
| "read_nat acc (c # s) =
     (let n = of_char c in if 48 \<le> n \<and> n \<le> 57 then read_nat (10 * acc + (n - 48)) s else None)"

definition read_int :: "string \<Rightarrow> int option" where
  "read_int s =
     (case s of
        [] \<Rightarrow> None
      | c # s' \<Rightarrow> if c = CHR ''-'' then (if s' = [] then None else map_option (\<lambda>n. - int n) (read_nat 0 s'))
                  else map_option int (read_nat 0 s))"

lemma read_nat_append: "read_nat acc (s @ t) = Option.bind (read_nat acc s) (\<lambda>n. read_nat n t)"
  by (induction s arbitrary: acc) (auto simp: Let_def)

lemma read_nat_digit: "d < 10 \<Longrightarrow> read_nat acc [char_of (48 + d)] = Some (10 * acc + d)"
  by simp

lemma read_show_nat: "read_nat 0 (show_nat n) = Some n"
proof (induction n rule: show_nat.induct)
  case (1 n)
  show ?case
  proof (cases "n < 10")
    case True
    then show ?thesis by (simp add: show_nat.simps [of n])
  next
    case False
    have "read_nat 0 (show_nat n) = Option.bind (read_nat 0 (show_nat (n div 10))) (\<lambda>m. read_nat m [char_of (48 + n mod 10)])"
      using False by (simp only: show_nat.simps [of n] if_False read_nat_append)
    also have "\<dots> = Some (10 * (n div 10) + n mod 10)"
      using 1 [OF False] read_nat_digit [of "n mod 10" "n div 10"] by simp
    finally show ?thesis by simp
  qed
qed

lemma show_nat_hd: "\<exists>(d :: nat) s. d < 10 \<and> show_nat n = char_of (48 + d) # s"
proof (induction n rule: show_nat.induct)
  case (1 n)
  then show ?case by (cases "n < 10"; subst show_nat.simps) fastforce+
qed

lemma read_show_int: "read_int (show_int n) = Some n"
proof -
  obtain d :: nat and s where d: "d < 10" and s: "show_nat (nat \<bar>n\<bar>) = char_of (48 + d) # s" using show_nat_hd by blast
  have "(char_of (48 + d) :: char) \<noteq> CHR ''-''"
  proof
    assume "(char_of (48 + d) :: char) = CHR ''-''"
    then have "(of_char (char_of (48 + d) :: char) :: nat) = of_char (CHR ''-'')" by simp
    then show False using d by simp
  qed
  then show ?thesis
    using read_show_nat [of "nat \<bar>n\<bar>"] s by (cases "n < 0") (auto simp: read_int_def show_int_def split: list.split)
qed

end
