(* ===== verification/Redis_Server.thy ===== *)
theory Redis_Server
  imports Redis_Contract Go_Format
begin

section \<open>A server that satisfies the laws\<close>

text \<open>
  An instance of the hypotheses about Redis and its client, so that the theorems about the Redis
  limiters can be applied: values as mathematical maps, a clock that only the environment moves,
  numbers written out exactly in decimal notation (every double is a multiple of
  \<open>10\<^sup>-\<^sup>1\<^sup>0\<^sup>7\<^sup>4\<close>).
\<close>

subsection \<open>Decimal numerals\<close>

lemma digit_char: "d < 10 \<Longrightarrow> digit (char_of (48 + d)) = Some d"
  by (simp add: digit_def)

lemma digits_show_nat:
  "\<exists>j. digits 0 0 (show_nat n @ s) = digits n (Suc j) s"
proof (induction n arbitrary: s rule: show_nat.induct)
  case (1 n)
  show ?case
  proof (cases "n < 10")
    case True
    then have "digits 0 0 (show_nat n @ s) = digits n (Suc 0) s" by (subst show_nat.simps) (simp add: digit_char)
    then show ?thesis by blast
  next
    case False
    obtain j where "digits 0 0 (show_nat (n div 10) @ [char_of (48 + n mod 10)] @ s)
        = digits (n div 10) (Suc j) ([char_of (48 + n mod 10)] @ s)"
      using 1 False by blast
    then have "digits 0 0 (show_nat n @ s) = digits n (Suc (Suc j)) s"
      using False by (subst show_nat.simps) (simp add: digit_char)
    then show ?thesis by blast
  qed
qed

lemma show_nat_chars: "show_nat n \<noteq> [] \<and> (\<forall>c \<in> set (show_nat n). digit c \<noteq> None)"
proof (induction n rule: show_nat.induct)
  case (1 n)
  then show ?case by (subst (1 2) show_nat.simps) (auto simp: digit_char)
qed

lemma unsigned_number_show:
  "unsigned_number (show_nat n) = Some (of_nat n)"
  "unsigned_number (show_nat n @ ''e-'' @ show_nat k) = Some (of_nat n * pow10 (- int k))"
proof -
  obtain j where "digits 0 0 (show_nat n @ []) = digits n (Suc j) []" using digits_show_nat by blast
  then show "unsigned_number (show_nat n) = Some (of_nat n)"
    by (simp add: unsigned_number_def exponent_def pow10_def)
  obtain i where i: "digits 0 0 (show_nat n @ ''e-'' @ show_nat k) = digits n (Suc i) (''e-'' @ show_nat k)"
    using digits_show_nat by blast
  have "digit (CHR ''e'') = None" by (simp add: digit_def)
  moreover obtain h where "digits 0 0 (show_nat k @ []) = digits k (Suc h) []" using digits_show_nat by blast
  ultimately show "unsigned_number (show_nat n @ ''e-'' @ show_nat k) = Some (of_nat n * pow10 (- int k))"
    using i by (simp add: unsigned_number_def exponent_def sign_def)
qed

text \<open>A sign in front, and the characters at the ends.\<close>

lemma digit_facts:
  assumes "digit c \<noteq> None"
  shows "\<not> c_space c" "c \<noteq> CHR ''-''" "c \<noteq> CHR ''+''" "lower [c] = [c]" "c \<noteq> CHR ''i''" "c \<noteq> CHR ''n''"
  using assms by (auto simp: digit_def c_space_def lower_def Let_def split: if_splits)

definition numeral_string :: "string \<Rightarrow> bool" where
  "numeral_string u \<longleftrightarrow> u \<noteq> [] \<and> digit (hd u) \<noteq> None \<and> digit (last u) \<noteq> None"

lemma numeral_string_show: "numeral_string (show_nat n)" "numeral_string (show_nat n @ ''e-'' @ show_nat k)"
proof -
  have "digit (hd (show_nat n)) \<noteq> None" "digit (last (show_nat n)) \<noteq> None" "show_nat n \<noteq> []" for n
    using show_nat_chars [of n] hd_in_set last_in_set by blast+
  then show "numeral_string (show_nat n)" "numeral_string (show_nat n @ ''e-'' @ show_nat k)"
    by (simp_all add: numeral_string_def)
qed

lemma tonumber_numeral:
  assumes u: "numeral_string u" and q: "unsigned_number u = Some q"
  shows "tonumber ((if neg then ''-'' else '''') @ u) = Some (rnd64 (if neg then - q else q))"
proof -
  obtain c u' where c: "u = c # u'" "digit c \<noteq> None" using u by (cases u) (auto simp: numeral_string_def)
  obtain l u'' where l: "rev u = l # u''" "digit l \<noteq> None"
    using u by (cases u rule: rev_cases) (auto simp: numeral_string_def)
  let ?s = "(if neg then ''-'' else '''') @ u"
  have "c_space (CHR ''-'') = False" by (simp add: c_space_def)
  then have front: "dropWhile c_space ?s = ?s" using digit_facts(1) [OF c(2)] by (simp add: c(1))
  have "dropWhile c_space (rev ?s) = rev ?s" using digit_facts(1) [OF l(2)] by (simp add: l(1))
  then have strip: "rev (dropWhile c_space (rev (dropWhile c_space ?s))) = ?s" by (simp only: front rev_rev_ident)
  have sgn: "sign ?s = (neg, u)" using digit_facts(2,3) [OF c(2)] by (simp add: sign_def c(1))
  have "lower u = c # lower u'" using digit_facts(4) [OF c(2)] by (simp add: c(1) lower_def)
  then have "lower u \<noteq> ''inf''" "lower u \<noteq> ''infinity''" "lower u \<noteq> ''nan''" using digit_facts(5,6) [OF c(2)] by auto
  then show ?thesis unfolding tonumber_def strip Let_def sgn using q by simp
qed

definition places :: nat where
  "places = 1074"

definition show_float :: "float64 \<Rightarrow> string" where
  "show_float v = (case v of
      Fin x \<Rightarrow> (if x < 0 then ''-'' else '''') @ show_nat (nat \<lfloor>\<bar>x\<bar> * 10 ^ places\<rfloor>) @ ''e-'' @ show_nat places
    | PInf \<Rightarrow> ''inf'' | NInf \<Rightarrow> ''-inf'' | NaN \<Rightarrow> ''nan'')"

lemma tonumber_show_int: "tonumber (show_int n) = Some (f64_of_int n)"
proof -
  have "(of_nat (nat \<bar>n\<bar>) :: rat) = of_int \<bar>n\<bar>" by (simp add: of_nat_nat)
  then show ?thesis
    unfolding show_int_def f64_of_int_def
    by (subst tonumber_numeral [OF numeral_string_show(1) unsigned_number_show(1)]) simp
qed

lemma F64_times_ten:
  assumes "x \<in> F64"
  shows "of_int \<lfloor>x * 10 ^ places\<rfloor> = x * 10 ^ places"
proof -
  obtain m e where x: "x = of_int m * 2 powi e" "- int places \<le> e"
    using assms by (auto simp: F64_def places_def)
  have "(10::rat) ^ places = 5 ^ places * 2 ^ places" unfolding power_mult_distrib [symmetric] by simp
  also have "(2::rat) ^ places = 2 powi int places" by simp
  finally have "x * 10 ^ places = of_int m * 5 ^ places * 2 powi (e + int places)"
    by (simp add: x(1) power_int_add del: power_int_of_nat)
  also have "(2::rat) powi (e + int places) = 2 ^ nat (e + int places)" using x(2) by (simp add: power_int_def)
  finally have "x * 10 ^ places = of_int (m * 5 ^ places * 2 ^ nat (e + int places))" by simp
  then show ?thesis by (simp only: floor_of_int)
qed

lemma tonumber_show_float:
  assumes "is_f64 (Fin x)"
  shows "tonumber (show_float (Fin x)) = Some (Fin x)"
proof -
  let ?n = "nat \<lfloor>\<bar>x\<bar> * 10 ^ places\<rfloor>"
  have "\<bar>x\<bar> \<in> F64" using is_f64_FinD(1) [OF assms] F64_minus by (simp add: abs_if)
  then have "of_int \<lfloor>\<bar>x\<bar> * 10 ^ places\<rfloor> = \<bar>x\<bar> * 10 ^ places" by (rule F64_times_ten)
  moreover have "0 \<le> \<bar>x\<bar> * 10 ^ places" by (intro mult_nonneg_nonneg) simp_all
  ultimately have "of_nat ?n = \<bar>x\<bar> * 10 ^ places" by (metis of_nat_nat zero_le_floor)
  moreover have "pow10 (- int places) = 1 / 10 ^ places" by (simp add: pow10_def places_def del: power_numeral)
  ultimately have "of_nat ?n * pow10 (- int places) = \<bar>x\<bar> * 10 ^ places * (1 / 10 ^ places)" by (simp only:)
  then have "of_nat ?n * pow10 (- int places) = \<bar>x\<bar>" by simp
  note n = this
  have "tonumber (show_float (Fin x)) = Some (rnd64 (if x < 0 then - \<bar>x\<bar> else \<bar>x\<bar>))"
    unfolding show_float_def float64.case
      tonumber_numeral [OF numeral_string_show(2) unsigned_number_show(2)] n by (rule refl)
  also have "(if x < 0 then - \<bar>x\<bar> else \<bar>x\<bar>) = x" by simp
  finally show ?thesis using assms by (simp add: is_f64.simps(1))
qed

subsection \<open>The server\<close>

record server =
  srv_clock :: int
  srv_data :: "string \<Rightarrow> redis_value"
  srv_cache :: "string list"

definition srv_put :: "string \<Rightarrow> redis_value \<Rightarrow> server \<Rightarrow> server" where
  "srv_put key val w = w\<lparr>srv_data := (srv_data w)(key := val)\<rparr>"

text \<open>The scores of a sorted set are doubles.\<close>

definition writable :: "redis_value \<Rightarrow> redis_value" where
  "writable val = (case val of
      ZSet z \<Rightarrow> if \<forall>x \<in> ran z. is_f64 x then ZSet z else OtherValue | _ \<Rightarrow> val)"

definition on_hash :: "string \<Rightarrow> ((string \<rightharpoonup> string) \<Rightarrow> server \<Rightarrow> server \<times> 'a) \<Rightarrow> (server, 'a) lua" where
  "on_hash key f w = (case hash_of (srv_data w key) of
      Some h \<Rightarrow> (case f h w of (w', a) \<Rightarrow> (w', Inr a)) | None \<Rightarrow> (w, Inl ''WRONGTYPE''))"

definition on_zset :: "string \<Rightarrow> ((string \<rightharpoonup> float64) \<Rightarrow> server \<Rightarrow> server \<times> 'a) \<Rightarrow> (server, 'a) lua" where
  "on_zset key f w = (case zset_of (writable (srv_data w key)) of
      Some z \<Rightarrow> (case f z w of (w', a) \<Rightarrow> (w', Inr a)) | None \<Rightarrow> (w, Inl ''WRONGTYPE''))"

definition score_of :: "string \<Rightarrow> float64" where
  "score_of s = (case tonumber s of Some x \<Rightarrow> x | None \<Rightarrow> Fin 0)"

definition oldest :: "(string \<rightharpoonup> float64) \<Rightarrow> string" where
  "oldest z = (SOME m. \<exists>x. z m = Some x \<and> (\<forall>y \<in> ran z. \<not> flt y x))"


definition the_redis :: "server redis" where
  "the_redis = \<lparr>
     TIME = (\<lambda>w. (w, Inr [show_int (srv_clock w div 1000000), show_int (srv_clock w mod 1000000)])),
     HMGET = (\<lambda>key fs. on_hash key (\<lambda>h w. (w, map h fs))),
     HSET = (\<lambda>key kvs. on_hash key (\<lambda>h w. (srv_put key (Hash (fold (\<lambda>(f, v) h. h(f \<mapsto> v)) kvs h)) w, 0))),
     PEXPIRE = (\<lambda>key ms w. (w, Inr 1)),
     ZREMRANGEBYSCORE = (\<lambda>key lo hi. on_zset key (\<lambda>z w.
        (srv_put key (zset_value (z |` {k. \<exists>x. z k = Some x \<and> flt (score_of hi) x})) w, 0))),
     ZCARD = (\<lambda>key. on_zset key (\<lambda>z w. (w, int (card (dom z))))),
     ZADD = (\<lambda>key s m. on_zset key (\<lambda>z w. (srv_put key (ZSet (z(m \<mapsto> score_of s))) w, 1))),
     ZRANGE_WITHSCORES = (\<lambda>key i j. on_zset key (\<lambda>z w. (w, [oldest z, show_float (the (z (oldest z)))]))),
     numberArg = show_float,
     replyInt = int64_of_f64\<rparr>"

definition the_view :: "server redis_view" where
  "the_view = \<lparr>v_now = (\<lambda>w. (srv_clock w div 1000000, srv_clock w mod 1000000)),
     v_val = (\<lambda>w key. writable (srv_data w key))\<rparr>"

text \<open>The scripts are known by their names; the SHA1 of a script is its text with a prefix.\<close>

definition the_script :: "string \<Rightarrow> server script" where
  "the_script body = (if body = ''token_bucket.lua'' then token_bucket_lua the_redis
     else if body = ''leaky_bucket.lua'' then leaky_bucket_lua the_redis else sliding_window_log_lua the_redis)"

definition the_encode :: "arg \<Rightarrow> string" where
  "the_encode a = (case a of ArgFloat x \<Rightarrow> show_float x | ArgInt n \<Rightarrow> show_int n | ArgStr s \<Rightarrow> s)"

definition the_client :: "server client" where
  "the_client = \<lparr>
     ScriptLoad = (\<lambda>w body. (w\<lparr>srv_cache := (''#'' @ body) # srv_cache w\<rparr>, Inr (''#'' @ body))),
     EvalSha = (\<lambda>w sh keys args.
       if sh \<in> set (srv_cache w) then the_script (tl sh) keys (map the_encode args) w
       else (w, Inl ''NOSCRIPT No matching script''))\<rparr>"

definition the_backend :: "server backend" where
  "the_backend = \<lparr>be_redis = the_redis, be_view = the_view, be_encode = the_encode, be_sha = (\<lambda>body. ''#'' @ body),
     be_cached = (\<lambda>w sh. sh \<in> set (srv_cache w)), be_script = the_script\<rparr>"

subsection \<open>The laws\<close>

lemma tonumber_f64: "tonumber s = Some x \<Longrightarrow> is_f64 x"
  by (auto simp: tonumber_def Let_def split: prod.splits if_splits)

lemma tonumber_show: "is_f64 x \<Longrightarrow> tonumber (show_float x) = Some x"
proof (cases x)
  case PInf
  have "tonumber ''inf'' = Some PInf" by code_simp
  then show ?thesis by (simp add: PInf show_float_def)
next
  case NInf
  have "tonumber ''-inf'' = Some NInf" by code_simp
  then show ?thesis by (simp add: NInf show_float_def)
next
  case NaN
  have "tonumber ''nan'' = Some NaN" by code_simp
  then show ?thesis by (simp add: NaN show_float_def)
qed (simp add: tonumber_show_float)

lemma flt_trans: "flt x y \<Longrightarrow> flt y z \<Longrightarrow> flt x z"
  by (cases x; cases y; cases z) auto

lemma flt_irrefl: "\<not> flt x x"
  by (cases x) auto

lemma ex_least: "finite S \<Longrightarrow> S \<noteq> {} \<Longrightarrow> \<exists>x \<in> S. \<forall>y \<in> S. \<not> flt y x"
proof (induction rule: finite_ne_induct)
  case (singleton x)
  then show ?case by (simp add: flt_irrefl)
next
  case (insert a S)
  then obtain x where x: "x \<in> S" "\<forall>y \<in> S. \<not> flt y x" by blast
  then show ?case using flt_trans flt_irrefl by (cases "flt a x") blast+
qed

lemma oldest_least:
  assumes "finite (dom z)" "z \<noteq> Map.empty"
  shows "\<exists>x. z (oldest z) = Some x \<and> (\<forall>y \<in> ran z. \<not> flt y x)"
proof -
  have "finite (ran z)" using assms(1) by (rule finite_ran)
  moreover have "ran z \<noteq> {}" using assms(2) by (auto simp: ran_def fun_eq_iff)
  ultimately
  obtain x where x: "x \<in> ran z" "\<forall>y \<in> ran z. \<not> flt y x" using ex_least by blast
  then obtain m where "z m = Some x" by (auto simp: ran_def)
  then have "\<exists>m x. z m = Some x \<and> (\<forall>y \<in> ran z. \<not> flt y x)" using x(2) by blast
  then show ?thesis unfolding oldest_def by (rule someI_ex)
qed

lemma zset_of_writable: "zset_of (writable val) = Some z \<Longrightarrow> finite (dom z) \<and> (\<forall>x \<in> ran z. is_f64 x)"
  by (cases val) (auto simp: writable_def split: if_splits)

lemma writable_simps [simp]:
  "writable (Hash h) = Hash h" "hash_of (writable val) = hash_of val" "writable (writable val) = writable val"
  by (auto simp: writable_def split: redis_value.splits)

lemma writable_zset: "\<forall>x \<in> ran z. is_f64 x \<Longrightarrow> writable (ZSet z) = ZSet z \<and> writable (zset_value z) = zset_value z"
  by (auto simp: writable_def zset_value_def)

lemma in_int64_trunc: "\<bar>x\<bar> < 2 ^ 63 \<Longrightarrow> in_int64 (trunc x)"
  by (auto simp: in_int64_def trunc_def min_int64_def max_int64_def abs_if floor_less_iff le_floor_iff
      ceiling_le_iff less_ceiling_iff split: if_splits)

lemma the_zset_laws: "zset_laws the_redis the_view"
proof -
  note defs = the_redis_def the_view_def on_zset_def srv_put_def
  have rem: "\<exists>r' n. ZREMRANGEBYSCORE the_redis key ''-inf'' s r = (r', Inr n)
      \<and> v_val the_view r' = (v_val the_view r)(key := zset_value (z |` {k. \<exists>x. z k = Some x \<and> flt m x}))"
    if "zset_of (v_val the_view r key) = Some z" "tonumber s = Some m" for r key s m z
  proof -
    have "\<forall>x \<in> ran (z |` {k. \<exists>x. z k = Some x \<and> flt m x}). is_f64 x"
      using zset_of_writable that(1) by (fastforce simp: the_view_def ran_def restrict_map_def split: if_splits)
    from writable_zset [OF this] show ?thesis using that by (auto simp: defs score_of_def fun_eq_iff)
  qed
  have add: "\<exists>r' n. ZADD the_redis key s m r = (r', Inr n) \<and> v_val the_view r' = (v_val the_view r)(key := ZSet (z(m \<mapsto> Fin x)))"
    if "zset_of (v_val the_view r key) = Some z" "tonumber s = Some (Fin x)" for r key s x m z
  proof -
    have "\<forall>y \<in> ran (z(m \<mapsto> Fin x)). is_f64 y"
      using zset_of_writable that tonumber_f64 [OF that(2)] by (fastforce simp: the_view_def ran_def split: if_splits)
    from writable_zset [OF this] show ?thesis using that by (auto simp: defs score_of_def fun_eq_iff)
  qed
  have range: "\<exists>m x s. ZRANGE_WITHSCORES the_redis key ''0'' ''0'' r = (r, Inr [m, s])
      \<and> z m = Some x \<and> tonumber s = Some x \<and> (\<forall>y \<in> ran z. \<not> flt y x)"
    if a: "zset_of (v_val the_view r key) = Some z" "z \<noteq> Map.empty" for r key z
  proof -
    have w: "finite (dom z)" "\<forall>x \<in> ran z. is_f64 x" using a(1) zset_of_writable by (auto simp: the_view_def)
    obtain x where x: "z (oldest z) = Some x" "\<forall>y \<in> ran z. \<not> flt y x" using oldest_least [OF w(1) a(2)] by blast
    then have "tonumber (show_float x) = Some x" using w(2) by (intro tonumber_show) (auto intro: ranI)
    then show ?thesis using a x by (simp add: defs)
  qed
  have "ZCARD the_redis key r = (r, Inr (int (card (dom z))))" if "zset_of (v_val the_view r key) = Some z" for r key z
    using that by (simp add: defs)
  then show ?thesis using rem add range unfolding zset_laws_def by blast
qed

lemma the_redis_laws: "redis_laws the_redis the_view"
proof -
  have t: "time_law the_redis the_view"
    by (simp add: time_law_def the_redis_def the_view_def tonumber_show_int)
  have h: "hash_laws the_redis the_view"
    by (auto simp: hash_laws_def the_redis_def the_view_def on_hash_def srv_put_def fun_eq_iff)
  have n: "number_laws the_redis the_view"
    by (simp add: number_laws_def the_redis_def tonumber_show_float in_int64_trunc)
  show ?thesis using t h n the_zset_laws by (simp add: redis_laws_def)
qed

lemma the_client_laws: "client_laws the_backend the_client"
  by (auto simp: client_laws_def the_backend_def the_client_def the_view_def isNoScriptErr_def)

lemma the_encode_laws: "encode_laws the_encode"
  by (simp add: encode_laws_def the_encode_def tonumber_show_float tonumber_show_int)

lemma the_honest:
  "honest the_backend the_client ''token_bucket.lua'' token_bucket_lua"
  "honest the_backend the_client ''leaky_bucket.lua'' leaky_bucket_lua"
  "honest the_backend the_client ''sliding_window_log.lua'' sliding_window_log_lua"
  using the_client_laws the_redis_laws the_encode_laws
  by (simp_all add: honest_def the_backend_def the_script_def)

text \<open>An empty server, and the step of the environment that sets the clock.\<close>

definition empty_server :: server where
  "empty_server = \<lparr>srv_clock = 0, srv_data = (\<lambda>key. Absent), srv_cache = []\<rparr>"

definition at_millis :: "int \<Rightarrow> server \<Rightarrow> server" where
  "at_millis t w = w\<lparr>srv_clock := t * 1000\<rparr>"

lemma no_keys_empty_server: "no_keys the_backend base empty_server"
  by (simp add: no_keys_def the_backend_def the_view_def empty_server_def writable_def)

lemma millis_at: "millis the_view (at_millis t w) = t"
proof -
  have "t * 1000 = t div 1000 * 1000000 + t mod 1000 * 1000"
    using div_mult_mod_eq [of t 1000] by linarith
  moreover have "t * 1000 div 1000000 = t div 1000" "t * 1000 mod 1000000 = t mod 1000 * 1000"
    using div_mult_mult2 [of 1000 t 1000] mod_mult_mult2 [of t 1000 1000] by simp_all
  ultimately show ?thesis by (simp add: millis_def the_view_def at_millis_def)
qed

lemma quiet_at: "0 \<le> t \<Longrightarrow> t \<le> max_millis \<Longrightarrow> quiet the_backend t (at_millis t)"
  using millis_at by (simp add: quiet_def the_backend_def the_view_def at_millis_def)

lemma benign_at: "0 \<le> t \<Longrightarrow> t \<le> max_millis \<Longrightarrow> benign the_backend base (at_millis t)"
  using millis_at by (simp add: benign_def the_backend_def the_view_def at_millis_def)

end

