(* ===== verification/Redis_Buckets.thy ===== *)
theory Redis_Buckets
  imports Redis_Server
begin

section \<open>What the two bucket scripts share\<close>

text \<open>
  A bucket of the Redis limiters is a hash with an amount and the time of its last update in
  milliseconds. Here: how a state is stored in the hash, what the script reads back, and the
  amount that flows at a rate in a number of milliseconds, in the doubles of Lua.
\<close>

definition fin_of :: "float64 \<Rightarrow> rat" where
  "fin_of v = (case v of Fin x \<Rightarrow> x | _ \<Rightarrow> 0)"

lemma fin_of_Fin [simp]: "fin_of (Fin x) = x"
  by (simp add: fin_of_def)

type_synonym bucket_state = "(rat \<times> int) option"

definition bucket_rep :: "string \<Rightarrow> string \<Rightarrow> redis_value \<Rightarrow> bucket_state \<Rightarrow> bool" where
  "bucket_rep f g val st \<longleftrightarrow> (case st of
      None \<Rightarrow> val = Absent
    | Some (x, lst) \<Rightarrow> \<exists>h a b. val = Hash h \<and> h f = Some a \<and> h g = Some b
        \<and> tonumber a = Some (Fin x) \<and> tonumber b = Some (Fin (of_int lst)))"

definition bucket_inv :: "rat \<Rightarrow> bucket_state \<Rightarrow> bool" where
  "bucket_inv c st \<longleftrightarrow> (case st of
      None \<Rightarrow> True | Some (x, lst) \<Rightarrow> is_f64 (Fin x) \<and> 0 \<le> x \<and> x \<le> c \<and> 0 \<le> lst \<and> lst \<le> max_millis)"

text \<open>The amount, the stored time and the time to go on with.\<close>

definition open_bucket :: "rat \<Rightarrow> int \<Rightarrow> bucket_state \<Rightarrow> rat \<times> int \<times> int" where
  "open_bucket a t st = (case st of None \<Rightarrow> (a, t, t) | Some (x, lst) \<Rightarrow> (x, lst, max t lst))"

lemma open_bucket_inv:
  assumes "open_bucket a t st = (x, lst, now)" "bucket_inv c st" "is_f64 (Fin a)" "0 \<le> a" "a \<le> c" "0 \<le> t" "t \<le> max_millis"
  shows "is_f64 (Fin x)" "0 \<le> x" "x \<le> c" "0 \<le> lst" "lst \<le> now" "now \<le> max_millis" "t \<le> now"
  using assms by (auto simp: open_bucket_def bucket_inv_def split: option.splits)

lemma bucket_hash: "bucket_rep f g val st \<Longrightarrow> \<exists>h. hash_of val = Some h"
  by (auto simp: bucket_rep_def split: option.splits)

lemma loadFields_eq:
  assumes "redis_laws ops v" "bucket_rep f g (v_val v w key) st" "open_bucket a t st = (x, lst, now)"
  shows "loadFields ops key f g (Some (Fin a)) (Fin (of_int t)) w
     = (w, Inr (Some (Fin x), Fin (of_int lst), Fin (of_int now)))"
proof (cases st)
  case None
  then have "hash_of (v_val v w key) = Some Map.empty" using assms(2) by (simp add: bucket_rep_def)
  from law_HMGET [OF assms(1) this, of f g] show ?thesis
    using None assms(3) by (simp add: loadFields_def open_bucket_def)
next
  case (Some p)
  obtain h a1 b1 where h: "v_val v w key = Hash h" "h f = Some a1" "h g = Some b1"
    "tonumber a1 = Some (Fin x)" "tonumber b1 = Some (Fin (of_int lst))" and now: "now = max t lst"
    using Some assms(2,3) by (cases p) (auto simp: bucket_rep_def open_bucket_def)
  have "(if flt (Fin (of_int t)) (Fin (of_int lst)) then Fin (of_int lst) else Fin (of_int t)) = Fin (of_int now)"
    by (simp add: now max_def)
  then show ?thesis using law_HMGET [OF assms(1), of w key h f g] h by (simp add: loadFields_def)
qed

lemma store_bucket:
  assumes "redis_laws ops v" "bucket_rep f g (v_val v w key) st" "f \<noteq> g"
    and "is_f64 (Fin y)" "0 \<le> now" "now \<le> max_millis"
  shows "\<exists>w' n. HSET ops key [(f, numberArg ops (Fin y)), (g, numberArg ops (Fin (of_int now)))] w = (w', Inr n)
     \<and> bucket_rep f g (v_val v w' key) (Some (y, now)) \<and> (\<forall>k. k \<noteq> key \<longrightarrow> v_val v w' k = v_val v w k)"
proof -
  obtain h where h: "hash_of (v_val v w key) = Some h" using bucket_hash [OF assms(2)] by blast
  have "is_f64 (Fin (of_int now))" using assms(5,6) by (intro is_f64_int) simp
  then have "tonumber (numberArg ops (Fin y)) = Some (Fin y)"
    "tonumber (numberArg ops (Fin (of_int now))) = Some (Fin (of_int now))"
    using law_numberArg [OF assms(1)] assms(4) by blast+
  then show ?thesis
    using law_HSET [OF assms(1) h, of f "numberArg ops (Fin y)" g "numberArg ops (Fin (of_int now))"] assms(3)
    by (auto simp: bucket_rep_def)
qed

subsection \<open>What flows in a time\<close>

definition flow :: "rat \<Rightarrow> int \<Rightarrow> rat" where
  "flow r d = rnd (rnd (of_int d * r) / 1000)"

lemma flow_nonneg: "0 \<le> d \<Longrightarrow> 0 < r \<Longrightarrow> 0 \<le> flow r d"
  unfolding flow_def by (intro rnd_nonneg divide_nonneg_pos mult_nonneg_nonneg) simp_all

lemma big_F64: "2 ^ 60 \<in> F64"
proof -
  have "(2 ^ 60 :: rat) = of_int 1 * 2 powi 60" by simp
  then show ?thesis unfolding F64_def by fastforce
qed

lemma flow_cases:
  assumes "0 \<le> d" "0 < r"
  obtains "fdiv (fmul (Fin (of_int d)) (Fin r)) (Fin 1000) = Fin (flow r d)"
  | "fdiv (fmul (Fin (of_int d)) (Fin r)) (Fin 1000) = PInf" "2 ^ 60 \<le> flow r d"
proof -
  let ?p = "of_int d * r"
  have "0 \<le> ?p" using assms by simp
  then show thesis
  proof (cases rule: rnd64_nonneg_cases)
    case 1
    have "(2::rat) powi 70 \<le> huge64" unfolding huge64_def by (rule power_int_increasing) simp_all
    then have "2 ^ 60 \<le> rnd ?p / 1000" using 1(2) by simp
    then have "2 ^ 60 \<le> flow r d" unfolding flow_def using big_F64 by (rule ieee.ge_repr)
    then show thesis using that(2) 1(1) by simp
  next
    case 2
    have f: "is_f64 (Fin (rnd ?p))" using is_f64_rnd64 [of ?p] 2(1) by simp
    have "rnd64 (rnd ?p / 1000) = Fin (flow r d)" unfolding flow_def
      using 2 by (intro rnd64_between(1) [OF is_f64_0 f]) simp_all
    then show thesis using that(1) 2(1) by simp
  qed
qed

lemma flow_upper:
  assumes "0 \<le> d" "0 < r"
  shows "flow r d \<le> r * of_int d / 1000 * (1 + 4 * u64) + 2 * eta64"
proof -
  let ?p = "of_int d * r"
  define A where "A = ?p / 1000"
  have A0: "0 \<le> A" and p: "0 \<le> ?p" using assms by (simp_all add: A_def)
  have 1: "rnd ?p \<le> ?p + ?p * u64 + eta64" "0 \<le> rnd ?p" using ieee.upper [of ?p] p rnd_nonneg [OF p] by simp_all
  have 2: "flow r d \<le> rnd ?p / 1000 + rnd ?p / 1000 * u64 + eta64"
    using ieee.upper [of "rnd ?p / 1000"] 1(2) by (simp add: flow_def)
  have q: "rnd ?p / 1000 \<le> A + A * u64 + eta64 / 1000" using 1(1) by (simp add: A_def add_divide_distrib)
  then have "rnd ?p / 1000 * u64 \<le> (A + A * u64 + eta64 / 1000) * u64" using u64_pos by (intro mult_right_mono) simp_all
  also have "\<dots> = A * u64 + A * u64 * u64 + eta64 * u64 / 1000" by (simp add: distrib_right)
  finally have r: "rnd ?p / 1000 * u64 \<le> A * u64 + A * u64 * u64 + eta64 * u64 / 1000" .
  have "A * u64 * u64 \<le> A * u64 * 1" "eta64 * u64 \<le> eta64 * 1"
    using u64_le u64_pos eta64_pos A0 by (intro mult_left_mono; simp)+
  moreover have "0 \<le> A * u64" using A0 u64_pos by simp
  ultimately have "flow r d \<le> A + 4 * (A * u64) + 2 * eta64" using 2 q r eta64_pos by linarith
  moreover have "r * of_int d / 1000 * (1 + 4 * u64) = A + 4 * (A * u64)" by (simp add: A_def distrib_left mult_ac)
  ultimately show ?thesis by (simp only:)
qed

text \<open>The wait for an amount of at most 2 at a rate of at least \<open>2\<^sup>-\<^sup>3\<^sup>2\<close> per second, in milliseconds.\<close>

definition wait_ms :: "rat \<Rightarrow> rat \<Rightarrow> int" where
  "wait_ms r a = \<lceil>rnd (rnd (a * 1000) / r)\<rceil>"

lemma wait_ms_eq:
  assumes a: "is_f64 (Fin a)" "0 \<le> a" "a \<le> 2" and r: "1 / 2 ^ 32 \<le> r"
  shows "fCeil (fdiv (fmul (Fin a) (Fin 1000)) (Fin r)) = Fin (of_int (wait_ms r a))"
    and "0 \<le> wait_ms r a" "wait_ms r a \<le> 2000 * 2 ^ 32"
proof -
  have r0: "0 < r" using r by (simp add: less_le_trans [of 0 "1 / 2 ^ 32"])
  have f2000: "is_f64 (Fin 2000)" using is_f64_int [of 2000] by simp
  have "0 \<le> a * 1000" "a * 1000 \<le> 2000" using a by simp_all
  note m = rnd64_between [OF is_f64_0 f2000 this]
  have "0 \<le> rnd (a * 1000) / r" using m(2) r0 by simp
  moreover have "rnd (a * 1000) / r \<le> 2000 / (1 / 2 ^ 32)" using m r by (intro frac_le) simp_all
  then have "rnd (a * 1000) / r \<le> of_int (2000 * 2 ^ 32)" by simp
  moreover have "is_f64 (Fin (of_int (2000 * 2 ^ 32)))" by (intro is_f64_int) simp
  ultimately have d: "rnd64 (rnd (a * 1000) / r) = Fin (rnd (rnd (a * 1000) / r))"
    "0 \<le> rnd (rnd (a * 1000) / r)" "rnd (rnd (a * 1000) / r) \<le> of_int (2000 * 2 ^ 32)"
    using rnd64_between [OF is_f64_0] by blast+
  show "fCeil (fdiv (fmul (Fin a) (Fin 1000)) (Fin r)) = Fin (of_int (wait_ms r a))"
    using m(1) d(1) r0 by (simp add: fCeil_def wait_ms_def)
  show "0 \<le> wait_ms r a" "wait_ms r a \<le> 2000 * 2 ^ 32"
    using d(2,3) unfolding wait_ms_def by (simp_all add: ceiling_le_iff zero_le_ceiling less_le_trans [of "-1" 0])
qed

lemma wait_result:
  assumes "0 \<le> n" "n \<le> 2000 * 2 ^ 32"
  shows "result_ok \<lparr>Allowed = False, Remaining = 0, RetryAfter = n * Millisecond\<rparr>"
    "whole_millis \<lparr>Allowed = False, Remaining = 0, RetryAfter = n * Millisecond\<rparr>"
  using assms by (simp_all add: result_ok_def whole_millis_def Millisecond_def in_int64_def min_int64_def max_int64_def)

subsection \<open>Runs of a key\<close>

fun replay_state :: "('e \<Rightarrow> int \<Rightarrow> 's \<Rightarrow> 's \<times> Result) \<Rightarrow> 's \<Rightarrow> ('e \<times> int) list \<Rightarrow> 's" where
  "replay_state d st [] = st"
| "replay_state d st ((e, t) # ets) = replay_state d (fst (d e t st)) ets"

lemma replay_drop: "drop m (replay d st ets) = replay d (replay_state d st (take m ets)) (drop m ets)"
proof (induction m arbitrary: st ets)
  case (Suc m)
  then show ?case by (cases ets) (auto simp: case_prod_beta Let_def)
qed simp

lemma replay_take: "take n (replay d st ets) = replay d st (take n ets)"
proof (induction n arbitrary: st ets)
  case (Suc n)
  then show ?case by (cases ets) (auto simp: case_prod_beta Let_def)
qed simp

lemma timed_range:
  assumes "list_all2 (\<lambda>(e, k) t. quiet be t (step_of e)) rs ts"
  shows "\<forall>t \<in> set (map snd (timed_for key rs ts)). 0 \<le> t \<and> t \<le> max_millis"
  using assms
proof (induction rs ts rule: list_all2_induct)
  case (Cons x rs t ts)
  have "0 \<le> t \<and> t \<le> max_millis" using Cons(1) by (cases x) (simp add: quiet_def)
  then show ?case using Cons.IH by (cases x; cases "snd x = key") auto
qed simp

lemma count_allowed_map: "count_allowed (map (\<lambda>r. (r, None)) rs) = length (filter Allowed rs)"
  by (simp add: count_allowed_def filter_map comp_def)

lemma foldl_max: "foldl max (a::int) xs = Max (insert a (set xs))"
proof (induction xs arbitrary: a)
  case (Cons x xs)
  have "Max (insert a (insert x (set xs))) = max a (Max (insert x (set xs)))" by (rule Max_insert) simp_all
  then show ?case using Cons.IH [of "max a x"] by (cases "xs = []") (simp_all add: max.assoc)
qed simp

text \<open>The highest of some times.\<close>

definition peak :: "int list \<Rightarrow> int" where
  "peak ts = Max (set ts)"

lemma peak_Cons: "peak (t # ts) = foldl max t ts"
  by (simp add: peak_def foldl_max)

text \<open>
  A bucket with a credit: what it can still allow at once. A request is paid for from the
  credit; the credit grows with the time that passed on the highest clock reading so far, and
  never exceeds the capacity, up to rounding.
\<close>

locale metered_bucket =
  fixes decide :: "'l \<Rightarrow> 'e \<Rightarrow> int \<Rightarrow> bucket_state \<Rightarrow> bucket_state \<times> Result"
    and cfg :: "'l \<Rightarrow> bool" and cap rate full :: "'l \<Rightarrow> rat" and credit :: "'l \<Rightarrow> rat \<Rightarrow> rat"
  assumes params: "cfg l \<Longrightarrow> 1 \<le> cap l" "cfg l \<Longrightarrow> 0 < rate l"
    and first: "cfg l \<Longrightarrow> decide l e t None = decide l e t (Some (full l, t))"
    and full: "cfg l \<Longrightarrow> is_f64 (Fin (full l))" "cfg l \<Longrightarrow> 0 \<le> full l" "cfg l \<Longrightarrow> full l \<le> cap l"
    and credit_nonneg: "cfg l \<Longrightarrow> bucket_inv (cap l) (Some (x, lst)) \<Longrightarrow> 0 \<le> credit l x"
    and pays: "cfg l \<Longrightarrow> bucket_inv (cap l) (Some (x, lst)) \<Longrightarrow> 0 \<le> t \<Longrightarrow> t \<le> max_millis \<Longrightarrow>
        \<exists>x'. fst (decide l e t (Some (x, lst))) = Some (x', max t lst)
          \<and> (if Allowed (snd (decide l e t (Some (x, lst)))) then 1 else 0) + credit l x'
             \<le> min (cap l) (credit l x + rate l * of_int (max t lst - lst) / 1000 * (1 + 8 * u64)) + 8 * cap l * u64"
    and keeps_inv: "cfg l \<Longrightarrow> bucket_inv (cap l) (Some (x, lst)) \<Longrightarrow> 0 \<le> t \<Longrightarrow> t \<le> max_millis \<Longrightarrow>
        bucket_inv (cap l) (fst (decide l e t (Some (x, lst))))"
begin

lemma state_peak:
  assumes "cfg l" "bucket_inv (cap l) (Some (x, lst))" "\<forall>t \<in> set (map snd ets). 0 \<le> t \<and> t \<le> max_millis"
  shows "\<exists>x'. replay_state (decide l) (Some (x, lst)) ets = Some (x', foldl max lst (map snd ets))
     \<and> bucket_inv (cap l) (Some (x', foldl max lst (map snd ets)))"
  using assms(2,3)
proof (induction ets arbitrary: x lst)
  case (Cons y ets)
  obtain e t where y: "y = (e, t)" by (cases y)
  have t: "0 \<le> t" "t \<le> max_millis" using Cons.prems(2) by (auto simp: y)
  obtain x' where "fst (decide l e t (Some (x, lst))) = Some (x', max t lst)" "bucket_inv (cap l) (Some (x', max t lst))"
    using pays [OF assms(1) Cons.prems(1) t, of e] keeps_inv [OF assms(1) Cons.prems(1) t, of e] by auto
  then show ?case using Cons.IH [of x' "max t lst"] Cons.prems(2) by (simp add: y max.commute)
qed simp

lemma run_cost:
  assumes "cfg l" "bucket_inv (cap l) (Some (x, lst))" "\<forall>t \<in> set (map snd ets). 0 \<le> t \<and> t \<le> max_millis"
  shows "of_nat (length (filter Allowed (replay (decide l) (Some (x, lst)) ets)))
     \<le> credit l x + rate l * of_int (foldl max lst (map snd ets) - lst) / 1000 * (1 + 8 * u64)
        + of_nat (length ets) * (8 * cap l * u64)"
  using assms(2,3)
proof (induction ets arbitrary: x lst)
  case Nil
  then show ?case using credit_nonneg [OF assms(1)] by simp
next
  case (Cons y ets)
  obtain e t where y: "y = (e, t)" by (cases y)
  have t: "0 \<le> t" "t \<le> max_millis" using Cons.prems(2) by (auto simp: y)
  let ?d = "decide l e t (Some (x, lst))" and ?m = "max t lst"
  obtain x' where x': "fst ?d = Some (x', ?m)"
    "(if Allowed (snd ?d) then 1 else 0) + credit l x'
       \<le> credit l x + rate l * of_int (?m - lst) / 1000 * (1 + 8 * u64) + 8 * cap l * u64"
    using pays [OF assms(1) Cons.prems(1) t, of e] by fastforce
  have inv: "bucket_inv (cap l) (Some (x', ?m))" using keeps_inv [OF assms(1) Cons.prems(1) t, of e] x'(1) by simp
  have IH: "of_nat (length (filter Allowed (replay (decide l) (Some (x', ?m)) ets)))
     \<le> credit l x' + rate l * of_int (foldl max ?m (map snd ets) - ?m) / 1000 * (1 + 8 * u64)
        + of_nat (length ets) * (8 * cap l * u64)"
    using Cons.IH [OF inv] Cons.prems(2) by simp
  have "rate l * of_int (foldl max ?m (map snd ets) - lst) / 1000 * (1 + 8 * u64)
      = rate l * of_int (foldl max ?m (map snd ets) - ?m) / 1000 * (1 + 8 * u64)
        + rate l * of_int (?m - lst) / 1000 * (1 + 8 * u64)"
    by (simp add: field_simps)
  moreover have "of_nat (length (y # ets)) * (8 * cap l * u64) = of_nat (length ets) * (8 * cap l * u64) + 8 * cap l * u64"
    by (simp add: distrib_right)
  moreover have "of_nat (length (filter Allowed (replay (decide l) (Some (x, lst)) (y # ets))))
      = (if Allowed (snd ?d) then 1 else 0) + (of_nat (length (filter Allowed (replay (decide l) (Some (x', ?m)) ets))) :: rat)"
    using x'(1) by (simp add: y case_prod_beta Let_def)
  moreover have "foldl max lst (map snd (y # ets)) = foldl max ?m (map snd ets)" by (simp add: y max.commute)
  ultimately show ?case using IH x'(2) by (simp only:)
qed

text \<open>Any stretch of a key's requests, from the first request on an absent key.\<close>

lemma stretch_rate:
  assumes "cfg l" "\<forall>t \<in> set (map snd ets). 0 \<le> t \<and> t \<le> max_millis" "m < length ets" "0 < n"
  defines "ts \<equiv> map snd ets"
  shows "of_nat (length (filter Allowed (take n (drop m (replay (decide l) None ets)))))
     \<le> cap l + rate l * of_int (peak (take (m + n) ts) - peak (take (Suc m) ts)) / 1000 * (1 + 8 * u64)
        + of_nat n * (8 * cap l * u64)"
proof -
  obtain e1 t1 ets1 where ets: "ets = (e1, t1) # ets1" using assms(3) by (cases ets) auto
  have t1: "0 \<le> t1" "t1 \<le> max_millis" using assms(2) by (auto simp: ets)
  have inv1: "bucket_inv (cap l) (Some (full l, t1))" using full [OF assms(1)] t1 by (simp add: bucket_inv_def)
  have start: "replay (decide l) None ets = replay (decide l) (Some (full l, t1)) ets" using first [OF assms(1)] by (simp add: ets)
  let ?L = "foldl max t1 (take m ts)"
  have "\<forall>t \<in> set (map snd (take m ets)). 0 \<le> t \<and> t \<le> max_millis" using assms(2) by (auto dest: in_set_takeD)
  from state_peak [OF assms(1) inv1 this]
  obtain x where x: "replay_state (decide l) (Some (full l, t1)) (take m ets) = Some (x, ?L)" "bucket_inv (cap l) (Some (x, ?L))"
    by (auto simp: ts_def take_map)
  obtain e t where et: "ets ! m = (e, t)" by (cases "ets ! m")
  obtain k where k: "n = Suc k" using assms(4) by (cases n) auto
  let ?us = "take k (drop (Suc m) ets)"
  have dr: "take n (drop m ets) = (e, t) # ?us" using assms(3) et by (simp add: k flip: Cons_nth_drop_Suc)
  have "(e, t) \<in> set ets" using et assms(3) by (metis nth_mem)
  then have t: "0 \<le> t" "t \<le> max_millis" using assms(2) by auto
  have us: "\<forall>t \<in> set (map snd ?us). 0 \<le> t \<and> t \<le> max_millis" using assms(2) by (auto dest!: in_set_takeD in_set_dropD)
  let ?d = "decide l e t (Some (x, ?L))" and ?M = "max t ?L"
  obtain x' where x': "fst ?d = Some (x', ?M)" "(if Allowed (snd ?d) then 1 else 0) + credit l x' \<le> cap l + 8 * cap l * u64"
    using pays [OF assms(1) x(2) t, of e] by fastforce
  have inv: "bucket_inv (cap l) (Some (x', ?M))" using keeps_inv [OF assms(1) x(2) t, of e] x'(1) by simp
  note rest = run_cost [OF assms(1) inv us]
  have "take n (drop m (replay (decide l) None ets)) = snd ?d # replay (decide l) (Some (x', ?M)) ?us"
    unfolding start replay_drop replay_take x(1) dr using x'(1) by (simp add: case_prod_beta Let_def)
  then have cnt: "of_nat (length (filter Allowed (take n (drop m (replay (decide l) None ets)))))
      = (if Allowed (snd ?d) then 1 else 0) + (of_nat (length (filter Allowed (replay (decide l) (Some (x', ?M)) ?us))) :: rat)"
    by simp
  have pk: "peak (take j ts) = foldl max t1 (take j ts)" if "0 < j" for j
    using that by (cases j) (simp_all add: ts_def ets peak_Cons)
  have tk: "take (Suc m) ts = take m ts @ [t]" using assms(3) et by (simp add: ts_def take_Suc_conv_app_nth)
  have M: "peak (take (Suc m) ts) = ?M" using pk [of "Suc m"] unfolding tk by (simp add: max.commute)
  have "take (m + n) ts = take (Suc m) ts @ map snd ?us"     using take_add [of "Suc m" k ets] by (simp add: ts_def k take_map)
  then have F: "peak (take (m + n) ts) = foldl max ?M (map snd ?us)" using pk [of "m + n"] k unfolding tk by (simp add: max.commute)
  have cu: "0 \<le> 8 * cap l * u64" using params(1) [OF assms(1)] u64_pos by simp
  have "of_nat (length ?us) * (8 * cap l * u64) \<le> of_nat k * (8 * cap l * u64)" using cu by (intro mult_right_mono) simp_all
  moreover have "of_nat n * (8 * cap l * u64) = of_nat k * (8 * cap l * u64) + 8 * cap l * u64" by (simp add: k distrib_right)
  ultimately show ?thesis unfolding cnt M F using rest x'(2) by linarith
qed

end

end
