(* ===== verification/Redis_TokenBucket.thy ===== *)
theory Redis_TokenBucket
  imports Redis_Buckets
begin

section \<open>The Redis token bucket\<close>

text \<open>
  The decision function that \<open>token_bucket.lua\<close> implements on a key's tokens and last refill, and
  the rate it guarantees.
\<close>

text \<open>The tokens after \<open>d\<close> milliseconds.\<close>

definition refilled_ms :: "rat \<Rightarrow> rat \<Rightarrow> rat \<Rightarrow> int \<Rightarrow> rat" where
  "refilled_ms c r x d = (if 0 < d then min c (rnd (x + flow r d)) else x)"

definition rtb_decide :: "'w r_TokenBucket \<Rightarrow> ('w \<Rightarrow> 'w) \<Rightarrow> int \<Rightarrow> bucket_state \<Rightarrow> bucket_state \<times> Result" where
  "rtb_decide l e t st =
     (let c = fin_of (rtb_capacity l); r = fin_of (rtb_rate l); (x, lst, now) = open_bucket c t st;
          y = refilled_ms c r x (now - lst)
      in if 1 \<le> y
         then (Some (rnd (y - 1), now), \<lparr>Allowed = True, Remaining = \<lfloor>rnd (y - 1)\<rfloor>, RetryAfter = 0\<rparr>)
         else (Some (y, now), \<lparr>Allowed = False, Remaining = 0, RetryAfter = wait_ms r (rnd (1 - y)) * Millisecond\<rparr>))"

definition rtb_cfg :: "'w r_TokenBucket \<Rightarrow> bool" where
  "rtb_cfg l \<longleftrightarrow> (\<exists>c r. rtb_capacity l = Fin c \<and> rtb_rate l = Fin r \<and> is_f64 (Fin c) \<and> is_f64 (Fin r)
     \<and> 1 \<le> c \<and> c \<le> 2 ^ 52 \<and> 1 / 2 ^ 32 \<le> r) \<and> \<bar>Milliseconds (r_keyTTL (l_opts (rtb_base l)))\<bar> \<le> 2 ^ 53"

abbreviation token_rep :: "redis_value \<Rightarrow> bucket_state \<Rightarrow> bool" where
  "token_rep \<equiv> bucket_rep ''tokens'' ''last_refilled_ms''"

definition rtb_args :: "'w r_TokenBucket \<Rightarrow> ('w \<Rightarrow> 'w) \<Rightarrow> arg list" where
  "rtb_args l e = [ArgFloat (rtb_capacity l), ArgFloat (rtb_rate l), ArgInt (Milliseconds (r_keyTTL (l_opts (rtb_base l))))]"

subsection \<open>The arithmetic of the script\<close>

lemma refilled_ms_bounds:
  assumes "is_f64 (Fin c)" "is_f64 (Fin x)" "0 \<le> x" "x \<le> c" "0 \<le> d" "0 < r"
  shows "0 \<le> refilled_ms c r x d" "refilled_ms c r x d \<le> c" "is_f64 (Fin (refilled_ms c r x d))"
proof -
  have "0 \<le> x + flow r d" using flow_nonneg [OF assms(5,6)] assms(3) by simp
  then have "0 \<le> rnd (x + flow r d)" by (rule rnd_nonneg)
  then show b: "0 \<le> refilled_ms c r x d" "refilled_ms c r x d \<le> c" using assms by (simp_all add: refilled_ms_def)
  have "refilled_ms c r x d \<in> F64"
    using is_f64_FinD(1) [OF assms(1)] is_f64_FinD(1) [OF assms(2)] by (simp add: refilled_ms_def min_def rnd_in_F64)
  then show "is_f64 (Fin (refilled_ms c r x d))" using b is_f64_FinD(2) [OF assms(1)] by (intro is_f64_FinI) auto
qed

lemma clamp_flow:
  assumes "is_f64 (Fin c)" "0 \<le> x" "c \<le> 2 ^ 52" "0 \<le> d" "0 < r"
  defines "f \<equiv> fdiv (fmul (Fin (of_int d)) (Fin r)) (Fin 1000)"
  shows "(if flt (Fin c) (fadd (Fin x) f) then Fin c else fadd (Fin x) f) = Fin (min c (rnd (x + flow r d)))"
  using assms(4,5)
proof (cases rule: flow_cases)
  case 1
  have "0 \<le> x + flow r d" using flow_nonneg [OF assms(4,5)] assms(2) by simp
  then show ?thesis
    by (cases rule: rnd64_nonneg_cases) (use 1 is_f64_FinD(2) [OF assms(1)] in \<open>auto simp: f_def min_def\<close>)
next
  case 2
  have "c \<le> x + flow r d" using 2(2) assms(2,3) by simp
  then have "c \<le> rnd (x + flow r d)" using is_f64_FinD(1) [OF assms(1)] by (rule ieee.ge_repr)
  then show ?thesis using 2(1) by (simp add: f_def)
qed

lemma taken:
  assumes "1 \<le> y" "y \<le> c" "is_f64 (Fin c)"
  shows "fsub (Fin y) (Fin 1) = Fin (rnd (y - 1))" "is_f64 (Fin (rnd (y - 1)))" "0 \<le> rnd (y - 1)" "rnd (y - 1) \<le> c"
proof -
  show "fsub (Fin y) (Fin 1) = Fin (rnd (y - 1))"
    unfolding fsub_Fin using assms by (intro rnd64_between(1) [of 0 c]) simp_all
  show "is_f64 (Fin (rnd (y - 1)))" "0 \<le> rnd (y - 1)" "rnd (y - 1) \<le> c" using rnd_sub1 [OF assms] by simp_all
qed

lemma missing:
  assumes "0 \<le> y" "y < 1" "is_f64 (Fin y)"
  shows "fsub (Fin 1) (Fin y) = Fin (rnd (1 - y))" "is_f64 (Fin (rnd (1 - y)))" "0 < rnd (1 - y)" "rnd (1 - y) \<le> 1"
proof -
  have b: "0 \<le> 1 - y" "1 - y \<le> 1" using assms by simp_all
  note R = rnd64_between [OF is_f64_0 is_f64_1 b]
  show "fsub (Fin 1) (Fin y) = Fin (rnd (1 - y))" "rnd (1 - y) \<le> 1" using R by (simp_all add: fsub_Fin)
  show "is_f64 (Fin (rnd (1 - y)))" using is_f64_rnd64 [of "1 - y"] R(1) by simp
  have u: "u64 \<le> 1 - y" using F64_below_1 [OF is_f64_FinD(1) [OF assms(3)] assms(2)] by simp
  have "u64 = of_int 1 * (2::rat) powi (- 53)" by (simp add: u64_def)
  then have "u64 \<in> F64" unfolding F64_def by fastforce
  then have "u64 \<le> rnd (1 - y)" using u by (intro ieee.ge_repr)
  then show "0 < rnd (1 - y)" using u64_pos by simp
qed

text \<open>The parts of a decision, in the words of the configuration.\<close>

lemma rtb_step:
  assumes cfg: "rtb_capacity l = Fin c" "rtb_rate l = Fin r" "is_f64 (Fin c)" "1 \<le> c" "0 < r"
    and st: "bucket_inv c st" and t: "0 \<le> t" "t \<le> max_millis" and o: "open_bucket c t st = (x, lst, now)"
  defines "y \<equiv> refilled_ms c r x (now - lst)"
  shows "is_f64 (Fin x)" "0 \<le> x" "0 \<le> now" "now \<le> max_millis" "lst \<le> now" "0 \<le> lst" "0 \<le> y" "y \<le> c" "is_f64 (Fin y)"
    "rtb_decide l e t st = (if 1 \<le> y
       then (Some (rnd (y - 1), now), \<lparr>Allowed = True, Remaining = \<lfloor>rnd (y - 1)\<rfloor>, RetryAfter = 0\<rparr>)
       else (Some (y, now), \<lparr>Allowed = False, Remaining = 0, RetryAfter = wait_ms r (rnd (1 - y)) * Millisecond\<rparr>))"
proof -
  have c0: "0 \<le> c" using cfg(4) by simp
  note O = open_bucket_inv [OF o st cfg(3) c0 order_refl t]
  show "is_f64 (Fin x)" "0 \<le> x" "0 \<le> now" "now \<le> max_millis" "lst \<le> now" "0 \<le> lst" using O by simp_all
  show "0 \<le> y" "y \<le> c" "is_f64 (Fin y)"
    unfolding y_def using O cfg by (intro refilled_ms_bounds; simp)+
  show "rtb_decide l e t st = (if 1 \<le> y
       then (Some (rnd (y - 1), now), \<lparr>Allowed = True, Remaining = \<lfloor>rnd (y - 1)\<rfloor>, RetryAfter = 0\<rparr>)
       else (Some (y, now), \<lparr>Allowed = False, Remaining = 0, RetryAfter = wait_ms r (rnd (1 - y)) * Millisecond\<rparr>))"
    by (simp add: rtb_decide_def cfg o y_def Let_def)
qed

lemma rtb_cfgE:
  assumes "rtb_cfg l"
  obtains c r where "rtb_capacity l = Fin c" "rtb_rate l = Fin r" "is_f64 (Fin c)" "is_f64 (Fin r)" "1 \<le> c" "c \<le> 2 ^ 52"
    "1 / 2 ^ 32 \<le> r" "0 < r" "\<bar>Milliseconds (r_keyTTL (l_opts (rtb_base l)))\<bar> \<le> 2 ^ 53"
proof -
  have "(0::rat) < 1 / 2 ^ 32" by simp
  then show ?thesis using that assms less_le_trans unfolding rtb_cfg_def by blast
qed

lemma rtb_decide_ok:
  assumes "rtb_cfg l" "bucket_inv (fin_of (rtb_capacity l)) st" "0 \<le> t" "t \<le> max_millis"
  shows "bucket_inv (fin_of (rtb_capacity l)) (fst (rtb_decide l e t st)) \<and> result_ok (snd (rtb_decide l e t st))
     \<and> whole_millis (snd (rtb_decide l e t st))"
proof -
  obtain c r where c: "rtb_capacity l = Fin c" "rtb_rate l = Fin r" "is_f64 (Fin c)" "is_f64 (Fin r)" "1 \<le> c" "c \<le> 2 ^ 52"
    "1 / 2 ^ 32 \<le> r" "0 < r" using assms(1) by (rule rtb_cfgE)
  obtain x lst now where o: "open_bucket c t st = (x, lst, now)" by (metis prod_cases3)
  have st: "bucket_inv c st" using assms(2) by (simp add: c(1))
  note S = rtb_step [OF c(1-3,5,8) st assms(3,4) o]
  let ?y = "refilled_ms c r x (now - lst)"
  show ?thesis
  proof (cases "1 \<le> ?y")
    case True
    note T = taken [OF True S(8) c(3)]
    have "0 \<le> \<lfloor>rnd (?y - 1)\<rfloor>" using T(3) by simp
    then show ?thesis using True T S(3,4,10)
      by (simp add: c(1) bucket_inv_def result_ok_def whole_millis_def in_int64_def min_int64_def max_int64_def)
  next
    case False
    note M = missing [OF S(7) _ S(9)]
    have "is_f64 (Fin (rnd (1 - ?y)))" "0 \<le> rnd (1 - ?y)" "rnd (1 - ?y) \<le> 2" using M False by simp_all
    from wait_ms_eq(2,3) [OF this c(7)]
    have "0 \<le> wait_ms r (rnd (1 - ?y))" "wait_ms r (rnd (1 - ?y)) \<le> 2000 * 2 ^ 32" .
    from wait_result [OF this] show ?thesis using False S(3,4,7-10) by (simp add: c(1) bucket_inv_def)
  qed
qed

lemma refill_tokens_eq:
  assumes "is_f64 (Fin c)" "0 \<le> x" "c \<le> 2 ^ 52" "0 \<le> d" "0 < r"
  shows "refill_tokens (Some (Fin x)) (Some (Fin r)) (Some (Fin c)) (Fin (of_int d)) w = (w, Inr (Fin (refilled_ms c r x d)))"
proof (cases "0 < d")
  case True
  then show ?thesis
    using clamp_flow [OF assms] by (simp add: refill_tokens_def refilled_ms_def Let_def del: fmul.simps fdiv.simps)
qed (simp add: refill_tokens_def refilled_ms_def)

lemma take_token_eq:
  fixes w :: 'w and now :: int
  assumes c: "is_f64 (Fin c)" "c \<le> 2 ^ 52" and r: "1 / 2 ^ 32 \<le> r" and y: "0 \<le> y" "y \<le> c" "is_f64 (Fin y)"
  defines "out \<equiv> (if 1 \<le> y
       then (Some (rnd (y - 1), now), \<lparr>Allowed = True, Remaining = \<lfloor>rnd (y - 1)\<rfloor>, RetryAfter = 0\<rparr>)
       else (Some (y, now), \<lparr>Allowed = False, Remaining = 0, RetryAfter = wait_ms r (rnd (1 - y)) * Millisecond\<rparr>))"
  shows "\<exists>y' a rem wait. take_token (Fin y) (Some (Fin r)) w = (w, Inr (Fin y', Fin (of_int a), Fin (of_int rem), Fin (of_int wait)))
     \<and> fst out = Some (y', now) \<and> is_f64 (Fin y') \<and> \<bar>a\<bar> < 2 ^ 63 \<and> \<bar>rem\<bar> < 2 ^ 63 \<and> \<bar>wait\<bar> < 2 ^ 63
     \<and> reply_for (snd out) = RArr [RInt a, RInt rem, RInt wait]"
proof (cases "1 \<le> y")
  case True
  note T = taken [OF True y(2) c(1)]
  have "0 \<le> \<lfloor>rnd (y - 1)\<rfloor>" "\<lfloor>rnd (y - 1)\<rfloor> < 2 ^ 63" using T(3,4) c(2) by (simp_all add: floor_less_iff)
  then show ?thesis using True T
    by (simp add: out_def take_token_def Let_def fFloor_def reply_for_def exI [of _ "1::int"] exI [of _ "0::int"])
next
  case False
  then have y1: "y < 1" by simp
  note M = missing [OF y(1) y1 y(3)]
  have "rnd (1 - y) \<le> 2" using M(4) by simp
  note W = wait_ms_eq [OF M(2) less_imp_le [OF M(3)] this r]
  show ?thesis using False y(3) W M(1)
    by (simp add: out_def take_token_def reply_for_def Millisecond_def del: fmul.simps fdiv.simps)
qed

lemma rtb_script_runs:
  fixes l :: "'w r_TokenBucket" and w :: 'w
  assumes cfg: "rtb_cfg l" and inv: "bucket_inv (fin_of (rtb_capacity l)) st" and laws: "redis_laws ops v"
    and enc: "encode_laws enc" and rep: "token_rep (v_val v w key) st" and t: "millis v w = t" "0 \<le> t" "t \<le> max_millis"
  shows "\<exists>w'. token_bucket_lua ops [key] (map enc (rtb_args l e)) w = (w', Inr (reply_for (snd (rtb_decide l e t st))))
     \<and> token_rep (v_val v w' key) (fst (rtb_decide l e t st)) \<and> (\<forall>k. k \<noteq> key \<longrightarrow> v_val v w' k = v_val v w k)"
proof -
  obtain c r where c: "rtb_capacity l = Fin c" "rtb_rate l = Fin r" "is_f64 (Fin c)" "is_f64 (Fin r)" "1 \<le> c" "c \<le> 2 ^ 52"
    "1 / 2 ^ 32 \<le> r" "0 < r" "\<bar>Milliseconds (r_keyTTL (l_opts (rtb_base l)))\<bar> \<le> 2 ^ 53" using cfg by (rule rtb_cfgE)
  let ?ttl = "Milliseconds (r_keyTTL (l_opts (rtb_base l)))"
  obtain x lst now where o: "open_bucket c t st = (x, lst, now)" by (metis prod_cases3)
  have st: "bucket_inv c st" using inv by (simp add: c(1))
  note S = rtb_step [OF c(1-3,5,8) st t(2,3) o]
  let ?y = "refilled_ms c r x (now - lst)"
  have now: "nowMillis ops w = (w, Inr (Fin (of_int t)))" using nowMillis_eq [OF laws] t by simp
  have args: "numberAt (map enc (rtb_args l e)) 1 = Some (Fin c)" "numberAt (map enc (rtb_args l e)) 2 = Some (Fin r)"
    "numberAt (map enc (rtb_args l e)) 3 = Some (Fin (of_int ?ttl))"
    using enc c by (simp_all add: rtb_args_def numberAt_def encode_laws_def f64_of_int_exact)
  have key: "stringAt [key] 1 = (lua_return key :: ('w, string) lua)" by (simp add: stringAt_def)
  note load = loadFields_eq [OF laws rep o]
  have el: "fsub (Fin (of_int now)) (Fin (of_int lst)) = Fin (of_int (now - lst))" using S(3-6) by (intro fsub_ints) simp
  have refill: "refill_tokens (Some (Fin x)) (Some (Fin r)) (Some (Fin c)) (Fin (of_int (now - lst))) w = (w, Inr (Fin ?y))"
    using c S by (intro refill_tokens_eq) simp_all
  obtain y' a rem wait where take: "take_token (Fin ?y) (Some (Fin r)) w = (w, Inr (Fin y', Fin (of_int a), Fin (of_int rem), Fin (of_int wait)))"
    "fst (rtb_decide l e t st) = Some (y', now)" "is_f64 (Fin y')" "\<bar>a\<bar> < 2 ^ 63" "\<bar>rem\<bar> < 2 ^ 63" "\<bar>wait\<bar> < 2 ^ 63"
    "reply_for (snd (rtb_decide l e t st)) = RArr [RInt a, RInt rem, RInt wait]"
    using take_token_eq [OF c(3,6,7) S(7-9), of w] unfolding S(10) by (metis fst_conv snd_conv)
  obtain w1 n where w1: "HSET ops key [(''tokens'', numberArg ops (Fin y')), (''last_refilled_ms'', numberArg ops (Fin (of_int now)))] w
      = (w1, Inr n)" "token_rep (v_val v w1 key) (Some (y', now))" "\<forall>k. k \<noteq> key \<longrightarrow> v_val v w1 k = v_val v w k"
    using store_bucket [OF laws rep _ take(3) S(3,4)] by auto
  obtain w2 where w2: "expireAndReply ops key (Some (Fin (of_int ?ttl))) (Fin (of_int a)) (Fin (of_int rem)) (Fin (of_int wait)) w1
      = (w2, Inr (RArr [RInt a, RInt rem, RInt wait]))" "v_val v w2 = v_val v w1"
    using expireAndReply_eq [OF laws c(9), of key] law_replyInt [OF laws] take(4-6) by metis
  have "token_bucket_lua ops [key] (map enc (rtb_args l e)) w = (w2, Inr (RArr [RInt a, RInt rem, RInt wait]))"
    unfolding token_bucket_lua_def args Let_def
    by (simp only: lua_bind_simps now key load prod.case el refill take(1) w1(1) w2(1))
  then show ?thesis using take(2,7) w1(2,3) w2(2) by simp
qed

subsection \<open>The limiter\<close>

lemma r_TokenBucket_Allow_eq:
  "r_TokenBucket_Allow (l, w) e key =
     (case redis_allow (rtb_base l) (rtb_args l e) e (rtb_script l) w key of
        ((sc, w'), out) \<Rightarrow> Some ((l\<lparr>rtb_script := sc\<rparr>, w'), out))"
  by (simp add: r_TokenBucket_Allow_def redis_allow_def rtb_args_def Let_def case_prod_beta split: option.split)

lemma rtb_script_simps [simp]:
  "rtb_decide (l\<lparr>rtb_script := sc\<rparr>) = rtb_decide l" "rtb_cfg (l\<lparr>rtb_script := sc\<rparr>) = rtb_cfg l"
  "rtb_args (l\<lparr>rtb_script := sc\<rparr>) = rtb_args l"
  by (simp_all add: rtb_decide_def rtb_cfg_def rtb_args_def fun_eq_iff Let_def)

interpretation rtb: redis_limiter rtb_decide "\<lambda>l. bucket_inv (fin_of (rtb_capacity l))" "\<lambda>l. token_rep" None rtb_cfg
  token_bucket_lua rtb_args r_TokenBucket_Allow rtb_base rtb_script "\<lambda>sc l. l\<lparr>rtb_script := sc\<rparr>" "\<lambda>e. e"
proof unfold_locales
  show "bucket_inv (fin_of (rtb_capacity l)) None" "token_rep Absent None" for l :: "'w r_TokenBucket"
    by (simp_all add: bucket_inv_def bucket_rep_def)
qed (simp_all add: rtb_decide_ok rtb_script_runs r_TokenBucket_Allow_eq)



subsection \<open>Properties\<close>

lemma r_NewTokenBucket_served:
  assumes "r_NewTokenBucket body client (Fin c) (Fin r) opts = Inr l" "is_f64 (Fin c)" "is_f64 (Fin r)"
    and "honest be client body token_bucket_lua"
    and "c \<le> 2 ^ 52" "1 / 2 ^ 32 \<le> r" "in_int64 (r_keyTTL (l_opts (rtb_base l)))"
  shows "rtb.served be l" "rtb_capacity l = Fin c" "rtb_rate l = Fin r"
proof -
  have l: "1 \<le> c" "l = \<lparr>rtb_base = newLimiter client opts,
      rtb_script = NewScript ''token_bucket'' body, rtb_capacity = Fin c, rtb_rate = Fin r\<rparr>"
    using assms(1) by (auto simp: r_NewTokenBucket_def split: if_splits)
  then show lim: "rtb_capacity l = Fin c" "rtb_rate l = Fin r" by simp_all
  have "rtb_cfg l" unfolding rtb_cfg_def using lim l(1) assms Milliseconds_le by blast
  then show "rtb.served be l"
    using assms(4) by (simp add: rtb.served_def l(2) newLimiter_def NewScript_def sha_ok_def)
qed

text \<open>
  Claim C27. The script \<open>token_bucket.lua\<close> and the Go code around it refine a decision function on
  tokens and time: in any run through a new limiter on a server that keeps its promises, with any
  other keys interleaved, every call returns, without an error for a key that is not blank, and
  the answers for a key are those of the function, at the server's times, whatever happened to
  the script cache. The time the function works with never runs backwards.
\<close>

theorem redis_token_exact:
  assumes "r_NewTokenBucket body client (Fin c) (Fin r) opts = Inr l" "is_f64 (Fin c)" "is_f64 (Fin r)"
    and "honest be client body token_bucket_lua"
    and "c \<le> 2 ^ 52" "1 / 2 ^ 32 \<le> r" "in_int64 (r_keyTTL (l_opts (rtb_base l)))"
    and "no_keys be (rtb_base l) w" "\<not> blank key" "list_all2 (\<lambda>(e, k) t. quiet be t e) rs ts"
  shows "\<exists>s' outs. requests r_TokenBucket_Allow (l, w) rs = Some (s', outs)
     \<and> answers_for key rs outs = map (\<lambda>res. (res, None)) (replay (rtb_decide l) None (timed_for key rs ts))"
  using rtb.new_refines [OF r_NewTokenBucket_served(1) [OF assms(1-7)] assms(8-10)] .


text \<open>
  Claim C31. The Redis token bucket keeps the limiter contract in every run on a server that keeps
  its promises, where keys may expire and the clock may jump in any direction.
\<close>

theorem redis_token_contract:
  assumes "r_NewTokenBucket body client (Fin c) (Fin r) opts = Inr l" "is_f64 (Fin c)" "is_f64 (Fin r)"
    and "honest be client body token_bucket_lua"
    and "c \<le> 2 ^ 52" "1 / 2 ^ 32 \<le> r" "in_int64 (r_keyTTL (l_opts (rtb_base l)))"
    and "no_keys be (rtb_base l) w" "\<forall>(e, key) \<in> set rs. benign be (rtb_base l) e"
  shows "\<exists>s' outs. requests r_TokenBucket_Allow (l, w) rs = Some (s', outs) \<and> length outs = length rs
     \<and> list_all2 (\<lambda>(e, key) (ret, evs). return_ok key ret) rs outs"
  using rtb.new_contract [OF r_NewTokenBucket_served(1) [OF assms(1-7)] assms(8)] assms(9) by simp

subsection \<open>Witnesses\<close>

definition demo_tokens :: "server r_TokenBucket" where
  "demo_tokens = \<lparr>rtb_base = newLimiter the_client [],
     rtb_script = NewScript ''token_bucket'' ''token_bucket.lua'', rtb_capacity = Fin 2, rtb_rate = Fin 1\<rparr>"

definition bucket_requests :: "((server \<Rightarrow> server) \<times> string) list" where
  "bucket_requests = [(at_millis 10, ''a''), (at_millis 20, ''b''), (at_millis 5, ''a''), (at_millis 1010, ''a'')]"

lemma demo_tokens_new:
  "r_NewTokenBucket ''token_bucket.lua'' the_client (Fin 2) (Fin 1) [] = Inr demo_tokens"
  "in_int64 (r_keyTTL (l_opts (rtb_base demo_tokens)))"
  by (simp_all add: r_NewTokenBucket_def r_isFinite_def demo_tokens_def newLimiter_def r_defaultOptions_def
      Minute_def Second_def in_int64_def min_int64_def max_int64_def)

lemma bucket_requests_facts:
  "list_all2 (\<lambda>(e, k) t. quiet the_backend t e) bucket_requests [10, 20, 5, 1010]"
  "timed_for ''a'' bucket_requests [10, 20, 5, 1010] = [(at_millis 10, 10), (at_millis 5, 5), (at_millis 1010, 1010)]"
  "\<forall>(e, key) \<in> set bucket_requests. benign the_backend base e"
  by (simp_all add: bucket_requests_def quiet_at benign_at)

lemma bucket_key: "\<not> blank ''a''"
  by code_simp

lemma small_capacity: "(2::rat) \<le> 2 ^ 52" "1 / 2 ^ 32 \<le> (1::rat)"
  by simp_all

lemmas demo_tokens_context =
  is_f64_2 is_f64_1 the_honest(1) small_capacity demo_tokens_new(2)
  no_keys_empty_server [of "rtb_base demo_tokens"]

theorem redis_token_exact_witness:
  "\<exists>s' outs. requests r_TokenBucket_Allow (demo_tokens, empty_server) bucket_requests = Some (s', outs)
     \<and> answers_for ''a'' bucket_requests outs = map (\<lambda>res. (res, None))
         (replay (rtb_decide demo_tokens) None [(at_millis 10, 10), (at_millis 5, 5), (at_millis 1010, 1010)])"
  using redis_token_exact [OF demo_tokens_new(1) demo_tokens_context bucket_key bucket_requests_facts(1)]
  unfolding bucket_requests_facts(2) .


theorem redis_token_contract_witness:
  "\<exists>s' outs. requests r_TokenBucket_Allow (demo_tokens, empty_server) bucket_requests = Some (s', outs)
     \<and> list_all2 (\<lambda>(e, key) (ret, evs). return_ok key ret) bucket_requests outs"
  using redis_token_contract [OF demo_tokens_new(1) demo_tokens_context bucket_requests_facts(3)] by blast

end
