(* ===== verification/Redis_LeakyBucket.thy ===== *)
theory Redis_LeakyBucket
  imports Redis_TokenBucket Mem_LeakyBucket
begin

section \<open>The Redis leaky bucket\<close>

text \<open>
  The decision function that \<open>leaky_bucket.lua\<close> implements on a key's water and last leak, and
  the rate it guarantees.
\<close>

text \<open>The water after \<open>d\<close> milliseconds.\<close>

definition leaked_ms :: "rat \<Rightarrow> rat \<Rightarrow> int \<Rightarrow> rat" where
  "leaked_ms r x d = (if 0 < d then max 0 (rnd (x - flow r d)) else x)"

definition rlb_decide :: "'w r_LeakyBucket \<Rightarrow> ('w \<Rightarrow> 'w) \<Rightarrow> int \<Rightarrow> bucket_state \<Rightarrow> bucket_state \<times> Result" where
  "rlb_decide l e t st =
     (let c = fin_of (rlb_capacity l); r = fin_of (rlb_rate l); (x, lst, now) = open_bucket 0 t st;
          y = leaked_ms r x (now - lst); z = rnd (y + 1)
      in if z \<le> c
         then (Some (z, now), \<lparr>Allowed = True, Remaining = \<lfloor>rnd (c - z)\<rfloor>, RetryAfter = 0\<rparr>)
         else (Some (y, now), \<lparr>Allowed = False, Remaining = 0, RetryAfter = wait_ms r (rnd (z - c)) * Millisecond\<rparr>))"

definition rlb_cfg :: "'w r_LeakyBucket \<Rightarrow> bool" where
  "rlb_cfg l \<longleftrightarrow> (\<exists>c r. rlb_capacity l = Fin c \<and> rlb_rate l = Fin r \<and> is_f64 (Fin c) \<and> is_f64 (Fin r)
     \<and> 1 \<le> c \<and> c \<le> 2 ^ 52 \<and> 1 / 2 ^ 32 \<le> r) \<and> \<bar>Milliseconds (r_keyTTL (l_opts (rlb_base l)))\<bar> \<le> 2 ^ 53"

abbreviation water_rep :: "redis_value \<Rightarrow> bucket_state \<Rightarrow> bool" where
  "water_rep \<equiv> bucket_rep ''water'' ''last_leak_ms''"

definition rlb_args :: "'w r_LeakyBucket \<Rightarrow> ('w \<Rightarrow> 'w) \<Rightarrow> arg list" where
  "rlb_args l e = [ArgFloat (rlb_capacity l), ArgFloat (rlb_rate l), ArgInt (Milliseconds (r_keyTTL (l_opts (rlb_base l))))]"

subsection \<open>The arithmetic of the script\<close>

lemma leaked_ms_bounds:
  assumes "is_f64 (Fin x)" "0 \<le> x" "0 \<le> d" "0 < r"
  shows "0 \<le> leaked_ms r x d" "leaked_ms r x d \<le> x" "is_f64 (Fin (leaked_ms r x d))"
proof -
  have "x - flow r d \<le> x" using flow_nonneg [OF assms(3,4)] by simp
  then have "rnd (x - flow r d) \<le> x" using is_f64_FinD(1) [OF assms(1)] by (rule ieee.le_repr)
  then show b: "0 \<le> leaked_ms r x d" "leaked_ms r x d \<le> x" using assms(2) by (simp_all add: leaked_ms_def)
  have "leaked_ms r x d \<in> F64" using is_f64_FinD(1) [OF assms(1)] by (simp add: leaked_ms_def max_def rnd_in_F64)
  then show "is_f64 (Fin (leaked_ms r x d))" using b is_f64_FinD(2) [OF assms(1)] by (intro is_f64_FinI) auto
qed

lemma clamp_outflow:
  assumes "is_f64 (Fin x)" "0 \<le> x" "x \<le> 2 ^ 52" "0 \<le> d" "0 < r"
  defines "w \<equiv> fsub (Fin x) (fdiv (fmul (Fin (of_int d)) (Fin r)) (Fin 1000))"
  shows "(if flt w (Fin 0) then Fin 0 else w) = Fin (max 0 (rnd (x - flow r d)))"
  using assms(4,5)
proof (cases rule: flow_cases)
  case 1
  have w: "w = rnd64 (x - flow r d)" using 1 by (simp add: w_def fsub_Fin)
  have "x - flow r d \<le> x" using flow_nonneg [OF assms(4,5)] by simp
  then have "rnd (x - flow r d) \<le> x" using is_f64_FinD(1) [OF assms(1)] by (rule ieee.le_repr)
  then have "rnd (x - flow r d) < huge64" using is_f64_FinD(2) [OF assms(1)] by linarith
  then show ?thesis using huge64_pos by (auto simp: w rnd64_eq max_def)
next
  case 2
  have "x - flow r d \<le> 0" using 2(2) assms(3) by simp
  then have "rnd (x - flow r d) \<le> 0" by (rule ieee.le_repr) simp
  then show ?thesis using 2(1) by (simp add: w_def fsub_def max_def)
qed

lemma is_f64_2_53: "is_f64 (Fin (2 ^ 53))"
  using is_f64_int [of "2 ^ 53"] by simp

lemma added:
  assumes "0 \<le> y" "y \<le> c" "1 \<le> c" "c \<le> 2 ^ 52"
  shows "fadd (Fin y) (Fin 1) = Fin (rnd (y + 1))" "is_f64 (Fin (rnd (y + 1)))" "0 \<le> rnd (y + 1)" "rnd (y + 1) - c \<le> 2"
proof -
  have b: "0 \<le> y + 1" "y + 1 \<le> 2 ^ 53" using assms by simp_all
  note R = rnd64_between [OF is_f64_0 is_f64_2_53 b]
  show "fadd (Fin y) (Fin 1) = Fin (rnd (y + 1))" "0 \<le> rnd (y + 1)" using R by simp_all
  show "is_f64 (Fin (rnd (y + 1)))" using is_f64_rnd64 [of "y + 1"] R(1) by simp

  have "(y + 1) * u64 \<le> (2 ^ 52 + 1) * u64" using assms u64_pos by (intro mult_right_mono) simp_all
  also have "\<dots> \<le> 3 / 4" by (simp add: u64_def)
  finally have "rnd (y + 1) \<le> y + 1 + 3 / 4 + eta64" using ieee.upper [of "y + 1"] b(1) by simp
  moreover have "eta64 \<le> 1 / 4" using eta64_le u64_le by linarith
  ultimately show "rnd (y + 1) - c \<le> 2" using assms(2) by linarith
qed

lemma free_room:
  assumes "0 \<le> z" "z \<le> c" "is_f64 (Fin c)" "c \<le> 2 ^ 52"
  shows "fsub (Fin c) (Fin z) = Fin (rnd (c - z))" "0 \<le> \<lfloor>rnd (c - z)\<rfloor>" "\<lfloor>rnd (c - z)\<rfloor> < 2 ^ 63"
proof -
  have b: "0 \<le> c - z" "c - z \<le> c" using assms by simp_all
  note R = rnd64_between [OF is_f64_0 assms(3) b]
  show "fsub (Fin c) (Fin z) = Fin (rnd (c - z))" using R(1) by (simp add: fsub_Fin)
  show "0 \<le> \<lfloor>rnd (c - z)\<rfloor>" "\<lfloor>rnd (c - z)\<rfloor> < 2 ^ 63" using R(2,3) assms(4) by (simp_all add: floor_less_iff)
qed

lemma overflowing:
  assumes "c < z" "z - c \<le> 2"
  shows "fsub (Fin z) (Fin c) = Fin (rnd (z - c))" "is_f64 (Fin (rnd (z - c)))" "0 \<le> rnd (z - c)" "rnd (z - c) \<le> 2"
proof -
  have b: "0 \<le> z - c" "z - c \<le> 2" using assms by simp_all
  note R = rnd64_between [OF is_f64_0 is_f64_2 b]
  show "fsub (Fin z) (Fin c) = Fin (rnd (z - c))" "0 \<le> rnd (z - c)" "rnd (z - c) \<le> 2" using R by (simp_all add: fsub_Fin)
  show "is_f64 (Fin (rnd (z - c)))" using is_f64_rnd64 [of "z - c"] R(1) by simp
qed

lemma rlb_cfgE:
  assumes "rlb_cfg l"
  obtains c r where "rlb_capacity l = Fin c" "rlb_rate l = Fin r" "is_f64 (Fin c)" "is_f64 (Fin r)" "1 \<le> c" "c \<le> 2 ^ 52"
    "1 / 2 ^ 32 \<le> r" "0 < r" "\<bar>Milliseconds (r_keyTTL (l_opts (rlb_base l)))\<bar> \<le> 2 ^ 53"
proof -
  have "(0::rat) < 1 / 2 ^ 32" by simp
  then show ?thesis using that assms less_le_trans unfolding rlb_cfg_def by blast
qed

lemma rlb_step:
  assumes cfg: "rlb_capacity l = Fin c" "rlb_rate l = Fin r" "1 \<le> c" "c \<le> 2 ^ 52" "0 < r"
    and st: "bucket_inv c st" and t: "0 \<le> t" "t \<le> max_millis" and o: "open_bucket 0 t st = (x, lst, now)"
  defines "y \<equiv> leaked_ms r x (now - lst)"
  shows "is_f64 (Fin x)" "0 \<le> x" "x \<le> c" "0 \<le> now" "now \<le> max_millis" "lst \<le> now" "0 \<le> lst" "0 \<le> y" "y \<le> c" "is_f64 (Fin y)"
    "rlb_decide l e t st = (if rnd (y + 1) \<le> c
       then (Some (rnd (y + 1), now), \<lparr>Allowed = True, Remaining = \<lfloor>rnd (c - rnd (y + 1))\<rfloor>, RetryAfter = 0\<rparr>)
       else (Some (y, now), \<lparr>Allowed = False, Remaining = 0, RetryAfter = wait_ms r (rnd (rnd (y + 1) - c)) * Millisecond\<rparr>))"
proof -
  have c0: "0 \<le> c" using cfg(3) by simp
  note O = open_bucket_inv [OF o st is_f64_0 order_refl c0 t]
  show "is_f64 (Fin x)" "0 \<le> x" "x \<le> c" "0 \<le> now" "now \<le> max_millis" "lst \<le> now" "0 \<le> lst" using O by simp_all
  note L = leaked_ms_bounds [OF O(1,2) _ cfg(5), of "now - lst", folded y_def]
  show "0 \<le> y" "is_f64 (Fin y)" "y \<le> c" using L O by simp_all
  show "rlb_decide l e t st = (if rnd (y + 1) \<le> c
       then (Some (rnd (y + 1), now), \<lparr>Allowed = True, Remaining = \<lfloor>rnd (c - rnd (y + 1))\<rfloor>, RetryAfter = 0\<rparr>)
       else (Some (y, now), \<lparr>Allowed = False, Remaining = 0, RetryAfter = wait_ms r (rnd (rnd (y + 1) - c)) * Millisecond\<rparr>))"
    by (simp add: rlb_decide_def cfg o y_def Let_def)
qed

lemma rlb_decide_ok:
  assumes "rlb_cfg l" "bucket_inv (fin_of (rlb_capacity l)) st" "0 \<le> t" "t \<le> max_millis"
  shows "bucket_inv (fin_of (rlb_capacity l)) (fst (rlb_decide l e t st)) \<and> result_ok (snd (rlb_decide l e t st))
     \<and> whole_millis (snd (rlb_decide l e t st))"
proof -
  obtain c r where c: "rlb_capacity l = Fin c" "rlb_rate l = Fin r" "is_f64 (Fin c)" "is_f64 (Fin r)" "1 \<le> c" "c \<le> 2 ^ 52"
    "1 / 2 ^ 32 \<le> r" "0 < r" using assms(1) by (rule rlb_cfgE)
  obtain x lst now where o: "open_bucket 0 t st = (x, lst, now)" by (metis prod_cases3)
  have st: "bucket_inv c st" using assms(2) by (simp add: c(1))
  note S = rlb_step [OF c(1,2,5,6,8) st assms(3,4) o]
  let ?y = "leaked_ms r x (now - lst)"
  note A = added [OF S(8,9) c(5,6)]
  show ?thesis
  proof (cases "rnd (?y + 1) \<le> c")
    case True
    then show ?thesis using A free_room [OF A(3) True c(3,6)] S(4,5,11)
      by (simp add: c(1) bucket_inv_def result_ok_def whole_millis_def in_int64_def min_int64_def max_int64_def)
  next
    case False
    then have "c < rnd (?y + 1)" by simp
    note W = wait_ms_eq(2,3) [OF overflowing(2-4) [OF this A(4)] c(7)]
    from wait_result [OF W] show ?thesis using False S(4,5,8-11) by (simp add: c(1) bucket_inv_def)
  qed
qed

lemma leak_water_eq:
  assumes "is_f64 (Fin x)" "0 \<le> x" "x \<le> 2 ^ 52" "0 \<le> d" "0 < r"
  shows "leak_water (Some (Fin x)) (Some (Fin r)) (Fin (of_int d)) w = (w, Inr (Fin (leaked_ms r x d)))"
proof (cases "0 < d")
  case True
  then show ?thesis
    using clamp_outflow [OF assms] by (simp add: leak_water_def leaked_ms_def Let_def del: fmul.simps fdiv.simps)
qed (simp add: leak_water_def leaked_ms_def)

lemma add_drop_eq:
  fixes w :: 'w and now :: int
  assumes c: "is_f64 (Fin c)" "1 \<le> c" "c \<le> 2 ^ 52" and r: "1 / 2 ^ 32 \<le> r" and y: "0 \<le> y" "y \<le> c" "is_f64 (Fin y)"
  defines "out \<equiv> (if rnd (y + 1) \<le> c
       then (Some (rnd (y + 1), now), \<lparr>Allowed = True, Remaining = \<lfloor>rnd (c - rnd (y + 1))\<rfloor>, RetryAfter = 0\<rparr>)
       else (Some (y, now), \<lparr>Allowed = False, Remaining = 0, RetryAfter = wait_ms r (rnd (rnd (y + 1) - c)) * Millisecond\<rparr>))"
  shows "\<exists>y' a rem wait. add_drop (Fin y) (Some (Fin c)) (Some (Fin r)) w = (w, Inr (Fin y', Fin (of_int a), Fin (of_int rem), Fin (of_int wait)))
     \<and> fst out = Some (y', now) \<and> is_f64 (Fin y') \<and> \<bar>a\<bar> < 2 ^ 63 \<and> \<bar>rem\<bar> < 2 ^ 63 \<and> \<bar>wait\<bar> < 2 ^ 63
     \<and> reply_for (snd out) = RArr [RInt a, RInt rem, RInt wait]"
proof -
  note A = added [OF y(1,2) c(2,3)]
  show ?thesis
  proof (cases "rnd (y + 1) \<le> c")
    case True
    then show ?thesis using A free_room [OF A(3) True c(1,3)]
      by (simp add: out_def add_drop_def Let_def fFloor_def reply_for_def exI [of _ "1::int"] exI [of _ "0::int"] del: fadd.simps)
  next
    case False
    then have z: "c < rnd (y + 1)" by simp
    note F = overflowing [OF z A(4)]
    note W = wait_ms_eq [OF F(2-4) r]
    show ?thesis using False y(3) W F(1) A(1)
      by (simp add: out_def add_drop_def Let_def reply_for_def Millisecond_def del: fmul.simps fdiv.simps fadd.simps)
  qed
qed

lemma rlb_script_runs:
  fixes l :: "'w r_LeakyBucket" and w :: 'w
  assumes cfg: "rlb_cfg l" and inv: "bucket_inv (fin_of (rlb_capacity l)) st" and laws: "redis_laws ops v"
    and enc: "encode_laws enc" and rep: "water_rep (v_val v w key) st" and t: "millis v w = t" "0 \<le> t" "t \<le> max_millis"
  shows "\<exists>w'. leaky_bucket_lua ops [key] (map enc (rlb_args l e)) w = (w', Inr (reply_for (snd (rlb_decide l e t st))))
     \<and> water_rep (v_val v w' key) (fst (rlb_decide l e t st)) \<and> (\<forall>k. k \<noteq> key \<longrightarrow> v_val v w' k = v_val v w k)"
proof -
  obtain c r where c: "rlb_capacity l = Fin c" "rlb_rate l = Fin r" "is_f64 (Fin c)" "is_f64 (Fin r)" "1 \<le> c" "c \<le> 2 ^ 52"
    "1 / 2 ^ 32 \<le> r" "0 < r" "\<bar>Milliseconds (r_keyTTL (l_opts (rlb_base l)))\<bar> \<le> 2 ^ 53" using cfg by (rule rlb_cfgE)
  let ?ttl = "Milliseconds (r_keyTTL (l_opts (rlb_base l)))"
  obtain x lst now where o: "open_bucket 0 t st = (x, lst, now)" by (metis prod_cases3)
  have st: "bucket_inv c st" using inv by (simp add: c(1))
  note S = rlb_step [OF c(1,2,5,6,8) st t(2,3) o]
  let ?y = "leaked_ms r x (now - lst)"
  have now: "nowMillis ops w = (w, Inr (Fin (of_int t)))" using nowMillis_eq [OF laws] t by simp
  have args: "numberAt (map enc (rlb_args l e)) 1 = Some (Fin c)" "numberAt (map enc (rlb_args l e)) 2 = Some (Fin r)"
    "numberAt (map enc (rlb_args l e)) 3 = Some (Fin (of_int ?ttl))"
    using enc c by (simp_all add: rlb_args_def numberAt_def encode_laws_def f64_of_int_exact)
  have key: "stringAt [key] 1 = (lua_return key :: ('w, string) lua)" by (simp add: stringAt_def)
  note load = loadFields_eq [OF laws rep o]
  have el: "fsub (Fin (of_int now)) (Fin (of_int lst)) = Fin (of_int (now - lst))" using S(4-7) by (intro fsub_ints) simp
  have leak: "leak_water (Some (Fin x)) (Some (Fin r)) (Fin (of_int (now - lst))) w = (w, Inr (Fin ?y))"
    using c S by (intro leak_water_eq) simp_all
  obtain y' a rem wait where drop: "add_drop (Fin ?y) (Some (Fin c)) (Some (Fin r)) w = (w, Inr (Fin y', Fin (of_int a), Fin (of_int rem), Fin (of_int wait)))"
    "fst (rlb_decide l e t st) = Some (y', now)" "is_f64 (Fin y')" "\<bar>a\<bar> < 2 ^ 63" "\<bar>rem\<bar> < 2 ^ 63" "\<bar>wait\<bar> < 2 ^ 63"
    "reply_for (snd (rlb_decide l e t st)) = RArr [RInt a, RInt rem, RInt wait]"
    using add_drop_eq [OF c(3,5-7) S(8-10), of w] unfolding S(11) by (metis fst_conv snd_conv)
  obtain w1 n where w1: "HSET ops key [(''water'', numberArg ops (Fin y')), (''last_leak_ms'', numberArg ops (Fin (of_int now)))] w
      = (w1, Inr n)" "water_rep (v_val v w1 key) (Some (y', now))" "\<forall>k. k \<noteq> key \<longrightarrow> v_val v w1 k = v_val v w k"
    using store_bucket [OF laws rep _ drop(3) S(4,5)] by auto
  obtain w2 where w2: "expireAndReply ops key (Some (Fin (of_int ?ttl))) (Fin (of_int a)) (Fin (of_int rem)) (Fin (of_int wait)) w1
      = (w2, Inr (RArr [RInt a, RInt rem, RInt wait]))" "v_val v w2 = v_val v w1"
    using expireAndReply_eq [OF laws c(9), of key] law_replyInt [OF laws] drop(4-6) by metis
  have "leaky_bucket_lua ops [key] (map enc (rlb_args l e)) w = (w2, Inr (RArr [RInt a, RInt rem, RInt wait]))"
    unfolding leaky_bucket_lua_def args Let_def
    by (simp only: lua_bind_simps now key load [simplified] load prod.case el leak drop(1) w1(1) w2(1))
  then show ?thesis using drop(2,7) w1(2,3) w2(2) by simp
qed

subsection \<open>The limiter\<close>

lemma r_LeakyBucket_Allow_eq:
  "r_LeakyBucket_Allow (l, w) e key =
     (case redis_allow (rlb_base l) (rlb_args l e) e (rlb_script l) w key of
        ((sc, w'), out) \<Rightarrow> Some ((l\<lparr>rlb_script := sc\<rparr>, w'), out))"
  by (simp add: r_LeakyBucket_Allow_def redis_allow_def rlb_args_def Let_def case_prod_beta split: option.split)

lemma rlb_script_simps [simp]:
  "rlb_decide (l\<lparr>rlb_script := sc\<rparr>) = rlb_decide l" "rlb_cfg (l\<lparr>rlb_script := sc\<rparr>) = rlb_cfg l"
  "rlb_args (l\<lparr>rlb_script := sc\<rparr>) = rlb_args l"
  by (simp_all add: rlb_decide_def rlb_cfg_def rlb_args_def fun_eq_iff Let_def)

interpretation rlb: redis_limiter rlb_decide "\<lambda>l. bucket_inv (fin_of (rlb_capacity l))" "\<lambda>l. water_rep" None rlb_cfg
  leaky_bucket_lua rlb_args r_LeakyBucket_Allow rlb_base rlb_script "\<lambda>sc l. l\<lparr>rlb_script := sc\<rparr>" "\<lambda>e. e"
proof unfold_locales
  show "bucket_inv (fin_of (rlb_capacity l)) None" "water_rep Absent None" for l :: "'w r_LeakyBucket"
    by (simp_all add: bucket_inv_def bucket_rep_def)
qed (simp_all add: rlb_decide_ok rlb_script_runs r_LeakyBucket_Allow_eq)



subsection \<open>Properties\<close>

lemma r_NewLeakyBucket_served:
  assumes "r_NewLeakyBucket body client (Fin c) (Fin r) opts = Inr l" "is_f64 (Fin c)" "is_f64 (Fin r)"
    and "honest be client body leaky_bucket_lua"
    and "c \<le> 2 ^ 52" "1 / 2 ^ 32 \<le> r" "in_int64 (r_keyTTL (l_opts (rlb_base l)))"
  shows "rlb.served be l" "rlb_capacity l = Fin c" "rlb_rate l = Fin r"
proof -
  have l: "1 \<le> c" "l = \<lparr>rlb_base = newLimiter client opts,
      rlb_script = NewScript ''leaky_bucket'' body, rlb_capacity = Fin c, rlb_rate = Fin r\<rparr>"
    using assms(1) by (auto simp: r_NewLeakyBucket_def split: if_splits)
  then show lim: "rlb_capacity l = Fin c" "rlb_rate l = Fin r" by simp_all
  have "rlb_cfg l" unfolding rlb_cfg_def using lim l(1) assms Milliseconds_le by blast
  then show "rlb.served be l"
    using assms(4) by (simp add: rlb.served_def l(2) newLimiter_def NewScript_def sha_ok_def)
qed

text \<open>
  Claim C29. The script \<open>leaky_bucket.lua\<close> and the Go code around it refine a decision function on
  water and time: in any run through a new limiter on a server that keeps its promises, with any
  other keys interleaved, every call returns, without an error for a key that is not blank, and
  the answers for a key are those of the function, at the server's times.
\<close>

theorem redis_leaky_exact:
  assumes "r_NewLeakyBucket body client (Fin c) (Fin r) opts = Inr l" "is_f64 (Fin c)" "is_f64 (Fin r)"
    and "honest be client body leaky_bucket_lua"
    and "c \<le> 2 ^ 52" "1 / 2 ^ 32 \<le> r" "in_int64 (r_keyTTL (l_opts (rlb_base l)))"
    and "no_keys be (rlb_base l) w" "\<not> blank key" "list_all2 (\<lambda>(e, k) t. quiet be t e) rs ts"
  shows "\<exists>s' outs. requests r_LeakyBucket_Allow (l, w) rs = Some (s', outs)
     \<and> answers_for key rs outs = map (\<lambda>res. (res, None)) (replay (rlb_decide l) None (timed_for key rs ts))"
  using rlb.new_refines [OF r_NewLeakyBucket_served(1) [OF assms(1-7)] assms(8-10)] .


text \<open>
  Claim C32. The Redis leaky bucket keeps the limiter contract in every run on a server that keeps
  its promises, where keys may expire and the clock may jump in any direction.
\<close>

theorem redis_leaky_contract:
  assumes "r_NewLeakyBucket body client (Fin c) (Fin r) opts = Inr l" "is_f64 (Fin c)" "is_f64 (Fin r)"
    and "honest be client body leaky_bucket_lua"
    and "c \<le> 2 ^ 52" "1 / 2 ^ 32 \<le> r" "in_int64 (r_keyTTL (l_opts (rlb_base l)))"
    and "no_keys be (rlb_base l) w" "\<forall>(e, key) \<in> set rs. benign be (rlb_base l) e"
  shows "\<exists>s' outs. requests r_LeakyBucket_Allow (l, w) rs = Some (s', outs) \<and> length outs = length rs
     \<and> list_all2 (\<lambda>(e, key) (ret, evs). return_ok key ret) rs outs"
  using rlb.new_contract [OF r_NewLeakyBucket_served(1) [OF assms(1-7)] assms(8)] assms(9) by simp

subsection \<open>Witnesses\<close>

definition demo_water :: "server r_LeakyBucket" where
  "demo_water = \<lparr>rlb_base = newLimiter the_client [],
     rlb_script = NewScript ''leaky_bucket'' ''leaky_bucket.lua'', rlb_capacity = Fin 2, rlb_rate = Fin 1\<rparr>"

lemma demo_water_new:
  "r_NewLeakyBucket ''leaky_bucket.lua'' the_client (Fin 2) (Fin 1) [] = Inr demo_water"
  "in_int64 (r_keyTTL (l_opts (rlb_base demo_water)))"
  by (simp_all add: r_NewLeakyBucket_def r_isFinite_def demo_water_def newLimiter_def r_defaultOptions_def
      Minute_def Second_def in_int64_def min_int64_def max_int64_def)

lemmas demo_water_context =
  is_f64_2 is_f64_1 the_honest(2) small_capacity demo_water_new(2)
  no_keys_empty_server [of "rlb_base demo_water"]

theorem redis_leaky_exact_witness:
  "\<exists>s' outs. requests r_LeakyBucket_Allow (demo_water, empty_server) bucket_requests = Some (s', outs)
     \<and> answers_for ''a'' bucket_requests outs = map (\<lambda>res. (res, None))
         (replay (rlb_decide demo_water) None [(at_millis 10, 10), (at_millis 5, 5), (at_millis 1010, 1010)])"
  using redis_leaky_exact [OF demo_water_new(1) demo_water_context bucket_key bucket_requests_facts(1)]
  unfolding bucket_requests_facts(2) .


theorem redis_leaky_contract_witness:
  "\<exists>s' outs. requests r_LeakyBucket_Allow (demo_water, empty_server) bucket_requests = Some (s', outs)
     \<and> list_all2 (\<lambda>(e, key) (ret, evs). return_ok key ret) bucket_requests outs"
  using redis_leaky_contract [OF demo_water_new(1) demo_water_context bucket_requests_facts(3)] by blast

end
