(* ===== verification/Redis_Window.thy ===== *)
theory Redis_Window
  imports Redis_Server Mem_SlidingWindow
begin

section \<open>The Redis sliding window\<close>

text \<open>
  The decision function that \<open>sliding_window_log.lua\<close> implements on the scores of a key's
  members, and its equality with the reference that the in-memory sliding window refines.
\<close>

definition window_ms :: "'w r_SlidingWindow \<Rightarrow> int" where
  "window_ms l = Milliseconds (rsw_window l)"

definition live_scores :: "int \<Rightarrow> int \<Rightarrow> (string \<rightharpoonup> int) \<Rightarrow> (string \<rightharpoonup> int)" where
  "live_scores w t st = st |` {k. \<exists>x. st k = Some x \<and> t - w < x}"

definition sw_decide ::
  "'w r_SlidingWindow \<Rightarrow> ('w \<Rightarrow> 'w) \<times> 64 word \<Rightarrow> int \<Rightarrow> (string \<rightharpoonup> int) \<Rightarrow> (string \<rightharpoonup> int) \<times> Result" where
  "sw_decide l e t st =
     (let live = live_scores (window_ms l) t st; n = int (card (dom live))
      in if n < rsw_limit l
         then (live(FormatUint16 (snd e) \<mapsto> t), \<lparr>Allowed = True, Remaining = rsw_limit l - n - 1, RetryAfter = 0\<rparr>)
         else (live, \<lparr>Allowed = False, Remaining = 0, RetryAfter = (Min (ran live) + window_ms l - t) * Millisecond\<rparr>))"

definition rsw_cfg :: "'w r_SlidingWindow \<Rightarrow> bool" where
  "rsw_cfg l \<longleftrightarrow> 0 < rsw_limit l \<and> rsw_limit l \<le> 2 ^ 53 \<and> 0 \<le> window_ms l \<and> window_ms l \<le> max_millis
     \<and> \<bar>Milliseconds (r_keyTTL (l_opts (rsw_base l)))\<bar> \<le> 2 ^ 53"

definition rsw_inv :: "'w r_SlidingWindow \<Rightarrow> (string \<rightharpoonup> int) \<Rightarrow> bool" where
  "rsw_inv l st \<longleftrightarrow> finite (dom st) \<and> ran st \<subseteq> {0..max_millis}"

definition scores :: "(string \<rightharpoonup> int) \<Rightarrow> (string \<rightharpoonup> float64)" where
  "scores st = map_option (\<lambda>x. Fin (of_int x)) \<circ> st"

definition rsw_rep :: "'w r_SlidingWindow \<Rightarrow> redis_value \<Rightarrow> (string \<rightharpoonup> int) \<Rightarrow> bool" where
  "rsw_rep l val st \<longleftrightarrow> val = zset_value (scores st)"

definition rsw_args :: "'w r_SlidingWindow \<Rightarrow> ('w \<Rightarrow> 'w) \<times> 64 word \<Rightarrow> arg list" where
  "rsw_args l e = [ArgInt (rsw_limit l), ArgInt (window_ms l),
     ArgInt (Milliseconds (r_keyTTL (l_opts (rsw_base l)))), ArgStr (FormatUint16 (snd e))]"

lemma dom_scores [simp]: "dom (scores st) = dom st"
  by (auto simp: scores_def dom_def)

lemma scores_empty_iff [simp]: "scores st = Map.empty \<longleftrightarrow> st = Map.empty"
  by (auto simp: scores_def fun_eq_iff)

lemma zset_of_scores: "finite (dom st) \<Longrightarrow> zset_of (zset_value (scores st)) = Some (scores st)"
  by (auto simp: zset_value_def scores_def fun_eq_iff)

lemma ran_live: "ran (live_scores w t st) \<subseteq> ran st" "x \<in> ran (live_scores w t st) \<Longrightarrow> t - w < x"
  by (auto simp: live_scores_def ran_def restrict_map_def split: if_splits)

lemma dom_live: "dom (live_scores w t st) \<subseteq> dom st"
  by (auto simp: live_scores_def restrict_map_def split: if_splits)

lemma finite_live: "finite (dom st) \<Longrightarrow> finite (dom (live_scores w t st))"
  using dom_live by (rule finite_subset)

lemma Min_live:
  assumes "finite (dom st)" "live_scores w t st \<noteq> Map.empty"
  shows "Min (ran (live_scores w t st)) \<in> ran (live_scores w t st)"
proof (rule Min_in)
  show "finite (ran (live_scores w t st))" using finite_live [OF assms(1)] by (rule finite_ran)
  show "ran (live_scores w t st) \<noteq> {}" using assms(2) by (auto simp: fun_eq_iff ran_def)
qed

lemma scores_live:
  "scores st |` {k. \<exists>x. scores st k = Some x \<and> flt (Fin (of_int (t - w))) x} = scores (live_scores w t st)"
proof
  fix k
  show "(scores st |` {k. \<exists>x. scores st k = Some x \<and> flt (Fin (of_int (t - w))) x}) k = scores (live_scores w t st) k"
    by (cases "st k") (simp_all add: scores_def live_scores_def restrict_map_def flip: of_int_less_iff [where 'a = rat])
qed

lemma scores_update: "(scores st)(m \<mapsto> Fin (of_int t)) = scores (st(m \<mapsto> t))"
  by (simp add: scores_def fun_eq_iff)

text \<open>The oldest live score, as \<open>ZRANGE\<close> finds it.\<close>

lemma least_score:
  assumes "finite (dom st)" "scores st m = Some x" "\<forall>y \<in> ran (scores st). \<not> flt y x"
  shows "x = Fin (of_int (Min (ran st)))"
proof -
  obtain i where i: "st m = Some i" "x = Fin (of_int i)" using assms(2) by (auto simp: scores_def)
  have "i \<le> j" if "j \<in> ran st" for j
  proof -
    have "Fin (of_int j) \<in> ran (scores st)" using that by (auto simp: scores_def ran_def)
    then show ?thesis using assms(3) by (auto simp: i(2))
  qed
  moreover have "i \<in> ran st" using i(1) by (rule ranI)
  ultimately have "Min (ran st) = i" using finite_ran [OF assms(1)] by (intro Min_eqI) auto
  then show ?thesis by (simp add: i(2))
qed

lemma f64_of_int_not_less:
  assumes "k \<le> n" "0 \<le> k" "k \<le> 2 ^ 53"
  shows "\<not> flt (f64_of_int n) (Fin (of_int k))"
proof -
  have "of_int k \<le> (of_int n :: rat)" "of_int k \<in> F64" using assms by (simp_all add: F64_int)
  then have k: "of_int k \<le> rnd (of_int n)" by (rule ieee.ge_repr)
  have "(0::rat) \<le> of_int n" using assms by simp
  then show ?thesis
    unfolding f64_of_int_def by (cases rule: rnd64_nonneg_cases) (use k in simp_all)
qed

lemma sw_decide_ok:
  assumes "rsw_cfg l" "rsw_inv l st" "0 \<le> t" "t \<le> max_millis"
  shows "rsw_inv l (fst (sw_decide l e t st)) \<and> result_ok (snd (sw_decide l e t st))
     \<and> whole_millis (snd (sw_decide l e t st))"
proof -
  let ?live = "live_scores (window_ms l) t st" and ?n = "int (card (dom (live_scores (window_ms l) t st)))"
  have fin: "finite (dom st)" "ran st \<subseteq> {0..max_millis}" using assms(2) by (simp_all add: rsw_inv_def)
  have live: "finite (dom ?live)" "ran ?live \<subseteq> {0..max_millis}"
    using finite_live [OF fin(1)] ran_live(1) [of "window_ms l" t st] fin(2) by auto
  show ?thesis
  proof (cases "?n < rsw_limit l")
    case True
    have "ran (?live(FormatUint16 (snd e) \<mapsto> t)) \<subseteq> {0..max_millis}"
      using live(2) assms(3,4) by (auto simp: ran_def split: if_splits)
    then show ?thesis using True live
      by (simp add: sw_decide_def Let_def rsw_inv_def result_ok_def whole_millis_def in_int64_def min_int64_def max_int64_def)
  next
    case False
    have "0 < rsw_limit l" using assms(1) by (simp add: rsw_cfg_def)
    then have "?live \<noteq> Map.empty" using False by force
    then have m: "Min (ran ?live) \<in> ran ?live" using fin(1) by (intro Min_live)
    define d where "d = Min (ran ?live) + window_ms l - t"
    have "0 \<le> d" "d \<le> max_millis + max_millis"
      using ran_live(2) [OF m] subsetD [OF live(2) m] assms by (auto simp: d_def rsw_cfg_def)
    then have "0 \<le> d * Millisecond \<and> whole_millis \<lparr>Allowed = False, Remaining = 0, RetryAfter = d * Millisecond\<rparr>"
      by (simp add: whole_millis_def in_int64_def min_int64_def max_int64_def Millisecond_def)
    then show ?thesis using False live
      by (simp add: sw_decide_def Let_def rsw_inv_def result_ok_def d_def [symmetric])
  qed
qed

lemma sw_script_runs:
  fixes l :: "'w r_SlidingWindow" and w :: 'w
  assumes cfg: "rsw_cfg l" and inv: "rsw_inv l st" and laws: "redis_laws ops v" and enc: "encode_laws enc"
    and rep: "rsw_rep l (v_val v w key) st" and t: "millis v w = t" "0 \<le> t" "t \<le> max_millis"
  shows "\<exists>w'. sliding_window_log_lua ops [key] (map enc (rsw_args l e)) w
        = (w', Inr (reply_for (snd (sw_decide l e t st))))
     \<and> rsw_rep l (v_val v w' key) (fst (sw_decide l e t st)) \<and> (\<forall>k. k \<noteq> key \<longrightarrow> v_val v w' k = v_val v w k)"
proof -
  let ?live = "live_scores (window_ms l) t st" and ?m = "FormatUint16 (snd e)" and ?W = "window_ms l"
  let ?ttl = "Milliseconds (r_keyTTL (l_opts (rsw_base l)))"
  define n where "n = int (card (dom ?live))"
  have c: "0 < rsw_limit l" "rsw_limit l \<le> 2 ^ 53" "0 \<le> ?W" "?W \<le> max_millis" "\<bar>?ttl\<bar> \<le> 2 ^ 53"
    using cfg by (simp_all add: rsw_cfg_def)
  have fin: "finite (dom st)" using inv by (simp add: rsw_inv_def)
  have now: "nowMillis ops w = (w, Inr (Fin (of_int t)))" using nowMillis_eq [OF laws] t by simp
  have args: "numberAt (map enc (rsw_args l e)) 1 = Some (Fin (of_int (rsw_limit l)))"
    "numberAt (map enc (rsw_args l e)) 2 = Some (Fin (of_int ?W))"
    "numberAt (map enc (rsw_args l e)) 3 = Some (Fin (of_int ?ttl))"
    "stringAt (map enc (rsw_args l e)) 4 = (lua_return ?m :: ('w, string) lua)"
    using enc c by (simp_all add: rsw_args_def numberAt_def stringAt_def encode_laws_def f64_of_int_exact)
  have ws: "fsub (Fin (of_int t)) (Fin (of_int ?W)) = Fin (of_int (t - ?W))" using t c by (intro fsub_ints) simp
  have "is_f64 (Fin (of_int (t - ?W)))" using t c by (intro is_f64_int) simp
  then have "tonumber (numberArg ops (Fin (of_int (t - ?W)))) = Some (Fin (of_int (t - ?W)))" by (rule law_numberArg [OF laws])
  moreover have z0: "zset_of (v_val v w key) = Some (scores st)" using rep fin by (simp add: rsw_rep_def zset_of_scores)
  ultimately obtain w1 k1 where w1: "ZREMRANGEBYSCORE ops key ''-inf'' (numberArg ops (Fin (of_int (t - ?W)))) w = (w1, Inr k1)"
    "v_val v w1 = (v_val v w)(key := zset_value (scores ?live))"
    using law_ZREMRANGEBYSCORE [OF laws z0, of _ "Fin (of_int (t - ?W))"] unfolding scores_live by blast
  have z1: "zset_of (v_val v w1 key) = Some (scores ?live)" using finite_live [OF fin] by (simp add: w1(2) zset_of_scores)
  then have card: "ZCARD ops key w1 = (w1, Inr n)" using law_ZCARD [OF laws z1] by (simp add: n_def)
  show ?thesis
  proof (cases "n < rsw_limit l")
    case True
    have n: "\<bar>n\<bar> \<le> 2 ^ 53" "\<bar>rsw_limit l - n\<bar> \<le> 2 ^ 53" "\<bar>rsw_limit l - n - 1\<bar> \<le> 2 ^ 53" "\<bar>rsw_limit l - n - 1\<bar> < 2 ^ 63"
      using True c by (simp_all add: n_def)
    have "fsub (fsub (Fin (of_int (rsw_limit l))) (Fin (of_int n))) (Fin 1) = Fin (of_int (rsw_limit l - n - 1))"
      using fsub_ints [OF n(2)] fsub_ints [of "rsw_limit l - n" 1] n(3) by simp
    moreover have "is_f64 (Fin (of_int t))" using t by (intro is_f64_int) simp
    then have "tonumber (numberArg ops (Fin (of_int t))) = Some (Fin (of_int t))" by (rule law_numberArg [OF laws])
    then obtain w2 k2 where w2: "ZADD ops key (numberArg ops (Fin (of_int t))) ?m w1 = (w2, Inr k2)"
      "v_val v w2 = (v_val v w1)(key := ZSet ((scores ?live)(?m \<mapsto> Fin (of_int t))))"
      using law_ZADD [OF laws z1] by blast
    obtain w3 where w3: "expireAndReply ops key (Some (Fin (of_int ?ttl))) (Fin 1) (Fin (of_int (rsw_limit l - n - 1))) (Fin 0) w2
        = (w3, Inr (RArr [RInt (replyInt ops (Fin 1)), RInt (replyInt ops (Fin (of_int (rsw_limit l - n - 1)))),
                          RInt (replyInt ops (Fin 0))]))" "v_val v w3 = v_val v w2"
      using expireAndReply_eq [OF laws c(5)] by blast
    ultimately have "sliding_window_log_lua ops [key] (map enc (rsw_args l e)) w
        = (w3, Inr (RArr [RInt 1, RInt (rsw_limit l - n - 1), RInt 0]))"
      using now args ws w1(1) w2(1) w3(1) card True n law_replyInt [OF laws n(4)] law_replyInt [OF laws, of 1] law_replyInt [OF laws, of 0]
      by (simp add: sliding_window_log_lua_def Let_def stringAt_def f64_of_int_exact)
    moreover have "sw_decide l e t st = (?live(?m \<mapsto> t), \<lparr>Allowed = True, Remaining = rsw_limit l - n - 1, RetryAfter = 0\<rparr>)"
      using True by (simp add: sw_decide_def Let_def n_def)
    moreover have "scores (?live(?m \<mapsto> t)) \<noteq> Map.empty" unfolding scores_empty_iff by simp
    ultimately show ?thesis
      using w3(2) w2(2) w1(2) by (simp add: reply_for_def rsw_rep_def scores_update zset_value_def)
  next
    case False
    have ne: "?live \<noteq> Map.empty" using False c(1) by (force simp: n_def)
    note m = Min_live [OF fin ne]
    define d where "d = Min (ran ?live) + ?W - t"
    have r: "0 \<le> Min (ran ?live)" "Min (ran ?live) \<le> max_millis"
      using m ran_live(1) [of ?W t st] inv by (auto simp: rsw_inv_def)
    have d: "\<bar>Min (ran ?live) + ?W\<bar> \<le> 2 ^ 53" "\<bar>d\<bar> \<le> 2 ^ 53" "\<bar>d\<bar> < 2 ^ 63" using r c t by (simp_all add: d_def)
    have lt: "\<not> flt (f64_of_int n) (Fin (of_int (rsw_limit l)))" using False c by (intro f64_of_int_not_less) simp_all
    obtain mb x s where z: "ZRANGE_WITHSCORES ops key ''0'' ''0'' w1 = (w1, Inr [mb, s])"
      "scores ?live mb = Some x" "tonumber s = Some x" "\<forall>y \<in> ran (scores ?live). \<not> flt y x"
      using law_ZRANGE [OF laws z1] ne by auto
    have x: "x = Fin (of_int (Min (ran ?live)))" using finite_live [OF fin] z(2,4) by (rule least_score)
    have "fsub (fadd x (Fin (of_int ?W))) (Fin (of_int t)) = Fin (of_int d)"
      using fadd_ints [OF d(1)] fsub_ints [of "Min (ran ?live) + ?W" t] d(2) by (simp add: x d_def)
    moreover obtain w3 where w3: "expireAndReply ops key (Some (Fin (of_int ?ttl))) (Fin 0) (Fin 0) (Fin (of_int d)) w1
        = (w3, Inr (RArr [RInt (replyInt ops (Fin 0)), RInt (replyInt ops (Fin 0)), RInt (replyInt ops (Fin (of_int d)))]))"
      "v_val v w3 = v_val v w1"
      using expireAndReply_eq [OF laws c(5)] by blast
    ultimately have "sliding_window_log_lua ops [key] (map enc (rsw_args l e)) w = (w3, Inr (RArr [RInt 0, RInt 0, RInt d]))"
      using now args ws w1(1) card lt z(1,3) law_replyInt [OF laws d(3)] law_replyInt [OF laws, of 0]
      by (simp add: sliding_window_log_lua_def Let_def stringAt_def numberAt_def)
    moreover have "sw_decide l e t st = (?live, \<lparr>Allowed = False, Remaining = 0, RetryAfter = d * Millisecond\<rparr>)"
      using False by (simp add: sw_decide_def Let_def n_def d_def)
    ultimately show ?thesis using w3(2) w1(2) by (simp add: reply_for_def rsw_rep_def Millisecond_def)
  qed
qed

lemma r_SlidingWindow_Allow_eq:
  "r_SlidingWindow_Allow (l, w) e key =
     (case redis_allow (rsw_base l) (rsw_args l e) (fst e) (rsw_script l) w key of
        ((sc, w'), out) \<Rightarrow> Some ((l\<lparr>rsw_script := sc\<rparr>, w'), out))"
  by (cases e) (simp add: r_SlidingWindow_Allow_def redis_allow_def rsw_args_def window_ms_def Let_def case_prod_beta
      split: option.split)

lemma rsw_script_simps [simp]:
  "sw_decide (l\<lparr>rsw_script := sc\<rparr>) = sw_decide l" "rsw_inv (l\<lparr>rsw_script := sc\<rparr>) = rsw_inv l"
  "rsw_rep (l\<lparr>rsw_script := sc\<rparr>) = rsw_rep l" "rsw_cfg (l\<lparr>rsw_script := sc\<rparr>) = rsw_cfg l"
  "rsw_args (l\<lparr>rsw_script := sc\<rparr>) = rsw_args l"
  by (simp_all add: sw_decide_def rsw_inv_def rsw_rep_def rsw_cfg_def rsw_args_def window_ms_def fun_eq_iff Let_def)

interpretation rsw: redis_limiter sw_decide rsw_inv rsw_rep Map.empty rsw_cfg sliding_window_log_lua rsw_args
  r_SlidingWindow_Allow rsw_base rsw_script "\<lambda>sc l. l\<lparr>rsw_script := sc\<rparr>" fst
proof unfold_locales
  fix l :: "'w r_SlidingWindow"
  show "rsw_inv l Map.empty" "rsw_rep l Absent Map.empty"
    by (simp_all add: rsw_inv_def rsw_rep_def zset_value_def scores_def fun_eq_iff)
qed (simp_all add: sw_decide_ok sw_script_runs r_SlidingWindow_Allow_eq)

subsection \<open>The random members\<close>

text \<open>\<open>strconv.ParseUint(s, 16, 64)\<close> on what \<open>FormatUint\<close> writes.\<close>

definition hex_digit :: "char \<Rightarrow> nat" where
  "hex_digit c = (let n = of_char c in if n < 58 then n - 48 else n - 87)"

definition hex_value :: "string \<Rightarrow> nat" where
  "hex_value = foldl (\<lambda>v c. 16 * v + hex_digit c) 0"

lemma hex_digit_char: "d < 16 \<Longrightarrow> hex_digit (char_of (if d < 10 then 48 + d else 87 + d)) = d"
  by (simp add: hex_digit_def)

lemma hex_loop_value:
  assumes "n < 16 ^ k"
  shows "foldl (\<lambda>v c. 16 * v + hex_digit c) 0 (hex_loop k n acc) = foldl (\<lambda>v c. 16 * v + hex_digit c) n acc"
  using assms
proof (induction k arbitrary: n acc)
  case (Suc k)
  let ?c = "char_of (if n mod 16 < 10 then 48 + n mod 16 else 87 + n mod 16) :: char"
  have d: "hex_digit ?c = n mod 16" by (rule hex_digit_char) simp
  show ?case
  proof (cases "n div 16 = 0")
    case True
    then have h: "hex_loop (Suc k) n acc = ?c # acc" and n: "n mod 16 = n" by (simp_all add: Let_def)
    show ?thesis unfolding h foldl.simps d by (simp add: n)
  next
    case False
    then have h: "hex_loop (Suc k) n acc = hex_loop k (n div 16) (?c # acc)" by (simp add: Let_def)
    have "n div 16 < 16 ^ k" using Suc.prems by (simp add: less_mult_imp_div_less mult.commute)
    from Suc.IH [OF this, of "?c # acc"] show ?thesis unfolding h foldl.simps d by simp
  qed
qed simp

lemma hex_value_FormatUint16: "hex_value (FormatUint16 n) = unat n"
proof -
  have "unat n < 2 ^ 64" using unsigned_less [of n] by simp
  then have "unat n < 16 ^ 16" by simp
  then show ?thesis using hex_loop_value [of "unat n" 16 "''''"] by (simp add: hex_value_def FormatUint16_def)
qed

lemma FormatUint16_eq [simp]: "FormatUint16 m = FormatUint16 n \<longleftrightarrow> m = n"
  by (metis hex_value_FormatUint16 word_unat_eq_iff)

subsection \<open>The reference\<close>

text \<open>The answers of the reference, with its waits in milliseconds.\<close>

definition in_millis :: "Result \<Rightarrow> Result" where
  "in_millis r = r\<lparr>RetryAfter := RetryAfter r * Millisecond\<rparr>"

lemma live_scores_map_of:
  assumes "distinct (map fst al)"
  shows "live_scores w t (map_of al) = map_of (filter (\<lambda>(m, x). t - w < x) al)"
proof
  fix k
  have "live_scores w t (map_of al) k = Some x \<longleftrightarrow> (k, x) \<in> set al \<and> t - w < x" for x
    using map_of_eq_Some_iff [OF assms, of k x] by (auto simp: live_scores_def restrict_map_def)
  moreover have "map_of (filter (\<lambda>(m, x). t - w < x) al) k = Some x \<longleftrightarrow> (k, x) \<in> set al \<and> t - w < x" for x
    using distinct_map_filter [OF assms] by (simp add: map_of_eq_Some_iff)
  ultimately show "live_scores w t (map_of al) k = map_of (filter (\<lambda>(m, x). t - w < x) al) k"
    by (metis not_None_eq)
qed

lemma card_dom_map_of: "distinct (map fst al) \<Longrightarrow> card (dom (map_of al)) = length al"
  by (metis distinct_card dom_map_of_conv_image_fst length_map set_map)

lemma ran_map_of: "distinct (map fst al) \<Longrightarrow> ran (map_of al) = set (map snd al)"
  by (simp add: ran_distinct)

lemma map_of_snoc: "m \<notin> set (map fst al) \<Longrightarrow> (map_of al)(m \<mapsto> t) = map_of (al @ [(m, t)])"
proof -
  assume "m \<notin> set (map fst al)"
  then have "map_of al m = None" by (simp add: map_of_eq_None_iff)
  then show ?thesis by (intro ext) (auto simp: map_add_def split: option.split)
qed

lemma Min_sorted: "sorted l \<Longrightarrow> l \<noteq> [] \<Longrightarrow> Min (set l) = hd l"
  by (cases l) (auto intro!: Min_eqI)

lemma replay_reference:
  fixes l :: "'w r_SlidingWindow"
  assumes "rsw_cfg l" "sorted (t0 # map snd ets)" "distinct (map (snd \<circ> fst) ets)"
    and "distinct (map fst al)" "set (map fst al) \<inter> set (map (FormatUint16 \<circ> snd \<circ> fst) ets) = {}"
    and "\<And>t. t0 \<le> t \<Longrightarrow> filter (\<lambda>x. t - window_ms l < x) (map snd al) = in_window (window_ms l) t hist"
    and "sorted (hist @ [t0])"
  shows "replay (sw_decide l) (map_of al) ets
     = map in_millis (window_reference (rsw_limit l) (window_ms l) hist (map snd ets))"
  using assms(2-)
proof (induction ets arbitrary: t0 al hist)
  case Nil
  then show ?case by simp
next
  case (Cons x ets)
  obtain e t where x: "x = (e, t)" by (cases x)
  let ?W = "window_ms l" and ?al = "filter (\<lambda>(m, x). t - window_ms l < x) al" and ?l = "in_window (window_ms l) t hist"
  have t: "t0 \<le> t" "sorted (t # map snd ets)" using Cons.prems(1) by (auto simp: x)
  have ds: "distinct (map fst ?al)" using Cons.prems(3) by (rule distinct_map_filter)
  have live: "live_scores ?W t (map_of al) = map_of ?al" using Cons.prems(3) by (rule live_scores_map_of)
  have snds: "map snd ?al = ?l"
    using Cons.prems(5) [OF t(1)] by (simp add: filter_map comp_def case_prod_unfold)
  then have len: "length ?al = length ?l" by (metis length_map)
  have card: "card (dom (map_of ?al)) = length ?l" using card_dom_map_of [OF ds] len by simp
  have ran: "ran (map_of ?al) = set ?l" using ran_map_of [OF ds] snds by simp
  have sub: "set (map fst ?al) \<inter> set (map (FormatUint16 \<circ> snd \<circ> fst) ets) = {}" using Cons.prems(4) by auto
  have fil: "filter (\<lambda>x. t' - ?W < x) ?l = in_window ?W t' hist" if "t \<le> t'" for t'
    using that unfolding in_window_def filter_filter by (intro filter_cong) auto
  have dst: "distinct (map (snd \<circ> fst) ets)" using Cons.prems(2) by (simp add: comp_def)
  have srt: "sorted (hist @ [t])" using Cons.prems(6) t(1) by (auto simp: sorted_append)
  have l: "sorted ?l" using Cons.prems(6) by (simp add: in_window_def sorted_append sorted_wrt_filter)
  show ?case
  proof (cases "int (length ?l) < rsw_limit l")
    case True
    let ?m = "FormatUint16 (snd e)" and ?al' = "?al @ [(FormatUint16 (snd e), t)]"
    have new: "?m \<notin> set (map fst ?al)" using Cons.prems(4) by (auto simp: x)
    then have st: "(map_of ?al)(?m \<mapsto> t) = map_of ?al'" by (rule map_of_snoc)
    have d: "sw_decide l e t (map_of al)
        = (map_of ?al', \<lparr>Allowed = True, Remaining = rsw_limit l - int (length ?l) - 1, RetryAfter = 0\<rparr>)"
      using True card st by (simp add: sw_decide_def live Let_def)
    have "filter (\<lambda>x. t' - ?W < x) (map snd ?al') = in_window ?W t' (hist @ [t])" if "t \<le> t'" for t'
      using fil [OF that] snds by (simp add: in_window_def)
    moreover have "distinct (map fst ?al')" using ds new by simp
    moreover have "set (map fst ?al') \<inter> set (map (FormatUint16 \<circ> snd \<circ> fst) ets) = {}"
      using sub Cons.prems(2) by (force simp: x)
    moreover have "sorted ((hist @ [t]) @ [t])" using srt by (auto simp: sorted_append)
    ultimately have "replay (sw_decide l) (map_of ?al') ets
        = map in_millis (window_reference (rsw_limit l) ?W (hist @ [t]) (map snd ets))"
      using Cons.IH [OF t(2) dst, of ?al' "hist @ [t]"] by blast
    then show ?thesis using True by (simp add: x d Let_def in_millis_def)
  next
    case False
    have "?l \<noteq> []" using False assms(1) by (auto simp: rsw_cfg_def)
    then have "Min (ran (map_of ?al)) = hd ?l" using l by (simp add: ran Min_sorted)
    then have d: "sw_decide l e t (map_of al)
        = (map_of ?al, \<lparr>Allowed = False, Remaining = 0, RetryAfter = (hd ?l + ?W - t) * Millisecond\<rparr>)"
      using False card by (simp add: sw_decide_def live Let_def)
    have "replay (sw_decide l) (map_of ?al) ets
        = map in_millis (window_reference (rsw_limit l) ?W hist (map snd ets))"
      using Cons.IH [OF t(2) dst ds sub _ srt] fil unfolding snds by blast
    then show ?thesis using False by (simp add: x d Let_def in_millis_def)
  qed
qed

subsection \<open>Properties\<close>

lemma r_NewSlidingWindow_served:
  assumes "r_NewSlidingWindow body client limit window opts = Inr l"
    and "honest be client body sliding_window_log_lua"
    and "limit \<le> 2 ^ 53" "Milliseconds window \<le> max_millis" "in_int64 (r_keyTTL (l_opts (rsw_base l)))"
  shows "rsw.served be l" "rsw_limit l = limit" "window_ms l = Milliseconds window" "0 < limit" "0 < window"
proof -
  have l: "0 < limit" "0 < window" "l = \<lparr>rsw_base = newLimiter client opts,
      rsw_script = NewScript ''sliding_window_log'' body, rsw_limit = limit, rsw_window = window\<rparr>"
    using assms(1) by (auto simp: r_NewSlidingWindow_def split: if_splits)
  then show lim: "rsw_limit l = limit" "window_ms l = Milliseconds window" "0 < limit" "0 < window"
    by (simp_all add: window_ms_def)
  have "0 \<le> Milliseconds window"
    using l(2) by (simp add: Milliseconds_nonneg Millisecond_def pos_imp_zdiv_nonneg_iff)
  then have "rsw_cfg l" using lim assms(3-5) Milliseconds_le by (simp add: rsw_cfg_def)
  then show "rsw.served be l"
    using assms(2) by (simp add: rsw.served_def l(3) newLimiter_def NewScript_def sha_ok_def)
qed

lemma redis_window_run:
  assumes l: "r_NewSlidingWindow body client limit window opts = Inr l"
    and be: "honest be client body sliding_window_log_lua" "no_keys be (rsw_base l) w"
    and bounds: "limit \<le> 2 ^ 53" "Milliseconds window \<le> max_millis" "in_int64 (r_keyTTL (l_opts (rsw_base l)))"
    and ts: "list_all2 (\<lambda>(e, k) t. quiet be t (fst e)) rs ts" "sorted (map snd (timed_for key rs ts))"
    and salts: "distinct (map (snd \<circ> fst) (timed_for key rs ts))" and key: "\<not> blank key"
  shows "\<exists>s' outs. requests r_SlidingWindow_Allow (l, w) rs = Some (s', outs)
     \<and> answers_for key rs outs
        = map (\<lambda>r. (in_millis r, None)) (window_reference limit (Milliseconds window) [] (map snd (timed_for key rs ts)))"
proof -
  note S = r_NewSlidingWindow_served [OF l be(1) bounds]
  have cfg: "rsw_cfg l" using S(1) by (simp add: rsw.served_def)
  let ?ets = "timed_for key rs ts"
  have "replay (sw_decide l) (map_of []) ?ets = map in_millis (window_reference (rsw_limit l) (window_ms l) [] (map snd ?ets))"
  proof (rule replay_reference [OF cfg])
    show "sorted ((if ?ets = [] then 0 else snd (hd ?ets)) # map snd ?ets)" using ts(2) by (cases ?ets) auto
  qed (use salts in \<open>simp_all add: in_window_def\<close>)
  then show ?thesis
    using rsw.new_refines [OF S(1) be(2) key ts(1)] by (simp add: S(2,3) comp_def)
qed

text \<open>
  Claim C12. The Redis sliding window computes the same answers as the in-memory one. On a server
  that keeps its promises, in any run through a new limiter, with any other keys interleaved, the
  answers for one key are those of the reference that the in-memory sliding window refines too, at
  the resolution of whole milliseconds: the window in milliseconds, the server's times, and waits
  that are multiples of a millisecond. (Times do not run backwards, no key expires in between,
  and the random members of the key's requests are distinct.)
\<close>

theorem redis_window_exact:
  assumes "r_NewSlidingWindow body client limit window opts = Inr l"
    and "honest be client body sliding_window_log_lua" "no_keys be (rsw_base l) w"
    and "limit \<le> 2 ^ 53" "Milliseconds window \<le> max_millis" "in_int64 (r_keyTTL (l_opts (rsw_base l)))"
    and "list_all2 (\<lambda>(e, k) t. quiet be t (fst e)) rs ts" "sorted (map snd (timed_for key rs ts))"
    and "distinct (map (snd \<circ> fst) (timed_for key rs ts))" and "\<not> blank key"
  shows "\<exists>s' outs. requests r_SlidingWindow_Allow (l, w) rs = Some (s', outs)
     \<and> answers_for key rs outs
        = map (\<lambda>r. (in_millis r, None)) (window_reference limit (Milliseconds window) [] (map snd (timed_for key rs ts)))"
  using assms by (rule redis_window_run)


text \<open>
  Claim C30. The Redis sliding window keeps the limiter contract in every run on a server that
  keeps its promises, where keys may expire and the clock may jump in any direction.
\<close>

theorem redis_window_contract:
  assumes "r_NewSlidingWindow body client limit window opts = Inr l"
    and "honest be client body sliding_window_log_lua" "no_keys be (rsw_base l) w"
    and "limit \<le> 2 ^ 53" "Milliseconds window \<le> max_millis" "in_int64 (r_keyTTL (l_opts (rsw_base l)))"
    and "\<forall>(e, key) \<in> set rs. benign be (rsw_base l) (fst e)"
  shows "\<exists>s' outs. requests r_SlidingWindow_Allow (l, w) rs = Some (s', outs) \<and> length outs = length rs
     \<and> list_all2 (\<lambda>(e, key) (ret, evs). return_ok key ret) rs outs"
  using r_NewSlidingWindow_served(1) [OF assms(1,2,4-6)] assms(3,7) by (rule rsw.new_contract)

text \<open>
  The members that keep simultaneous requests apart: \<open>FormatUint\<close> in base 16 can be read
  back, so distinct random numbers give distinct members of the sorted set.
\<close>

theorem FormatUint16_roundtrip: "hex_value (FormatUint16 n) = unat n"
  by (rule hex_value_FormatUint16)

lemma reference_window_0:
  "sorted (hist @ ts) \<Longrightarrow> 0 < limit \<Longrightarrow> \<forall>r \<in> set (window_reference limit 0 hist ts). Allowed r"
proof (induction ts arbitrary: hist)
  case (Cons t ts)
  have "in_window 0 t hist = []" using Cons.prems(1) by (auto simp: in_window_def filter_empty_conv sorted_append)
  then show ?case using Cons.IH [of "hist @ [t]"] Cons.prems by (simp add: Let_def)
qed simp

subsection \<open>Witnesses\<close>

definition demo_window :: "server r_SlidingWindow" where
  "demo_window = \<lparr>rsw_base = newLimiter the_client [],
     rsw_script = NewScript ''sliding_window_log'' ''sliding_window_log.lua'', rsw_limit = 1, rsw_window = 10 * Millisecond\<rparr>"

definition window_requests :: "(((server \<Rightarrow> server) \<times> 64 word) \<times> string) list" where
  "window_requests = [((at_millis 1, 7), ''a''), ((at_millis 2, 7), ''b''), ((at_millis 5, 8), ''a''), ((at_millis 11, 9), ''a'')]"

lemma demo_window_new:
  "r_NewSlidingWindow ''sliding_window_log.lua'' the_client 1 (10 * Millisecond) [] = Inr demo_window"
  "in_int64 (r_keyTTL (l_opts (rsw_base demo_window)))"
  by (simp_all add: r_NewSlidingWindow_def demo_window_def Millisecond_def newLimiter_def r_defaultOptions_def
      Minute_def Second_def in_int64_def min_int64_def max_int64_def)

lemma window_requests_facts:
  "list_all2 (\<lambda>(e, k) t. quiet the_backend t (fst e)) window_requests [1, 2, 5, 11]"
  "timed_for ''a'' window_requests [1, 2, 5, 11] = [((at_millis 1, 7), 1), ((at_millis 5, 8), 5), ((at_millis 11, 9), 11)]"
  "\<forall>(e, key) \<in> set window_requests. benign the_backend (rsw_base demo_window) (fst e)"
  by (simp_all add: window_requests_def quiet_at benign_at)

lemma Milliseconds_10: "Milliseconds (10 * Millisecond) = 10" "Milliseconds 10000000 = 10"
  by (simp_all add: Milliseconds_nonneg Millisecond_def)

theorem redis_window_exact_witness:
  "\<exists>s' outs. requests r_SlidingWindow_Allow (demo_window, empty_server) window_requests = Some (s', outs)
     \<and> answers_for ''a'' window_requests outs
        = [(\<lparr>Allowed = True, Remaining = 0, RetryAfter = 0\<rparr>, None), (\<lparr>Allowed = False, Remaining = 0, RetryAfter = 6000000\<rparr>, None),
           (\<lparr>Allowed = True, Remaining = 0, RetryAfter = 0\<rparr>, None)]"
  using redis_window_exact [OF demo_window_new(1) the_honest(3) no_keys_empty_server _ _ demo_window_new(2)
      window_requests_facts(1), of "''a''"] key_a
  by (simp add: Milliseconds_10 window_requests_facts(2) in_window_def Let_def in_millis_def Millisecond_def)


theorem redis_window_contract_witness:
  "\<exists>s' outs. requests r_SlidingWindow_Allow (demo_window, empty_server) window_requests = Some (s', outs)
     \<and> list_all2 (\<lambda>(e, key) (ret, evs). return_ok key ret) window_requests outs"
  using redis_window_contract [OF demo_window_new(1) the_honest(3) no_keys_empty_server _ _ demo_window_new(2)
      window_requests_facts(3)]
  by (auto simp: Milliseconds_10)

text \<open>
  A window below a millisecond, which \<open>NewSlidingWindow\<close> accepts, is passed to the script as 0
  milliseconds, and the limiter never denies a request.
\<close>

theorem redis_window_submillisecond:
  assumes "r_NewSlidingWindow body client limit window opts = Inr l" "window < Millisecond"
    and "honest be client body sliding_window_log_lua" "no_keys be (rsw_base l) w"
    and "limit \<le> 2 ^ 53" "in_int64 (r_keyTTL (l_opts (rsw_base l)))"
    and "list_all2 (\<lambda>(e, k) t. quiet be t (fst e)) rs ts" "sorted (map snd (timed_for key rs ts))"
    and "distinct (map (snd \<circ> fst) (timed_for key rs ts))" and "\<not> blank key"
  shows "\<exists>s' outs. requests r_SlidingWindow_Allow (l, w) rs = Some (s', outs)
     \<and> (\<forall>ret \<in> set (answers_for key rs outs). Allowed (fst ret))"
proof -
  have "0 < limit" "0 < window" using assms(1) by (auto simp: r_NewSlidingWindow_def split: if_splits)
  then have m: "Milliseconds window = 0" using assms(2) by (simp add: Milliseconds_nonneg Millisecond_def)
  then have "Milliseconds window \<le> max_millis" by simp
  from redis_window_run [OF assms(1,3,4,5) this assms(6-10)]
  obtain s' outs where "requests r_SlidingWindow_Allow (l, w) rs = Some (s', outs)"
    "answers_for key rs outs = map (\<lambda>r. (in_millis r, None)) (window_reference limit 0 [] (map snd (timed_for key rs ts)))"
    unfolding m by blast
  moreover have "\<forall>r \<in> set (window_reference limit 0 [] (map snd (timed_for key rs ts))). Allowed r"
    using assms(8) \<open>0 < limit\<close> by (intro reference_window_0) simp_all
  ultimately show ?thesis by (auto simp: in_millis_def)
qed

end
