(* ===== verification/Redis_Errors.thy ===== *)
theory Redis_Errors
  imports Redis_LeakyBucket Redis_Window
begin

section \<open>When Redis fails\<close>

text \<open>
  The behaviour of the Redis limiters with any client: which errors there are, what a caller and
  the sinks see of them, and how the script runner recovers from a flushed script cache.
\<close>

subsection \<open>The script runner\<close>

text \<open>Every error of the script runner is one of the two errors the package declares.\<close>

lemma Script_Load_error: "Script_Load c s w = (s', Some err) \<Longrightarrow> \<exists>msg. err = ErrRedisUnavailable msg"
  by (auto simp: Script_Load_def split: prod.splits sum.splits)

lemma Script_Run_error:
  "Script_Run c s w keys args = (s', Inl err) \<Longrightarrow> (\<exists>msg. err = ErrRedisUnavailable msg) \<or> (\<exists>msg. err = ErrScript msg)"
  by (auto simp: Script_Run_def split: prod.splits sum.splits option.splits if_splits dest: Script_Load_error)

text \<open>
  A client without a connection: every command fails, and not because of a missing script.
\<close>

definition unreachable :: "'w client \<Rightarrow> bool" where
  "unreachable c \<longleftrightarrow> (\<forall>w body. \<exists>w' msg. ScriptLoad c w body = (w', Inl msg))
     \<and> (\<forall>w sh keys args. \<exists>w' msg. EvalSha c w sh keys args = (w', Inl msg))"

lemma Script_Load_unreachable: "unreachable c \<Longrightarrow> \<exists>w' msg. Script_Load c s w = ((s, w'), Some (ErrRedisUnavailable msg))"
  unfolding unreachable_def Script_Load_def by (metis (no_types, lifting) old.prod.case old.sum.simps(5))

lemma Script_Run_unreachable:
  assumes "unreachable c"
  shows "\<exists>w' err. Script_Run c s w keys args = ((s, w'), Inl err)"
proof (cases "getSHA s = ''''")
  case True
  then show ?thesis using Script_Load_unreachable [OF assms, of s w] by (auto simp: Script_Run_def)
next
  case False
  obtain w1 msg where e: "EvalSha c w (getSHA s) keys args = (w1, Inl msg)"
    using assms unfolding unreachable_def by meson
  show ?thesis
    using False e Script_Load_unreachable [OF assms, of s w1] by (auto simp: Script_Run_def)
qed

subsection \<open>Replies\<close>

text \<open>The replies that are decisions, and the error of the others.\<close>

fun good_reply :: "go_error + reply \<Rightarrow> bool" where
  "good_reply (Inr (RArr [RInt _, RInt _, RInt _])) = True"
| "good_reply _ = False"

definition reply_error :: "go_error + reply \<Rightarrow> go_error" where
  "reply_error out = (case out of
      Inl err \<Rightarrow> err
    | Inr (RArr [a, b, c]) \<Rightarrow> ErrScript ''unexpected result element type []interface {}''
    | Inr res \<Rightarrow> ErrScript (''unexpected result type '' @ reply_type res))"

text \<open>What the sinks and the callback see of a degraded request.\<close>

definition degraded_events :: "r_Options \<Rightarrow> go_error \<Rightarrow> Result \<Rightarrow> event list" where
  "degraded_events opts err result =
     (if r_sink opts then [OnError TierSingle err] else [])
     @ (if has_onError opts then [ErrorCallback err] else [])
     @ (if r_sink opts then [if Allowed result then OnAllowed TierSingle result else OnRejected TierSingle result] else [])"

definition degraded_result :: "r_Options \<Rightarrow> Result" where
  "degraded_result opts = \<lparr>Allowed = (policy opts = ErrorFailOpen), Remaining = 0, RetryAfter = 0\<rparr>"

lemma degrade_eq:
  "degrade base err = ((degraded_result (l_opts base), None), degraded_events (l_opts base) err (degraded_result (l_opts base)))"
  by (simp add: degrade_def fallback_def onError_def r_emit_def r_emitError_def degraded_events_def degraded_result_def
      zero_Result_def)

lemma decide_reply_bad:
  "\<not> good_reply out \<Longrightarrow> decide_reply base out
     = ((degraded_result (l_opts base), None), degraded_events (l_opts base) (reply_error out) (degraded_result (l_opts base)))"
proof (cases out)
  case (Inr res)
  assume "\<not> good_reply out"
  then show ?thesis
    unfolding Inr decide_reply_def reply_error_def
    by (cases res) (auto simp: degrade_eq split: list.splits reply.splits)
qed (simp add: decide_reply_def reply_error_def degrade_eq)

lemma decide_reply_no_error: "snd (fst (decide_reply base out)) = None"
proof (cases "good_reply out")
  case True
  then obtain a b c where "out = Inr (RArr [RInt a, RInt b, RInt c])" by (elim good_reply.elims(2)) auto
  then show ?thesis by (simp add: decide_reply_def Let_def)
qed (simp add: decide_reply_bad)

lemma redis_allow_error:
  "snd (fst (snd (redis_allow base args step sc w key))) = (if blank key then Some RedisBlankKey else None)"
  using decide_reply_no_error
  by (auto simp: redis_allow_def redis_validateKey_def case_prod_beta Let_def)


lemma redis_allow_unreachable:
  assumes "unreachable (l_client base)" "\<not> blank key"
  shows "\<exists>w' err. redis_allow base args step sc w key =
    ((sc, w'), (degraded_result (l_opts base), None), degraded_events (l_opts base) err (degraded_result (l_opts base)))"
proof -
  obtain w' err where "Script_Run (l_client base) sc (step w) [keyFor base key] args = ((sc, w'), Inl err)"
    using Script_Run_unreachable [OF assms(1)] by blast
  then have "redis_allow base args step sc w key =
    ((sc, w'), (degraded_result (l_opts base), None), degraded_events (l_opts base) err (degraded_result (l_opts base)))"
    using assms(2) by (simp add: redis_allow_def redis_validateKey_def decide_reply_bad reply_error_def)
  then show ?thesis by blast
qed

lemma rtb_unreachable:
  assumes "unreachable (l_client (rtb_base l))" "\<not> blank key"
  shows "\<exists>w' evs. r_TokenBucket_Allow (l, w) e key = Some ((l, w'), (degraded_result (l_opts (rtb_base l)), None), evs)"
  using redis_allow_unreachable [OF assms, of "rtb_args l e" e "rtb_script l" w] by (auto simp: r_TokenBucket_Allow_eq)

lemma rlb_unreachable:
  assumes "unreachable (l_client (rlb_base l))" "\<not> blank key"
  shows "\<exists>w' evs. r_LeakyBucket_Allow (l, w) e key = Some ((l, w'), (degraded_result (l_opts (rlb_base l)), None), evs)"
  using redis_allow_unreachable [OF assms, of "rlb_args l e" e "rlb_script l" w] by (auto simp: r_LeakyBucket_Allow_eq)

lemma rsw_unreachable:
  assumes "unreachable (l_client (rsw_base l))" "\<not> blank key"
  shows "\<exists>w' evs. r_SlidingWindow_Allow (l, w) (e, salt) key = Some ((l, w'), (degraded_result (l_opts (rsw_base l)), None), evs)"
  using redis_allow_unreachable [OF assms, of "rsw_args l (e, salt)" e "rsw_script l" w] by (auto simp: r_SlidingWindow_Allow_eq)

subsection \<open>Properties\<close>

text \<open>
  Claim C33. Whatever the client does, \<open>Allow\<close> of the three Redis limiters returns, and its error is
  the one for a blank key or nil: errors of Redis never reach the caller.
\<close>

theorem redis_errors_degrade:
  "(\<exists>s' res evs. r_TokenBucket_Allow (tb, w) e key = Some (s', (res, if blank key then Some RedisBlankKey else None), evs))
   \<and> (\<exists>s' res evs. r_LeakyBucket_Allow (lb, w) e key = Some (s', (res, if blank key then Some RedisBlankKey else None), evs))
   \<and> (\<exists>s' res evs. r_SlidingWindow_Allow (sw, w) (e, salt) key = Some (s', (res, if blank key then Some RedisBlankKey else None), evs))"
proof -
  let ?err = "if blank key then Some RedisBlankKey else None"
  have out: "\<exists>s' res evs. (case redis_allow base args step sc w key of ((sc', w'), out) \<Rightarrow> Some ((f sc', w'), out))
      = Some (s', (res, ?err), evs)" for base :: "'a r_limiter" and args step sc and f :: "Script \<Rightarrow> 'l"
  proof -
    obtain sc' w' res err evs where r: "redis_allow base args step sc w key = ((sc', w'), (res, err), evs)" by (metis prod.collapse)
    then have "err = ?err" using redis_allow_error [of base args step sc w key] by simp
    then show ?thesis using r by simp
  qed
  show ?thesis
    unfolding r_TokenBucket_Allow_eq r_LeakyBucket_Allow_eq r_SlidingWindow_Allow_eq by (intro conjI out)
qed

text \<open>
  Claim C34. A degraded request. When the script runner fails, or its reply is not an array of
  three integers, \<open>Allow\<close> of each of the three limiters decides by the error policy alone:
  allowed under \<open>ErrorFailOpen\<close>, denied under any other policy, with nothing remaining and no
  wait; the sink sees the error and then the decision, and the callback is called between the
  two.
\<close>

theorem redis_degraded:
  assumes "\<not> blank key" "\<not> good_reply out"
  shows "(Script_Run (l_client (rtb_base tb)) (rtb_script tb) (e w) [keyFor (rtb_base tb) key] (rtb_args tb e) = ((sc, w'), out)
     \<longrightarrow> r_TokenBucket_Allow (tb, w) e key =
       Some ((tb\<lparr>rtb_script := sc\<rparr>, w'),
         (\<lparr>Allowed = (policy (l_opts (rtb_base tb)) = ErrorFailOpen), Remaining = 0, RetryAfter = 0\<rparr>, None),
         degraded_events (l_opts (rtb_base tb)) (reply_error out) (degraded_result (l_opts (rtb_base tb)))))
   \<and> (Script_Run (l_client (rlb_base lb)) (rlb_script lb) (e w) [keyFor (rlb_base lb) key] (rlb_args lb e) = ((sc, w'), out)
     \<longrightarrow> r_LeakyBucket_Allow (lb, w) e key =
       Some ((lb\<lparr>rlb_script := sc\<rparr>, w'),
         (\<lparr>Allowed = (policy (l_opts (rlb_base lb)) = ErrorFailOpen), Remaining = 0, RetryAfter = 0\<rparr>, None),
         degraded_events (l_opts (rlb_base lb)) (reply_error out) (degraded_result (l_opts (rlb_base lb)))))
   \<and> (Script_Run (l_client (rsw_base sw)) (rsw_script sw) (e w) [keyFor (rsw_base sw) key] (rsw_args sw (e, salt)) = ((sc, w'), out)
     \<longrightarrow> r_SlidingWindow_Allow (sw, w) (e, salt) key =
       Some ((sw\<lparr>rsw_script := sc\<rparr>, w'),
         (\<lparr>Allowed = (policy (l_opts (rsw_base sw)) = ErrorFailOpen), Remaining = 0, RetryAfter = 0\<rparr>, None),
         degraded_events (l_opts (rsw_base sw)) (reply_error out) (degraded_result (l_opts (rsw_base sw)))))"
  using assms
  by (auto simp: r_TokenBucket_Allow_eq r_LeakyBucket_Allow_eq r_SlidingWindow_Allow_eq redis_allow_def
      redis_validateKey_def decide_reply_bad degraded_result_def)

text \<open>
  Redis down. While every command of the client fails, each \<open>Allow\<close> of the three limiters
  with a key that is not blank is decided by the error policy alone, whatever was served before,
  and leaves the limiter, cached SHA included, as it was.
\<close>

theorem redis_outage:
  assumes "\<not> blank key"
  shows "(unreachable (l_client (rtb_base tb)) \<longrightarrow> (\<exists>w' evs. r_TokenBucket_Allow (tb, w) e key =
       Some ((tb, w'), (\<lparr>Allowed = (policy (l_opts (rtb_base tb)) = ErrorFailOpen), Remaining = 0, RetryAfter = 0\<rparr>, None), evs)))
   \<and> (unreachable (l_client (rlb_base lb)) \<longrightarrow> (\<exists>w' evs. r_LeakyBucket_Allow (lb, w) e key =
       Some ((lb, w'), (\<lparr>Allowed = (policy (l_opts (rlb_base lb)) = ErrorFailOpen), Remaining = 0, RetryAfter = 0\<rparr>, None), evs)))
   \<and> (unreachable (l_client (rsw_base sw)) \<longrightarrow> (\<exists>w' evs. r_SlidingWindow_Allow (sw, w) (e, salt) key =
       Some ((sw, w'), (\<lparr>Allowed = (policy (l_opts (rsw_base sw)) = ErrorFailOpen), Remaining = 0, RetryAfter = 0\<rparr>, None), evs)))"
  using rtb_unreachable [OF _ assms, of tb w e] rlb_unreachable [OF _ assms, of lb w e] rsw_unreachable [OF _ assms, of sw w e salt]
  by (simp add: degraded_result_def)

text \<open>
  Claim C35. Recovery of the script runner. Against a server that keeps its promises, \<open>Run\<close>
  returns what one execution of the script returns (its value, or its error as \<open>ErrScript\<close>),
  whether the SHA was never loaded, is cached, or was flushed from the server's script cache;
  the SHA is cached afterwards, and loading changes neither data nor clock.
\<close>

theorem script_run_recovers:
  assumes "client_laws be c" "sha_ok be s"
    and "\<And>w1 w2 msg. same_data be w w1 \<Longrightarrow>
      be_script be (sc_body s) keys (map (be_encode be) args) w1 = (w2, Inl msg) \<Longrightarrow> \<not> isNoScriptErr msg"
  shows "\<exists>w1. same_data be w w1 \<and> Script_Run c s w keys args =
     (case be_script be (sc_body s) keys (map (be_encode be) args) w1 of
        (w2, Inr res) \<Rightarrow> ((s\<lparr>sha := be_sha be (sc_body s)\<rparr>, w2), Inr res)
      | (w2, Inl msg) \<Rightarrow> ((s\<lparr>sha := be_sha be (sc_body s)\<rparr>, w2), Inl (ErrScript (''run '' @ sc_name s @ '': '' @ msg))))"
  using assms by (rule Script_Run_once)


text \<open>
  Waits beyond the range of \<open>time.Duration\<close>: a \<open>retry_after_ms\<close> above 292 years, which the scripts
  return for rates below about one token in 292 years, wraps around to a negative wait.
\<close>

theorem redis_wait_wraps:
  "fst (fst (decide_reply base (Inr (RArr [RInt 0, RInt 0, RInt 10000000000000]))))
     = \<lparr>Allowed = False, Remaining = 0, RetryAfter = - 8446744073709551616\<rparr>"
  by (simp add: decide_reply_def Let_def wrap64_def Millisecond_def)

subsection \<open>Witnesses\<close>

definition no_connection :: "nat client" where
  "no_connection = \<lparr>ScriptLoad = (\<lambda>w body. (Suc w, Inl ''connection refused'')),
     EvalSha = (\<lambda>w sh keys args. (Suc w, Inl ''connection refused''))\<rparr>"

definition lonely_bucket :: "nat r_TokenBucket" where
  "lonely_bucket = \<lparr>rtb_base = newLimiter no_connection [WithErrorPolicy ErrorFailOpen, WithOnError True, r_WithMetricSink True],
     rtb_script = NewScript ''token_bucket'' '''', rtb_capacity = Fin 1, rtb_rate = Fin 1\<rparr>"

theorem redis_degraded_witness:
  "r_TokenBucket_Allow (lonely_bucket, 0) (\<lambda>w. w) ''a'' =
     Some ((lonely_bucket, 1), (\<lparr>Allowed = True, Remaining = 0, RetryAfter = 0\<rparr>, None),
       (let err = ErrRedisUnavailable ''load token_bucket: connection refused'' in
        [OnError TierSingle err, ErrorCallback err, OnAllowed TierSingle \<lparr>Allowed = True, Remaining = 0, RetryAfter = 0\<rparr>]))"
proof -
  have run: "Script_Run (l_client (rtb_base lonely_bucket)) (rtb_script lonely_bucket) ((\<lambda>w. w) 0)
      [keyFor (rtb_base lonely_bucket) ''a''] (rtb_args lonely_bucket (\<lambda>w. w))
      = ((rtb_script lonely_bucket, 1), Inl (ErrRedisUnavailable ''load token_bucket: connection refused''))"
    by (simp add: lonely_bucket_def newLimiter_def no_connection_def NewScript_def Script_Run_def Script_Load_def getSHA_def)
  have o: "l_opts (rtb_base lonely_bucket) = r_defaultOptions\<lparr>policy := ErrorFailOpen, has_onError := True, r_sink := True\<rparr>"
    by (simp add: lonely_bucket_def newLimiter_def WithErrorPolicy_def WithOnError_def r_WithMetricSink_def)
  show ?thesis
    using redis_degraded [OF bucket_key, of "Inl (ErrRedisUnavailable ''load token_bucket: connection refused'')" lonely_bucket "\<lambda>w. w" 0]
      run by (simp add: o degraded_events_def degraded_result_def reply_error_def Let_def)
qed

theorem script_run_recovers_witness:
  "\<exists>w1. same_data the_backend empty_server w1
     \<and> Script_Run the_client (NewScript ''token_bucket'' ''token_bucket.lua'') empty_server [] [] =
        (case token_bucket_lua the_redis [] [] w1 of
           (w2, Inr res) \<Rightarrow> ((NewScript ''token_bucket'' ''token_bucket.lua''\<lparr>sha := ''#token_bucket.lua''\<rparr>, w2), Inr res)
         | (w2, Inl msg) \<Rightarrow> ((NewScript ''token_bucket'' ''token_bucket.lua''\<lparr>sha := ''#token_bucket.lua''\<rparr>, w2),
                             Inl (ErrScript (''run token_bucket: '' @ msg))))"
proof -
  let ?s = "NewScript ''token_bucket'' ''token_bucket.lua''"
  have sh: "sha_ok the_backend ?s" by (simp add: sha_ok_def NewScript_def)
  have "\<not> isNoScriptErr msg"
    if "same_data the_backend empty_server w1" "be_script the_backend (sc_body ?s) [] (map (be_encode the_backend) []) w1 = (w2, Inl msg)" for w1 w2 msg
    using that(2)
    by (auto simp: the_backend_def NewScript_def the_script_def token_bucket_lua_def nowMillis_def the_redis_def lua_bind_def
        numberAt_def tonumber_show_int lua_return_def num_def stringAt_def elem_def lua_error_def isNoScriptErr_def Let_def
        split: prod.splits sum.splits)
  then have "\<exists>w1. same_data the_backend empty_server w1 \<and> Script_Run the_client ?s empty_server [] [] =
     (case be_script the_backend (sc_body ?s) [] (map (be_encode the_backend) []) w1 of
        (w2, Inr res) \<Rightarrow> ((?s\<lparr>sha := be_sha the_backend (sc_body ?s)\<rparr>, w2), Inr res)
      | (w2, Inl msg) \<Rightarrow> ((?s\<lparr>sha := be_sha the_backend (sc_body ?s)\<rparr>, w2), Inl (ErrScript (''run '' @ sc_name ?s @ '': '' @ msg))))"
    by (rule script_run_recovers [OF the_client_laws sh])
  moreover have "be_sha the_backend (sc_body ?s) = ''#token_bucket.lua''" "sc_name ?s = ''token_bucket''"
      "be_script the_backend (sc_body ?s) = token_bucket_lua the_redis"
    by (simp_all add: the_backend_def NewScript_def the_script_def)
  ultimately show ?thesis by (simp only: list.map append.simps)
qed

lemma lonely_unreachable: "unreachable (l_client (rtb_base lonely_bucket))"
  by (simp add: unreachable_def lonely_bucket_def newLimiter_def no_connection_def)

theorem redis_outage_witness:
  "\<exists>w' evs. r_TokenBucket_Allow (lonely_bucket, 0) (\<lambda>w. w) ''a'' =
     Some ((lonely_bucket, w'), (\<lparr>Allowed = True, Remaining = 0, RetryAfter = 0\<rparr>, None), evs)"
proof -
  have "policy (l_opts (rtb_base lonely_bucket)) = ErrorFailOpen"
    by (simp add: lonely_bucket_def newLimiter_def WithErrorPolicy_def WithOnError_def r_WithMetricSink_def)
  then show ?thesis using redis_outage [OF bucket_key, of lonely_bucket 0 "\<lambda>w. w"] lonely_unreachable by simp
qed

end
