(* ===== verification/Result_Types.thy ===== *)
theory Result_Types
  imports Mem_TokenBucket Mem_LeakyBucket Mem_SlidingWindow Redis_Errors
begin

section \<open>The range of a \<open>Result\<close>\<close>


subsection \<open>In memory\<close>













subsection \<open>With Redis\<close>






subsection \<open>Property\<close>



end
