(* ===== verification/Middleware.thy ===== *)
theory Middleware
  imports Kaka_Contract Go_Format
begin

section \<open>The middlewares: \<open>middleware/http\<close>, \<open>middleware/gin\<close>, \<open>middleware/echo\<close>, \<open>middleware/fiber\<close>\<close>

text \<open>
  Each package has a \<open>Config\<close> and a constructor that returns the handler to put in front of an
  application. The optional functions of a \<open>Config\<close> are \<open>None\<close> when they are nil. A handler
  works on the limiter's state, on the environment of the call of \<open>Allow\<close> and on what the
  framework hands to it; it returns the new state of the limiter, what became of the response,
  and the sink calls of the limiter. The frameworks are not part of the sources: the methods of
  their contexts are the fields of a record that the constructor takes as an argument, and so are
  the methods of \<open>http.ResponseWriter\<close>, which is an interface.
\<close>

subsection \<open>\<open>retryAfterSeconds\<close>\<close>

text \<open>The four packages have a copy each.\<close>

definition http_retryAfterSeconds :: "duration \<Rightarrow> int" where
  "http_retryAfterSeconds d =
     (let seconds = int64_of_f64 (fCeil (Seconds d)) in if seconds < 1 then 1 else seconds)"

definition gin_retryAfterSeconds :: "duration \<Rightarrow> int" where
  "gin_retryAfterSeconds d =
     (let seconds = int64_of_f64 (fCeil (Seconds d)) in if seconds < 1 then 1 else seconds)"

definition echo_retryAfterSeconds :: "duration \<Rightarrow> int" where
  "echo_retryAfterSeconds d =
     (let seconds = int64_of_f64 (fCeil (Seconds d)) in if seconds < 1 then 1 else seconds)"

definition fiber_retryAfterSeconds :: "duration \<Rightarrow> int" where
  "fiber_retryAfterSeconds d =
     (let seconds = int64_of_f64 (fCeil (Seconds d)) in if seconds < 1 then 1 else seconds)"

lemma retryAfterSeconds_copies:
  "gin_retryAfterSeconds = http_retryAfterSeconds" "echo_retryAfterSeconds = http_retryAfterSeconds"
  "fiber_retryAfterSeconds = http_retryAfterSeconds"
  by (simp_all add: fun_eq_iff http_retryAfterSeconds_def gin_retryAfterSeconds_def
      echo_retryAfterSeconds_def fiber_retryAfterSeconds_def)

definition StatusTooManyRequests :: int where
  "StatusTooManyRequests = 429"

text \<open>The JSON object of the default answer to a denied request, and its text.\<close>

type_synonym json_object = "(string \<times> string) list"

definition tooManyRequests :: json_object where
  "tooManyRequests = [(''error'', ''too many requests'')]"

definition json_text :: "json_object \<Rightarrow> string" where
  "json_text obj =
     (let quote = (\<lambda>s. [CHR 0x22] @ s @ [CHR 0x22]);
          item = (\<lambda>(k, v). quote k @ '':'' @ quote v)
      in ''{'' @ concat (case map item obj of [] \<Rightarrow> [] | x # xs \<Rightarrow> x # map ((@) '','') xs) @ ''}'')"

subsection \<open>\<open>net/http\<close>\<close>

record 'w ResponseWriter =
  Header_Set :: "string \<Rightarrow> string \<Rightarrow> 'w \<Rightarrow> 'w"
  WriteHeader :: "int \<Rightarrow> 'w \<Rightarrow> 'w"
  Write :: "string \<Rightarrow> 'w \<Rightarrow> 'w"

record request =
  RemoteAddr :: string

record ('s, 'e, 'r, 'w) http_Config =
  h_Limiter :: "('s, 'e) limiter option"
  h_KeyFunc :: "('r request_scheme \<Rightarrow> string) option"
  h_DeniedHandler :: "('w \<Rightarrow> 'r request_scheme \<Rightarrow> Result \<Rightarrow> 'w) option"
  h_ErrorHandler :: "('w \<Rightarrow> 'r request_scheme \<Rightarrow> go_error \<Rightarrow> 'w) option"
  h_DisableHeaders :: bool

definition http_deniedHandler :: "'w ResponseWriter \<Rightarrow> 'w \<Rightarrow> 'r request_scheme \<Rightarrow> Result \<Rightarrow> 'w" where
  "http_deniedHandler rw w r result =
     (let w1 = Header_Set rw ''Content-Type'' ''application/json'' w;
          w2 = WriteHeader rw StatusTooManyRequests w1
      in Write rw (json_text tooManyRequests @ [CHR 0x0A]) w2)"

definition http_Middleware ::
  "'w ResponseWriter \<Rightarrow> ('s, 'e, 'r, 'w) http_Config
     \<Rightarrow> (('w \<Rightarrow> 'r request_scheme \<Rightarrow> 'w) \<Rightarrow> 's \<Rightarrow> 'e \<Rightarrow> 'w \<Rightarrow> 'r request_scheme \<Rightarrow> ('s \<times> 'w \<times> event list) option) panics" where
  "http_Middleware rw config =
     (case h_Limiter config of
        None \<Rightarrow> Inl ''http middleware: limiter must not be nil''
      | Some Allow \<Rightarrow>
          let keyFunc = (case h_KeyFunc config of None \<Rightarrow> RemoteAddr | Some f \<Rightarrow> f);
              deniedHandler = (case h_DeniedHandler config of None \<Rightarrow> http_deniedHandler rw | Some f \<Rightarrow> f)
          in Inr (\<lambda>next s e w r.
               let key = keyFunc r
               in case Allow s e key of
                    None \<Rightarrow> None
                  | Some (s', (result, Some err), evs) \<Rightarrow>
                      (case h_ErrorHandler config of
                         Some errorHandler \<Rightarrow> Some (s', errorHandler w r err, evs)
                       | None \<Rightarrow> Some (s', next w r, evs))
                  | Some (s', (result, None), evs) \<Rightarrow>
                      let w1 = (if \<not> h_DisableHeaders config
                                then let w0 = Header_Set rw ''X-RateLimit-Remaining'' (show_int (Remaining result)) w
                                     in if \<not> Allowed result \<and> RetryAfter result > 0
                                        then Header_Set rw ''Retry-After'' (show_int (http_retryAfterSeconds (RetryAfter result))) w0
                                        else w0
                                else w)
                      in if \<not> Allowed result then Some (s', deniedHandler w1 r result, evs)
                         else Some (s', next w1 r, evs)))"

subsection \<open>Gin\<close>

text \<open>The handler runs the rest of the chain by \<open>c.Next()\<close>.\<close>

record 'c gin_Context =
  ClientIP :: "'c \<Rightarrow> string"
  AbortWithStatusJSON :: "'c \<Rightarrow> int \<Rightarrow> json_object \<Rightarrow> 'c"
  g_Header :: "'c \<Rightarrow> string \<Rightarrow> string \<Rightarrow> 'c"
  g_Next :: "'c \<Rightarrow> 'c"

record ('s, 'e, 'c) gin_Config =
  g_Limiter :: "('s, 'e) limiter option"
  g_KeyFunc :: "('c \<Rightarrow> string) option"
  g_DeniedHandler :: "('c \<Rightarrow> 'c) option"
  g_ErrorHandler :: "('c \<Rightarrow> go_error \<Rightarrow> 'c) option"
  g_Headers :: bool
  g_DisableHeaders :: bool

definition gin_NewLimiterMiddleware ::
  "'c gin_Context \<Rightarrow> ('s, 'e, 'c) gin_Config \<Rightarrow> ('s \<Rightarrow> 'e \<Rightarrow> 'c \<Rightarrow> ('s \<times> 'c \<times> event list) option) panics" where
  "gin_NewLimiterMiddleware gin config =
     (case g_Limiter config of
        None \<Rightarrow> Inl ''gin middleware: limiter must not be nil''
      | Some Allow \<Rightarrow>
          let keyFunc = (case g_KeyFunc config of None \<Rightarrow> ClientIP gin | Some f \<Rightarrow> f);
              deniedHandler = (case g_DeniedHandler config of
                  None \<Rightarrow> (\<lambda>c. AbortWithStatusJSON gin c StatusTooManyRequests tooManyRequests)
                | Some f \<Rightarrow> f)
          in Inr (\<lambda>s e c.
               let key = keyFunc c
               in case Allow s e key of
                    None \<Rightarrow> None
                  | Some (s', (result, Some err), evs) \<Rightarrow>
                      (case g_ErrorHandler config of
                         Some errorHandler \<Rightarrow> Some (s', errorHandler c err, evs)
                       | None \<Rightarrow> Some (s', g_Next gin c, evs))
                  | Some (s', (result, None), evs) \<Rightarrow>
                      let c1 = (if \<not> g_DisableHeaders config
                                then let c0 = g_Header gin c ''X-RateLimit-Remaining'' (show_int (Remaining result))
                                     in if \<not> Allowed result \<and> RetryAfter result > 0
                                        then g_Header gin c0 ''Retry-After'' (show_int (gin_retryAfterSeconds (RetryAfter result)))
                                        else c0
                                else c)
                      in if \<not> Allowed result then Some (s', deniedHandler c1, evs)
                         else Some (s', g_Next gin c1, evs)))"

subsection \<open>Echo\<close>

text \<open>An Echo handler returns an error, or nil.\<close>

record ('c, 'x) echo_Context =
  RealIP :: "'c \<Rightarrow> string"
  e_JSON :: "'c \<Rightarrow> int \<Rightarrow> json_object \<Rightarrow> 'c \<times> 'x option"
  e_Header_Set :: "'c \<Rightarrow> string \<Rightarrow> string \<Rightarrow> 'c"

record ('s, 'e, 'c) echo_Config =
  e_Limiter :: "('s, 'e) limiter option"
  e_KeyFunc :: "('c \<Rightarrow> string) option"
  e_DeniedHandler :: "('c \<Rightarrow> 'c) option"
  e_ErrorHandler :: "('c \<Rightarrow> go_error \<Rightarrow> 'c) option"
  e_DisableHeaders :: bool

definition echo_NewLimiterMiddleware ::
  "('c, 'x) echo_Context \<Rightarrow> ('s, 'e, 'c) echo_Config
     \<Rightarrow> (('c \<Rightarrow> 'c \<times> 'x option) \<Rightarrow> 's \<Rightarrow> 'e \<Rightarrow> 'c \<Rightarrow> ('s \<times> ('c \<times> 'x option) \<times> event list) option) panics" where
  "echo_NewLimiterMiddleware echo config =
     (case e_Limiter config of
        None \<Rightarrow> Inl ''echo middleware: limiter must not be nil''
      | Some Allow \<Rightarrow>
          let keyFunc = (case e_KeyFunc config of None \<Rightarrow> RealIP echo | Some f \<Rightarrow> f);
              deniedHandler = (case e_DeniedHandler config of
                  None \<Rightarrow> (\<lambda>c. fst (e_JSON echo c StatusTooManyRequests tooManyRequests))
                | Some f \<Rightarrow> f)
          in Inr (\<lambda>next s e c.
               let key = keyFunc c
               in case Allow s e key of
                    None \<Rightarrow> None
                  | Some (s', (result, Some err), evs) \<Rightarrow>
                      (case e_ErrorHandler config of
                         Some errorHandler \<Rightarrow> Some (s', (errorHandler c err, None), evs)
                       | None \<Rightarrow> Some (s', next c, evs))
                  | Some (s', (result, None), evs) \<Rightarrow>
                      let c1 = (if \<not> e_DisableHeaders config
                                then let c0 = e_Header_Set echo c ''X-RateLimit-Remaining'' (show_int (Remaining result))
                                     in if \<not> Allowed result \<and> RetryAfter result > 0
                                        then e_Header_Set echo c0 ''Retry-After'' (show_int (echo_retryAfterSeconds (RetryAfter result)))
                                        else c0
                                else c)
                      in if \<not> Allowed result then Some (s', (deniedHandler c1, None), evs)
                         else Some (s', next c1, evs)))"

subsection \<open>Fiber\<close>

record ('c, 'x) fiber_Ctx =
  IP :: "'c \<Rightarrow> string"
  f_Status :: "'c \<Rightarrow> int \<Rightarrow> 'c"
  f_JSON :: "'c \<Rightarrow> json_object \<Rightarrow> 'c \<times> 'x option"
  f_Set :: "'c \<Rightarrow> string \<Rightarrow> string \<Rightarrow> 'c"
  f_Next :: "'c \<Rightarrow> 'c \<times> 'x option"

record ('s, 'e, 'c) fiber_Config =
  f_Limiter :: "('s, 'e) limiter option"
  f_KeyFunc :: "('c \<Rightarrow> string) option"
  f_DeniedHandler :: "('c \<Rightarrow> 'c) option"
  f_ErrorHandler :: "('c \<Rightarrow> go_error \<Rightarrow> 'c) option"
  f_DisableHeaders :: bool

definition fiber_NewLimiterMiddleware ::
  "('c, 'x) fiber_Ctx \<Rightarrow> ('s, 'e, 'c) fiber_Config
     \<Rightarrow> ('s \<Rightarrow> 'e \<Rightarrow> 'c \<Rightarrow> ('s \<times> ('c \<times> 'x option) \<times> event list) option) panics" where
  "fiber_NewLimiterMiddleware fiber config =
     (case f_Limiter config of
        None \<Rightarrow> Inl ''fiber middleware: limiter must not be nil''
      | Some Allow \<Rightarrow>
          let keyFunc = (case f_KeyFunc config of None \<Rightarrow> IP fiber | Some f \<Rightarrow> f);
              deniedHandler = (case f_DeniedHandler config of
                  None \<Rightarrow> (\<lambda>c. fst (f_JSON fiber (f_Status fiber c StatusTooManyRequests) tooManyRequests))
                | Some f \<Rightarrow> f)
          in Inr (\<lambda>s e c.
               let key = keyFunc c
               in case Allow s e key of
                    None \<Rightarrow> None
                  | Some (s', (result, Some err), evs) \<Rightarrow>
                      (case f_ErrorHandler config of
                         Some errorHandler \<Rightarrow> Some (s', (errorHandler c err, None), evs)
                       | None \<Rightarrow> Some (s', f_Next fiber c, evs))
                  | Some (s', (result, None), evs) \<Rightarrow>
                      let c1 = (if \<not> f_DisableHeaders config
                                then let c0 = f_Set fiber c ''X-RateLimit-Remaining'' (show_int (Remaining result))
                                     in if \<not> Allowed result \<and> RetryAfter result > 0
                                        then f_Set fiber c0 ''Retry-After'' (show_int (fiber_retryAfterSeconds (RetryAfter result)))
                                        else c0
                                else c)
                      in if \<not> Allowed result then Some (s', (deniedHandler c1, None), evs)
                         else Some (s', f_Next fiber c1, evs)))"

subsection \<open>How long \<open>Retry-After\<close> makes a client wait\<close>

definition seconds_up :: "int \<Rightarrow> int" where
  "seconds_up d = (d + 999999999) div 1000000000"

lemma seconds_up_cases:
  "d mod 1000000000 = 0 \<and> seconds_up d = d div 1000000000
   \<or> 1 \<le> d mod 1000000000 \<and> seconds_up d = d div 1000000000 + 1"
proof (cases "d mod 1000000000 = 0")
  case True
  then have "d = d div 1000000000 * 1000000000" using div_mult_mod_eq [of d 1000000000] by linarith
  then have "seconds_up d = (999999999 + d div 1000000000 * 1000000000) div 1000000000"
    by (simp add: seconds_up_def)
  also have "\<dots> = d div 1000000000" by (subst div_mult_self1) simp_all
  finally show ?thesis using True by blast
next
  case False
  have n: "0 \<le> d mod 1000000000" "d mod 1000000000 < 1000000000" by simp_all
  have "d + 999999999 = (d mod 1000000000 - 1) + (d div 1000000000 + 1) * 1000000000"
    using div_mult_mod_eq [of d 1000000000] by (simp add: distrib_right)
  then have "seconds_up d = ((d mod 1000000000 - 1) + (d div 1000000000 + 1) * 1000000000) div 1000000000"
    by (simp only: seconds_up_def)
  also have "\<dots> = (d mod 1000000000 - 1) div 1000000000 + (d div 1000000000 + 1)"
    by (subst div_mult_self1) simp_all
  also have "(d mod 1000000000 - 1) div 1000000000 = 0" using n False by (intro div_pos_pos_trivial) linarith+
  finally show ?thesis using n False by linarith
qed

lemma ceiling_seconds:
  assumes "0 \<le> d" "d \<le> max_int64"
  shows "d div 1000000000 \<le> \<lceil>seconds_rat d\<rceil>" "\<lceil>seconds_rat d\<rceil> \<le> seconds_up d"
proof -
  let ?x = "of_int (d mod 1000000000) / 1000000000 :: rat"
  have s: "0 \<le> d div 1000000000" "d div 1000000000 \<le> 2 ^ 53 - 1"
    using assms by (simp_all add: max_int64_def pos_imp_zdiv_nonneg_iff)
  have F: "of_int (d div 1000000000) \<in> F64" "of_int (seconds_up d) \<in> F64"
    using s seconds_up_cases [of d] by (intro F64_int; auto)+
  have "of_int (d div 1000000000) \<le> of_int (d div 1000000000) + rnd ?x" using seconds_frac(1) [of d] by simp
  then have "of_int (d div 1000000000) \<le> seconds_rat d" unfolding seconds_rat_def using F(1) by (rule ieee.ge_repr)
  then show "d div 1000000000 \<le> \<lceil>seconds_rat d\<rceil>" by linarith
  have "of_int (d div 1000000000) + rnd ?x \<le> of_int (seconds_up d)"
    using seconds_up_cases [of d] seconds_frac(2) [of d] by auto
  then have "seconds_rat d \<le> of_int (seconds_up d)" unfolding seconds_rat_def using F(2) by (rule ieee.le_repr)
  then show "\<lceil>seconds_rat d\<rceil> \<le> seconds_up d" by (simp add: ceiling_le_iff)
qed

lemma http_retryAfterSeconds_eq:
  assumes "0 < d" "d \<le> max_int64"
  shows "http_retryAfterSeconds d = max 1 \<lceil>seconds_rat d\<rceil>"
proof -
  have "Seconds d = Fin (seconds_rat d)" using assms by (intro Seconds_eq) auto
  moreover have "in_int64 k" if "d div 1000000000 \<le> k" "k \<le> d div 1000000000 + 1" for k
    using that assms by (auto simp: in_int64_def max_int64_def min_int64_def)
  then have "in_int64 \<lceil>seconds_rat d\<rceil>"
    using ceiling_seconds [of d] seconds_up_cases [of d] assms by fastforce
  then have "int64_of_f64 (Fin (of_int \<lceil>seconds_rat d\<rceil>)) = \<lceil>seconds_rat d\<rceil>" by (simp add: trunc_def)
  ultimately show ?thesis
    unfolding http_retryAfterSeconds_def Let_def
    by (simp only: fCeil_def on_fin.simps max_def not_le [symmetric]) (simp only: not_le split: if_split, simp)
qed

lemma seconds_rat_deficit:
  assumes "0 \<le> d" "d \<le> m"
  shows "seconds_exact d - seconds_exact m * (4 * u64) \<le> seconds_rat d"
proof -
  have "seconds_exact d * (4 * u64) \<le> seconds_exact m * (4 * u64)"
    using assms u64_pos by (intro mult_right_mono) (simp_all add: seconds_exact_def)
  then show ?thesis using seconds_rat_lower [OF assms(1)] by (simp add: right_diff_distrib)
qed

lemma http_retry_early:
  assumes "0 < d" "d \<le> max_int64"
  shows "d \<le> http_retryAfterSeconds d * Second + 5000"
proof -
  have "seconds_exact max_int64 * (4 * u64) \<le> 5 / 1000000"
    by (simp add: seconds_exact_def max_int64_def u64_def)
  then have "seconds_exact d - 5 / 1000000 \<le> seconds_rat d"
    using seconds_rat_deficit [of d max_int64] assms by linarith
  also have "\<dots> \<le> of_int (http_retryAfterSeconds d)"
    using le_of_int_ceiling [of "seconds_rat d"]
    by (simp add: http_retryAfterSeconds_eq [OF assms] of_int_max le_max_iff_disj)
  finally have "(of_int d :: rat) \<le> of_int (http_retryAfterSeconds d * 1000000000 + 5000)"
    by (simp add: seconds_exact_def)
  then show ?thesis unfolding of_int_le_iff by (simp add: Second_def)
qed

lemma http_retry_exact:
  assumes "0 < d" "d \<le> 2 ^ 21 * Second"
  shows "http_retryAfterSeconds d = seconds_up d"
proof -
  have d: "d \<le> 2 ^ 21 * 1000000000" "d \<le> max_int64" using assms by (simp_all add: Second_def max_int64_def)
  have "seconds_up d \<le> \<lceil>seconds_rat d\<rceil>"
  proof (cases "d mod 1000000000 = 0")
    case True
    then show ?thesis using ceiling_seconds(1) [of d] seconds_up_cases [of d] assms d by auto
  next
    case False
    then have n: "1 \<le> d mod 1000000000" "seconds_up d = d div 1000000000 + 1" using seconds_up_cases [of d] by auto
    have "seconds_exact (2 ^ 21 * 1000000000) * (4 * u64) < 1 / 1000000000"
      by (simp add: seconds_exact_def u64_def)
    then have "seconds_exact d - 1 / 1000000000 < seconds_rat d"
      using seconds_rat_deficit [OF _ d(1)] assms(1) by linarith
    moreover have "(1 :: rat) / 1000000000 \<le> of_int (d mod 1000000000) / 1000000000"
      using n(1) by (intro divide_right_mono) simp_all
    ultimately have "of_int (d div 1000000000) < seconds_rat d"
      using seconds_exact_split [of d] by linarith
    then show ?thesis unfolding n(2) by (simp add: less_ceiling_iff add1_zle_eq)
  qed
  then have "\<lceil>seconds_rat d\<rceil> = seconds_up d" using ceiling_seconds(2) [of d] assms d by simp
  moreover have "1 \<le> seconds_up d" using assms(1) by (simp add: seconds_up_def)
  ultimately show ?thesis using http_retryAfterSeconds_eq [OF assms(1) d(2)] by simp
qed

text \<open>
  Claim C38. The wait that a \<open>Retry-After\<close> header announces for a positive \<open>RetryAfter\<close>, in all four
  middlewares: at least one second, and at most the duration rounded up to whole seconds. It is
  exactly that up to \<open>2\<^sup>2\<^sup>1\<close> seconds (24 days). Beyond, the float computation may lose a fraction of
  a second, but it never sends a client back more than five microseconds early.
\<close>

theorem retryAfterSeconds_bounds:
  assumes "0 < d" "d \<le> max_int64"
    and "secs \<in> {http_retryAfterSeconds, gin_retryAfterSeconds, echo_retryAfterSeconds, fiber_retryAfterSeconds}"
  shows "1 \<le> secs d \<and> secs d \<le> seconds_up d \<and> d \<le> secs d * Second + 5000
     \<and> (d \<le> 2 ^ 21 * Second \<longrightarrow> secs d = seconds_up d)"
proof -
  have "1 \<le> seconds_up d" using assms(1) by (simp add: seconds_up_def)
  then have "1 \<le> http_retryAfterSeconds d \<and> http_retryAfterSeconds d \<le> seconds_up d"
    using ceiling_seconds(2) [of d] assms by (simp add: http_retryAfterSeconds_eq)
  moreover have "secs = http_retryAfterSeconds" using assms(3) by (auto simp: retryAfterSeconds_copies)
  ultimately show ?thesis using http_retry_early [OF assms(1,2)] http_retry_exact [OF assms(1)] by blast
qed

subsection \<open>What the four middlewares have in common\<close>

text \<open>
  The specification: what the limiter returned decides which actions the middleware takes, and in
  which order. A framework gives the actions their meaning.
\<close>

datatype action = ActError go_error | ActHeader string string | ActDenied Result | ActNext

definition guard_actions :: "bool \<Rightarrow> bool \<Rightarrow> go_return \<Rightarrow> action list" where
  "guard_actions handled headers ret =
     (case ret of
        (result, Some err) \<Rightarrow> [if handled then ActError err else ActNext]
      | (result, None) \<Rightarrow>
          (if headers
           then ActHeader ''X-RateLimit-Remaining'' (show_int (Remaining result))
             # (if \<not> Allowed result \<and> 0 < RetryAfter result
                then [ActHeader ''Retry-After'' (show_int (http_retryAfterSeconds (RetryAfter result)))] else [])
           else [])
          @ [if Allowed result then ActNext else ActDenied result])"

fun http_act ::
  "'w ResponseWriter \<Rightarrow> ('s, 'e, 'r, 'w) http_Config \<Rightarrow> ('w \<Rightarrow> 'r request_scheme \<Rightarrow> 'w)
     \<Rightarrow> 'r request_scheme \<Rightarrow> action \<Rightarrow> 'w \<Rightarrow> 'w" where
  "http_act rw config next r (ActError err) w = (case h_ErrorHandler config of None \<Rightarrow> w | Some h \<Rightarrow> h w r err)"
| "http_act rw config next r (ActHeader k v) w = Header_Set rw k v w"
| "http_act rw config next r (ActDenied result) w =
     (case h_DeniedHandler config of None \<Rightarrow> http_deniedHandler rw w r result | Some h \<Rightarrow> h w r result)"
| "http_act rw config next r ActNext w = next w r"

fun gin_act :: "'c gin_Context \<Rightarrow> ('s, 'e, 'c) gin_Config \<Rightarrow> action \<Rightarrow> 'c \<Rightarrow> 'c" where
  "gin_act gin config (ActError err) c = (case g_ErrorHandler config of None \<Rightarrow> c | Some h \<Rightarrow> h c err)"
| "gin_act gin config (ActHeader k v) c = g_Header gin c k v"
| "gin_act gin config (ActDenied result) c =
     (case g_DeniedHandler config of None \<Rightarrow> AbortWithStatusJSON gin c StatusTooManyRequests tooManyRequests | Some h \<Rightarrow> h c)"
| "gin_act gin config ActNext c = g_Next gin c"

fun echo_act ::
  "('c, 'x) echo_Context \<Rightarrow> ('s, 'e, 'c) echo_Config \<Rightarrow> ('c \<Rightarrow> 'c \<times> 'x option)
     \<Rightarrow> action \<Rightarrow> 'c \<times> 'x option \<Rightarrow> 'c \<times> 'x option" where
  "echo_act echo config next (ActError err) (c, x) = (case e_ErrorHandler config of None \<Rightarrow> c | Some h \<Rightarrow> h c err, None)"
| "echo_act echo config next (ActHeader k v) (c, x) = (e_Header_Set echo c k v, None)"
| "echo_act echo config next (ActDenied result) (c, x) =
     (case e_DeniedHandler config of None \<Rightarrow> fst (e_JSON echo c StatusTooManyRequests tooManyRequests) | Some h \<Rightarrow> h c, None)"
| "echo_act echo config next ActNext (c, x) = next c"

fun fiber_act ::
  "('c, 'x) fiber_Ctx \<Rightarrow> ('s, 'e, 'c) fiber_Config \<Rightarrow> action \<Rightarrow> 'c \<times> 'x option \<Rightarrow> 'c \<times> 'x option" where
  "fiber_act fiber config (ActError err) (c, x) = (case f_ErrorHandler config of None \<Rightarrow> c | Some h \<Rightarrow> h c err, None)"
| "fiber_act fiber config (ActHeader k v) (c, x) = (f_Set fiber c k v, None)"
| "fiber_act fiber config (ActDenied result) (c, x) =
     (case f_DeniedHandler config of
        None \<Rightarrow> fst (f_JSON fiber (f_Status fiber c StatusTooManyRequests) tooManyRequests)
      | Some h \<Rightarrow> h c, None)"
| "fiber_act fiber config ActNext (c, x) = f_Next fiber c"

text \<open>A handler that consults a limiter and then takes the actions of the specification.\<close>

definition guarded ::
  "('s, 'e) limiter \<Rightarrow> string \<Rightarrow> bool \<Rightarrow> bool \<Rightarrow> (action \<Rightarrow> 'c \<Rightarrow> 'c) \<Rightarrow> 's \<Rightarrow> 'e \<Rightarrow> 'c
     \<Rightarrow> ('s \<times> 'c \<times> event list) option" where
  "guarded Allow key handled headers act s e c =
     map_option (\<lambda>(s', ret, evs). (s', fold act (guard_actions handled headers ret) c, evs)) (Allow s e key)"

lemma http_refines:
  "http_Middleware rw config =
     (case h_Limiter config of
        None \<Rightarrow> Inl ''http middleware: limiter must not be nil''
      | Some Allow \<Rightarrow> Inr (\<lambda>next s e w r.
          guarded Allow (case h_KeyFunc config of None \<Rightarrow> RemoteAddr r | Some f \<Rightarrow> f r)
            (h_ErrorHandler config \<noteq> None) (\<not> h_DisableHeaders config) (http_act rw config next r) s e w))"
  by (auto simp: http_Middleware_def guarded_def guard_actions_def fun_eq_iff Let_def split: option.split prod.split)

lemma gin_refines:
  "gin_NewLimiterMiddleware gin config =
     (case g_Limiter config of
        None \<Rightarrow> Inl ''gin middleware: limiter must not be nil''
      | Some Allow \<Rightarrow> Inr (\<lambda>s e c.
          guarded Allow (case g_KeyFunc config of None \<Rightarrow> ClientIP gin c | Some f \<Rightarrow> f c)
            (g_ErrorHandler config \<noteq> None) (\<not> g_DisableHeaders config) (gin_act gin config) s e c))"
  by (auto simp: gin_NewLimiterMiddleware_def guarded_def guard_actions_def retryAfterSeconds_copies fun_eq_iff Let_def
      split: option.split prod.split)

lemma echo_refines:
  "echo_NewLimiterMiddleware echo config =
     (case e_Limiter config of
        None \<Rightarrow> Inl ''echo middleware: limiter must not be nil''
      | Some Allow \<Rightarrow> Inr (\<lambda>next s e c.
          guarded Allow (case e_KeyFunc config of None \<Rightarrow> RealIP echo c | Some f \<Rightarrow> f c)
            (e_ErrorHandler config \<noteq> None) (\<not> e_DisableHeaders config) (echo_act echo config next) s e (c, None)))"
  by (auto simp: echo_NewLimiterMiddleware_def guarded_def guard_actions_def retryAfterSeconds_copies fun_eq_iff Let_def
      split: option.split prod.split)

lemma fiber_refines:
  "fiber_NewLimiterMiddleware fiber config =
     (case f_Limiter config of
        None \<Rightarrow> Inl ''fiber middleware: limiter must not be nil''
      | Some Allow \<Rightarrow> Inr (\<lambda>s e c.
          guarded Allow (case f_KeyFunc config of None \<Rightarrow> IP fiber c | Some f \<Rightarrow> f c)
            (f_ErrorHandler config \<noteq> None) (\<not> f_DisableHeaders config) (fiber_act fiber config) s e (c, None)))"
  by (auto simp: fiber_NewLimiterMiddleware_def guarded_def guard_actions_def retryAfterSeconds_copies fun_eq_iff Let_def
      split: option.split prod.split)

text \<open>
  Claim C36. The four middlewares are one. Each constructor panics exactly when the limiter is nil,
  and each handler otherwise asks the limiter once, for the configured or the framework's own key,
  and then takes the actions of one specification, in its order: the error handler or else the
  application (fail-open) on an error; the headers, and then the application or the denied handler
  on a decision.
\<close>

theorem middlewares_equivalent:
  "http_Middleware rw hc =
     (case h_Limiter hc of
        None \<Rightarrow> Inl ''http middleware: limiter must not be nil''
      | Some Allow \<Rightarrow> Inr (\<lambda>next s e w r.
          guarded Allow (case h_KeyFunc hc of None \<Rightarrow> RemoteAddr r | Some f \<Rightarrow> f r)
            (h_ErrorHandler hc \<noteq> None) (\<not> h_DisableHeaders hc) (http_act rw hc next r) s e w))
   \<and> gin_NewLimiterMiddleware gin gc =
     (case g_Limiter gc of
        None \<Rightarrow> Inl ''gin middleware: limiter must not be nil''
      | Some Allow \<Rightarrow> Inr (\<lambda>s e c.
          guarded Allow (case g_KeyFunc gc of None \<Rightarrow> ClientIP gin c | Some f \<Rightarrow> f c)
            (g_ErrorHandler gc \<noteq> None) (\<not> g_DisableHeaders gc) (gin_act gin gc) s e c))
   \<and> echo_NewLimiterMiddleware echo ec =
     (case e_Limiter ec of
        None \<Rightarrow> Inl ''echo middleware: limiter must not be nil''
      | Some Allow \<Rightarrow> Inr (\<lambda>next s e c.
          guarded Allow (case e_KeyFunc ec of None \<Rightarrow> RealIP echo c | Some f \<Rightarrow> f c)
            (e_ErrorHandler ec \<noteq> None) (\<not> e_DisableHeaders ec) (echo_act echo ec next) s e (c, None)))
   \<and> fiber_NewLimiterMiddleware fiber fc =
     (case f_Limiter fc of
        None \<Rightarrow> Inl ''fiber middleware: limiter must not be nil''
      | Some Allow \<Rightarrow> Inr (\<lambda>s e c.
          guarded Allow (case f_KeyFunc fc of None \<Rightarrow> IP fiber c | Some f \<Rightarrow> f c)
            (f_ErrorHandler fc \<noteq> None) (\<not> f_DisableHeaders fc) (fiber_act fiber fc) s e (c, None)))"
  by (intro conjI http_refines gin_refines echo_refines fiber_refines)

subsection \<open>Which requests reach the application\<close>

text \<open>
  A sequence of requests through a handler. \<open>passes\<close> tells from what the limiter returned whether
  the request goes on to the application.
\<close>

fun serve ::
  "('s \<Rightarrow> 'e \<Rightarrow> 'q \<Rightarrow> ('s \<times> 'o \<times> event list) option) \<Rightarrow> 's \<Rightarrow> ('e \<times> 'q) list \<Rightarrow> ('s \<times> 'o list) option" where
  "serve handler s [] = Some (s, [])"
| "serve handler s ((e, q) # rs) =
     (case handler s e q of
        None \<Rightarrow> None
      | Some (s1, out, evs) \<Rightarrow>
          (case serve handler s1 rs of None \<Rightarrow> None | Some (s2, outs) \<Rightarrow> Some (s2, out # outs)))"

definition passes :: "bool \<Rightarrow> go_return \<Rightarrow> bool" where
  "passes handled ret = (case ret of (result, Some err) \<Rightarrow> \<not> handled | (result, None) \<Rightarrow> Allowed result)"

lemma ActNext_guard_actions: "ActNext \<in> set (guard_actions handled headers ret) \<longleftrightarrow> passes handled ret"
  by (auto simp: guard_actions_def passes_def split: prod.split option.split)

lemma fold_reached:
  assumes "\<And>a c. reached (act a c) \<longleftrightarrow> a = ActNext \<or> reached c"
  shows "reached (fold act as c) \<longleftrightarrow> ActNext \<in> set as \<or> reached c"
  by (induction as arbitrary: c) (auto simp: assms)

lemma serve_guarded:
  assumes h: "\<And>s e q. handler s e q = guarded Allow (key q) handled headers (act q) s e (start q)"
    and act: "\<And>q a c. reached (act q a c) \<longleftrightarrow> a = ActNext \<or> reached c"
    and "\<And>e q. (e, q) \<in> set rs \<Longrightarrow> \<not> reached (start q)"
    and "serve handler s rs = Some (s', os)"
  shows "\<exists>outs. requests Allow s (map (\<lambda>(e, q). (e, key q)) rs) = Some (s', outs)
     \<and> map reached os = map (\<lambda>(ret, evs). passes handled ret) outs"
  using assms(3,4)
proof (induction rs arbitrary: s os)
  case Nil
  then show ?case by simp
next
  case (Cons r rs)
  obtain e q where r: "r = (e, q)" by (cases r)
  obtain s1 ret evs where a: "Allow s e (key q) = Some (s1, ret, evs)"
    using Cons.prems(2) by (auto simp: r h guarded_def split: option.splits)
  let ?c = "fold (act q) (guard_actions handled headers ret) (start q)"
  have "handler s e q = Some (s1, ?c, evs)" using a by (simp add: h guarded_def)
  then obtain os' where os: "os = ?c # os'" "serve handler s1 rs = Some (s', os')"
    using Cons.prems(2) by (auto simp: r split: option.splits)
  have "reached ?c \<longleftrightarrow> passes handled ret"
    using fold_reached [of reached "act q", OF act] Cons.prems(1) [of e q] by (simp add: ActNext_guard_actions r)
  moreover obtain outs where "requests Allow s1 (map (\<lambda>(e, q). (e, key q)) rs) = Some (s', outs)"
      "map reached os' = map (\<lambda>(ret, evs). passes handled ret) outs"
    using Cons.IH [OF _ os(2)] Cons.prems(1) by auto
  ultimately show ?case using a by (intro exI [of _ "(ret, evs) # outs"]) (simp add: r os(1))
qed

lemma serve_returns:
  assumes h: "\<And>s e q. handler s e q = guarded Allow (key q) handled headers (act q) s e (start q)"
    and "requests Allow s (map (\<lambda>(e, q). (e, key q)) rs) = Some (s', outs)"
  shows "\<exists>os. serve handler s rs = Some (s', os)"
  using assms(2)
proof (induction rs arbitrary: s outs)
  case (Cons r rs)
  obtain e q where r: "r = (e, q)" by (cases r)
  obtain s1 ret evs outs' where a: "Allow s e (key q) = Some (s1, ret, evs)"
    and rest: "requests Allow s1 (map (\<lambda>(e, q). (e, key q)) rs) = Some (s', outs')"
    using Cons.prems by (auto simp: r split: option.splits)
  from Cons.IH [OF rest] show ?case by (auto simp: r h a guarded_def)
qed simp

text \<open>
  What tells that a request reached the application: a mark on the response that only the
  application sets.
\<close>

definition marks_next ::
  "'w ResponseWriter \<Rightarrow> ('s, 'e, 'r, 'w) http_Config \<Rightarrow> ('w \<Rightarrow> 'r request_scheme \<Rightarrow> 'w) \<Rightarrow> ('w \<Rightarrow> bool) \<Rightarrow> bool" where
  "marks_next rw config next reached \<longleftrightarrow>
     (\<forall>w r. reached (next w r))
   \<and> (\<forall>k v w. reached (Header_Set rw k v w) = reached w)
   \<and> (\<forall>n w. reached (WriteHeader rw n w) = reached w)
   \<and> (\<forall>d w. reached (Write rw d w) = reached w)
   \<and> (\<forall>h w r result. h_DeniedHandler config = Some h \<longrightarrow> reached (h w r result) = reached w)
   \<and> (\<forall>h w r err. h_ErrorHandler config = Some h \<longrightarrow> reached (h w r err) = reached w)"

definition http_key :: "('s, 'e, 'r, 'w) http_Config \<Rightarrow> 'r request_scheme \<Rightarrow> string" where
  "http_key config r = (case h_KeyFunc config of None \<Rightarrow> RemoteAddr r | Some f \<Rightarrow> f r)"

lemma http_act_reached:
  "marks_next rw config next reached \<Longrightarrow> reached (http_act rw config next r a w) \<longleftrightarrow> a = ActNext \<or> reached w"
  by (cases a) (auto simp: marks_next_def http_deniedHandler_def Let_def split: option.split)

lemma http_guarded:
  assumes "http_Middleware rw config = Inr mw" "h_Limiter config = Some Allow"
  shows "mw next s e w r = guarded Allow (http_key config r) (h_ErrorHandler config \<noteq> None)
      (\<not> h_DisableHeaders config) (http_act rw config next r) s e w"
  using assms by (auto simp: http_refines http_key_def)

lemma http_serve_returns:
  assumes "http_Middleware rw config = Inr mw" "h_Limiter config = Some Allow"
    and "requests Allow s (map (\<lambda>(e, w, r). (e, http_key config r)) rs) = Some (s', outs)"
  shows "\<exists>ws. serve (\<lambda>s e (w, r). mw next s e w r) s rs = Some (s', ws)"
proof (rule serve_returns [where key = "\<lambda>q. http_key config (snd q)" and start = fst
      and act = "\<lambda>q. http_act rw config next (snd q)"])
  show "requests Allow s (map (\<lambda>(e, q). (e, http_key config (snd q))) rs) = Some (s', outs)"
    using assms(3) by (simp add: case_prod_unfold)
qed (auto simp: http_guarded [OF assms(1,2)])

lemma http_serve_granted:
  assumes "http_Middleware rw config = Inr mw" "h_Limiter config = Some Allow" "marks_next rw config next reached"
    and "\<And>e w r. (e, w, r) \<in> set rs \<Longrightarrow> \<not> reached w"
    and "serve (\<lambda>s e (w, r). mw next s e w r) s rs = Some (s', ws)"
  shows "\<exists>outs. requests Allow s (map (\<lambda>(e, w, r). (e, http_key config r)) rs) = Some (s', outs)
     \<and> map reached ws = map (\<lambda>(ret, evs). passes (h_ErrorHandler config \<noteq> None) ret) outs"
proof -
  note mw = http_guarded [OF assms(1,2)]
  have "\<exists>outs. requests Allow s (map (\<lambda>(e, q). (e, http_key config (snd q))) rs) = Some (s', outs)
     \<and> map reached ws = map (\<lambda>(ret, evs). passes (h_ErrorHandler config \<noteq> None) ret) outs"
  proof (rule serve_guarded [where act = "\<lambda>q. http_act rw config next (snd q)" and start = fst
        and headers = "\<not> h_DisableHeaders config" and handler = "\<lambda>s e (w, r). mw next s e w r"])
    show "serve (\<lambda>s e (w, r). mw next s e w r) s rs = Some (s', ws)" by (rule assms(5))
  qed (use assms(4) in \<open>auto simp: mw http_act_reached [OF assms(3)]\<close>)
  then show ?thesis by (simp add: case_prod_unfold)
qed

subsection \<open>The response to a denied request\<close>

text \<open>
  The \<open>ResponseWriter\<close> of the server of \<open>net/http\<close>: a header map whose keys are in canonical
  form, which is sent with the status the first time one is written, and the body.
\<close>

record http_response =
  header :: "string \<rightharpoonup> string"
  status :: "int option"
  sent :: "string \<rightharpoonup> string"
  body :: string

definition upper_char :: "char \<Rightarrow> char" where
  "upper_char c = (let n = of_char c :: nat in if 97 \<le> n \<and> n \<le> 122 then char_of (n - 32) else c)"

definition lower_char :: "char \<Rightarrow> char" where
  "lower_char c = (let n = of_char c :: nat in if 65 \<le> n \<and> n \<le> 90 then char_of (n + 32) else c)"

fun canonical_key :: "bool \<Rightarrow> string \<Rightarrow> string" where
  "canonical_key up [] = []"
| "canonical_key up (c # s) = (if up then upper_char c else lower_char c) # canonical_key (c = CHR ''-'') s"

declare canonical_key.simps [simp del]

definition server_writer :: "http_response ResponseWriter" where
  "server_writer =
     \<lparr>Header_Set = (\<lambda>k v w. w\<lparr>header := (header w)(canonical_key True k \<mapsto> v)\<rparr>),
      WriteHeader = (\<lambda>n w. if status w = None then w\<lparr>status := Some n, sent := header w\<rparr> else w),
      Write = (\<lambda>d w. let w1 = (if status w = None then w\<lparr>status := Some 200, sent := header w\<rparr> else w)
                     in w1\<lparr>body := body w1 @ d\<rparr>)\<rparr>"

definition fresh_response :: http_response where
  "fresh_response = \<lparr>header = Map.empty, status = None, sent = Map.empty, body = ''''\<rparr>"

lemma canonical_keys:
  "canonical_key True ''X-RateLimit-Remaining'' = ''X-Ratelimit-Remaining''"
  "canonical_key True ''Retry-After'' = ''Retry-After''"
  "canonical_key True ''Content-Type'' = ''Content-Type''"
  by code_simp+

lemma tooManyRequests_text:
  "json_text tooManyRequests @ [CHR 0x0A] =
     ''{'' @ [CHR 0x22] @ ''error'' @ [CHR 0x22] @ '':'' @ [CHR 0x22] @ ''too many requests'' @ [CHR 0x22] @ ''}'' @ [CHR 0x0A]"
  by code_simp

text \<open>
  Claim C37. The answer of the net/http middleware to a denied request, with its default handler and
  headers, on a fresh response: status 429, a JSON body, and headers that read back as the decision:
  \<open>X-RateLimit-Remaining\<close> is \<open>Remaining\<close>, and \<open>Retry-After\<close> is there exactly when there is a wait,
  as a positive number of seconds that covers the wait up to five microseconds.
\<close>

theorem http_denied_response:
  assumes "http_Middleware server_writer config = Inr mw" "h_Limiter config = Some Allow"
    and "h_DeniedHandler config = None" "\<not> h_DisableHeaders config"
    and "Allow s e (http_key config r) = Some (s', (result, None), evs)" "\<not> Allowed result" "RetryAfter result \<le> max_int64"
  shows "\<exists>w. mw next s e fresh_response r = Some (s', w, evs)
     \<and> status w = Some 429
     \<and> body w = ''{'' @ [CHR 0x22] @ ''error'' @ [CHR 0x22] @ '':'' @ [CHR 0x22] @ ''too many requests'' @ [CHR 0x22] @ ''}'' @ [CHR 0x0A]
     \<and> sent w ''Content-Type'' = Some ''application/json''
     \<and> Option.bind (sent w ''X-Ratelimit-Remaining'') read_int = Some (Remaining result)
     \<and> (if 0 < RetryAfter result
        then \<exists>secs. Option.bind (sent w ''Retry-After'') read_int = Some secs \<and> 1 \<le> secs
               \<and> RetryAfter result \<le> secs * Second + 5000
        else sent w ''Retry-After'' = None)"
proof -
  let ?w = "fold (http_act server_writer config next r) (guard_actions (h_ErrorHandler config \<noteq> None) True (result, None)) fresh_response"
  have mw: "mw next s e fresh_response r = Some (s', ?w, evs)"
    using assms(1,2,4,5) by (auto simp: http_refines http_key_def guarded_def)
  have "1 \<le> http_retryAfterSeconds (RetryAfter result)" by (simp add: http_retryAfterSeconds_def Let_def)
  then show ?thesis
    using assms(3,6) http_retry_early [OF _ assms(7)] unfolding mw
    by (intro exI [of _ ?w]) (auto simp: guard_actions_def http_deniedHandler_def server_writer_def fresh_response_def
        canonical_keys tooManyRequests_text StatusTooManyRequests_def read_show_int)
qed

subsection \<open>Witnesses\<close>

text \<open>A limiter that denies everything for a second and a half.\<close>

definition deny_all :: "(unit, unit) limiter" where
  "deny_all s e key = Some (s, (\<lparr>Allowed = False, Remaining = 0, RetryAfter = 1500000000\<rparr>, None), [])"

definition deny_config :: "(unit, unit, unit, http_response) http_Config" where
  "deny_config = \<lparr>h_Limiter = Some deny_all, h_KeyFunc = None, h_DeniedHandler = None, h_ErrorHandler = None,
     h_DisableHeaders = False\<rparr>"

theorem retryAfterSeconds_bounds_witness:
  "1 \<le> echo_retryAfterSeconds 1500000000 \<and> echo_retryAfterSeconds 1500000000 \<le> 2
     \<and> 1500000000 \<le> echo_retryAfterSeconds 1500000000 * Second + 5000 \<and> echo_retryAfterSeconds 1500000000 = 2"
  using retryAfterSeconds_bounds [of 1500000000 echo_retryAfterSeconds]
  by (simp add: max_int64_def Second_def seconds_up_def)

theorem http_denied_response_witness:
  "\<exists>mw w. http_Middleware server_writer deny_config = Inr mw
     \<and> mw (\<lambda>w r. w) () () fresh_response \<lparr>RemoteAddr = ''10.0.0.1:80''\<rparr> = Some ((), w, []) \<and> status w = Some 429
     \<and> (\<exists>secs. Option.bind (sent w ''Retry-After'') read_int = Some secs \<and> 1500000000 \<le> secs * Second + 5000)"
proof -
  obtain mw where mw: "http_Middleware server_writer deny_config = Inr mw"
    by (simp add: http_Middleware_def deny_config_def)
  have "deny_all () () (http_key deny_config \<lparr>RemoteAddr = ''10.0.0.1:80''\<rparr>)
      = Some ((), (\<lparr>Allowed = False, Remaining = 0, RetryAfter = 1500000000\<rparr>, None), [])"
    by (simp add: deny_all_def)
  moreover have "h_Limiter deny_config = Some deny_all" "h_DeniedHandler deny_config = None" "\<not> h_DisableHeaders deny_config"
    by (simp_all add: deny_config_def)
  ultimately show ?thesis
    using mw http_denied_response [of deny_config mw deny_all "()" "()" "\<lparr>RemoteAddr = ''10.0.0.1:80''\<rparr>" "()"
        "\<lparr>Allowed = False, Remaining = 0, RetryAfter = 1500000000\<rparr>" "[]" "\<lambda>w r. w"]
    by (fastforce simp: max_int64_def)
qed

end
