(* ===== verification/Examples.thy ===== *)
theory Examples
  imports Middleware Mem_TokenBucket
begin

section \<open>\<open>examples/http-example/main.go\<close>\<close>

text \<open>
  The example server: a token bucket per client host in front of the application, through the
  net/http middleware. The key function, which \<open>examples/redis-example/main.go\<close> has too, takes
  the host from the remote address with \<open>net.SplitHostPort\<close>. The routes of the mux are the
  application behind the middleware.
\<close>

subsection \<open>\<open>net.SplitHostPort\<close> and \<open>net.JoinHostPort\<close>\<close>

fun indexByte :: "char \<Rightarrow> string \<Rightarrow> nat option" where
  "indexByte c [] = None"
| "indexByte c (x # xs) = (if x = c then Some 0 else map_option Suc (indexByte c xs))"

fun lastIndexByte :: "char \<Rightarrow> string \<Rightarrow> nat option" where
  "lastIndexByte c [] = None"
| "lastIndexByte c (x # xs) =
     (case lastIndexByte c xs of Some i \<Rightarrow> Some (Suc i) | None \<Rightarrow> if x = c then Some 0 else None)"

definition SplitHostPort :: "string \<Rightarrow> string + string \<times> string" where
  "SplitHostPort hostport =
     (case lastIndexByte (CHR '':'') hostport of
        None \<Rightarrow> Inl ''missing port in address''
      | Some i \<Rightarrow>
          let finish = (\<lambda>host j k.
                if CHR ''['' \<in> set (drop j hostport) then Inl ''unexpected '[' in address''
                else if CHR '']'' \<in> set (drop k hostport) then Inl ''unexpected ']' in address''
                else Inr (host, drop (Suc i) hostport))
          in if hd hostport = CHR ''[''
             then (case indexByte (CHR '']'') hostport of
                     None \<Rightarrow> Inl ''missing ']' in address''
                   | Some end \<Rightarrow>
                       if end + 1 = length hostport then Inl ''missing port in address''
                       else if end + 1 = i then finish (take (end - 1) (drop 1 hostport)) 1 (end + 1)
                       else if hostport ! (end + 1) = CHR '':'' then Inl ''too many colons in address''
                       else Inl ''missing port in address'')
             else let host = take i hostport
                  in if CHR '':'' \<in> set host then Inl ''too many colons in address''
                     else finish host 0 0)"

definition JoinHostPort :: "string \<Rightarrow> string \<Rightarrow> string" where
  "JoinHostPort host port =
     (if CHR '':'' \<in> set host then ''['' @ host @ '']:'' @ port else host @ '':'' @ port)"

lemma lastIndexByte_absent: "c \<notin> set xs \<Longrightarrow> lastIndexByte c xs = None"
  by (induction xs) auto

lemma lastIndexByte_append: "c \<notin> set ys \<Longrightarrow> lastIndexByte c (xs @ c # ys) = Some (length xs)"
  by (induction xs) (auto simp: lastIndexByte_absent)

lemma indexByte_append: "c \<notin> set xs \<Longrightarrow> indexByte c (xs @ c # ys) = Some (length xs)"
  by (induction xs) auto

definition no_brackets :: "string \<Rightarrow> bool" where
  "no_brackets s \<longleftrightarrow> CHR ''['' \<notin> set s \<and> CHR '']'' \<notin> set s"

theorem SplitHostPort_JoinHostPort:
  assumes "no_brackets host" "no_brackets port" "CHR '':'' \<notin> set port"
  shows "SplitHostPort (JoinHostPort host port) = Inr (host, port)"
proof (cases "CHR '':'' \<in> set host")
  case True
  have "lastIndexByte (CHR '':'') (JoinHostPort host port) = Some (length host + 2)"
    using True assms(3) lastIndexByte_append [of "CHR '':''" port "''['' @ host @ '']''"] by (simp add: JoinHostPort_def)
  moreover have "indexByte (CHR '']'') (JoinHostPort host port) = Some (length host + 1)"
    using True assms(1) indexByte_append [of "CHR '']''" "''['' @ host" "'':'' @ port"] by (simp add: JoinHostPort_def no_brackets_def)
  ultimately show ?thesis using True assms by (simp add: SplitHostPort_def JoinHostPort_def Let_def no_brackets_def)
next
  case False
  have "lastIndexByte (CHR '':'') (JoinHostPort host port) = Some (length host)"
    using False assms(3) lastIndexByte_append [of "CHR '':''" port host] by (simp add: JoinHostPort_def)
  then show ?thesis
    using False assms by (cases host) (auto simp: SplitHostPort_def JoinHostPort_def Let_def no_brackets_def)
qed

subsection \<open>The server\<close>

definition example_keyFunc :: "'r request_scheme \<Rightarrow> string" where
  "example_keyFunc r = (case SplitHostPort (RemoteAddr r) of Inl err \<Rightarrow> RemoteAddr r | Inr (host, _) \<Rightarrow> host)"

definition http_example_limiter :: "TokenBucket panics" where
  "http_example_limiter = NewTokenBucket (Fin 2) (Fin 1) []"

definition http_example_config :: "(TokenBucket, mem_env, 'r, 'w) http_Config" where
  "http_example_config = \<lparr>h_Limiter = Some TokenBucket_Allow, h_KeyFunc = Some example_keyFunc, h_DeniedHandler = None,
     h_ErrorHandler = None, h_DisableHeaders = False\<rparr>"

definition writeJSON :: "'w ResponseWriter \<Rightarrow> int \<Rightarrow> json_object \<Rightarrow> 'w \<Rightarrow> 'w" where
  "writeJSON rw st obj w =
     Write rw (json_text obj @ [CHR 0x0A]) (WriteHeader rw st (Header_Set rw ''Content-Type'' ''application/json'' w))"

definition test_route :: "'w ResponseWriter \<Rightarrow> 'w \<Rightarrow> 'r request_scheme \<Rightarrow> 'w" where
  "test_route rw w r = writeJSON rw 200 [(''message'', ''success'')] w"

subsection \<open>Requests that reach the application\<close>

text \<open>
  What a middleware in front of an in-memory limiter does to the requests for one key, whatever
  the key function: the times of these requests, and whether each of them reached the
  application, are the times and the decisions the limiter saw.
\<close>

lemma reached_answers:
  assumes "length ws = length rs" "length outs = length rs"
    and "map reached ws = map (\<lambda>(ret, evs). passes handled ret) outs"
    and "\<And>ret. ret \<in> set (answers_for k (map (\<lambda>(e, w, r). (e, key r)) rs) outs) \<Longrightarrow> snd ret = None"
  shows "map (\<lambda>((e, w, r), w'). (env_now e, reached w')) (filter (\<lambda>((e, w, r), w'). key r = k) (zip rs ws))
     = zip (times_for k (map (\<lambda>(e, w, r). (e, key r)) rs))
         (map (\<lambda>ret. Allowed (fst ret)) (answers_for k (map (\<lambda>(e, w, r). (e, key r)) rs) outs))"
  using assms
proof (induction rs arbitrary: ws outs)
  case Nil
  then show ?case by simp
next
  case (Cons x rs)
  obtain e w r where x: "x = (e, w, r)" by (cases x)
  obtain w' ws' ret evs outs' where l: "ws = w' # ws'" "outs = (ret, evs) # outs'"
    using Cons.prems(1,2) by (cases ws; cases outs) auto
  have IH: "map (\<lambda>((e, w, r), w'). (env_now e, reached w')) (filter (\<lambda>((e, w, r), w'). key r = k) (zip rs ws'))
     = zip (times_for k (map (\<lambda>(e, w, r). (e, key r)) rs))
         (map (\<lambda>ret. Allowed (fst ret)) (answers_for k (map (\<lambda>(e, w, r). (e, key r)) rs) outs'))"
    using Cons.prems by (intro Cons.IH) (auto simp: l x)
  have "reached w' \<longleftrightarrow> Allowed (fst ret)" if "key r = k"
  proof -
    have "snd ret = None" using Cons.prems(4) [of ret] that by (simp add: l x)
    then show ?thesis using Cons.prems(3) by (cases ret) (simp add: l passes_def)
  qed
  then show ?case using IH by (simp add: l x case_prod_unfold)
qed

lemma stretch_of_map: "take n (drop m (map f xs)) = map f (take n (drop m xs))"
  by (simp add: take_map drop_map)

lemma count_reached:
  assumes "map (\<lambda>x. (time x, ok x)) hs = zip ts (map (\<lambda>ret. Allowed (fst ret)) rets)" "length rets = length ts"
    and "take n (drop m hs) = x # xs"
  shows "take n (drop m ts) = map time (x # xs)" "length (filter ok (x # xs)) = count_allowed (take n (drop m rets))"
proof -
  have ts: "ts = map time hs" using arg_cong [OF assms(1), of "map fst"] assms(2) by (simp add: comp_def)
  have oks: "map (\<lambda>ret. Allowed (fst ret)) rets = map ok hs" using arg_cong [OF assms(1), of "map snd"] assms(2) by (simp add: comp_def)
  show "take n (drop m ts) = map time (x # xs)" by (simp only: ts stretch_of_map assms(3))
  have "map (\<lambda>ret. Allowed (fst ret)) (take n (drop m rets)) = map ok (x # xs)"
    by (simp only: stretch_of_map [symmetric] oks) (simp only: stretch_of_map assms(3))
  moreover have "length (filter f ys) = length (filter (\<lambda>b. b) (map f ys))" for f and ys :: "'z list"
    by (induction ys) auto
  ultimately show "length (filter ok (x # xs)) = count_allowed (take n (drop m rets))"
    unfolding count_allowed_def by (metis (no_types, lifting) case_prod_unfold filter_cong)
qed

subsection \<open>Property\<close>

lemma http_example_new: "http_example_limiter = Inr tb \<Longrightarrow> keeps_all_keys (tb_opts tb)"
  by (auto simp: http_example_limiter_def NewTokenBucket_def buildOptions_Nil newStateStore_def keeps_all_keys_def
      split: if_splits) (simp_all add: defaultOptions_def)

lemma alone_length: "length (alone fn fresh vo ts) = length ts"
  by (induction ts arbitrary: vo) (simp_all add: case_prod_beta)

context mem_algorithm
begin

lemma alone_no_error:
  assumes "cfg c" "\<And>v. vo = Some v \<Longrightarrow> ok c t0 v" "sorted (t0 # ts)" "ret \<in> set (alone (decide c) (fresh c) vo ts)"
  shows "snd ret = None"
  using assms(2-4)
proof (induction ts arbitrary: vo t0)
  case (Cons t ts)
  let ?v = "case vo of Some v \<Rightarrow> v | None \<Rightarrow> fresh c t"
  have v: "ok c t ?v" using Cons.prems(1,2) ok_later [of c t0 _ t] fresh_ok [OF assms(1)] by (cases vo) auto
  show ?case
    using Cons.prems(3) no_error [OF assms(1) v] Cons.IH [of "Some (fst (decide c ?v t))" t] step_ok [OF assms(1) v] Cons.prems(2)
    by (auto simp: case_prod_beta)
qed simp

end

text \<open>
  Claim C11. The example server limits each client host, whatever ports its connections come from
  (the remote address of a request is a host and a port joined by \<open>net.JoinHostPort\<close>).
  While the clock does not run backwards every request is answered, and in any stretch of the
  requests from one host at most 2 requests, plus one for every second between the first and the
  last of the stretch, reach the application (up to a relative error of \<open>2\<^sup>-\<^sup>5\<^sup>0\<close> for the float
  arithmetic of the bucket, per request).
\<close>

theorem http_example_rate:
  assumes "http_example_limiter = Inr tb" "http_Middleware rw http_example_config = Inr mw"
    and "marks_next rw http_example_config next reached" "\<not> blank host"
    and "\<And>e w r. (e, w, r) \<in> set rs \<Longrightarrow> \<not> reached w" "successively mem_later (map fst rs)"
    and "\<And>e w r. (e, w, r) \<in> set rs \<Longrightarrow> RemoteAddr r = JoinHostPort (host_of r) (port_of r)
        \<and> no_brackets (host_of r) \<and> no_brackets (port_of r) \<and> CHR '':'' \<notin> set (port_of r)"
  shows "\<exists>tb' ws. serve (\<lambda>s e (w, r). mw next s e w r) tb rs = Some (tb', ws) \<and> length ws = length rs
     \<and> (\<forall>m n x xs. take n (drop m (filter (\<lambda>((e, w, r), w'). host_of r = host) (zip rs ws))) = x # xs \<longrightarrow>
          of_nat (length (filter (\<lambda>((e, w, r), w'). reached w') (x # xs)))
            \<le> 2 + seconds_exact (env_now (fst (fst (last (x # xs)))) - env_now (fst (fst x))) * (1 + 1 / 2 ^ 50)
               + of_nat (length xs) * (2 / 2 ^ 50))"
proof -
  let ?q = "map (\<lambda>(e, w, r). (e, example_keyFunc r)) rs"
  have k: "http_key http_example_config = example_keyFunc" "h_Limiter http_example_config = Some TokenBucket_Allow"
    by (simp_all add: http_key_def http_example_config_def fun_eq_iff)
  have keys: "example_keyFunc r = host_of r" if "(e, w, r) \<in> set rs" for e w r
    using assms(7) [OF that] by (simp add: example_keyFunc_def SplitHostPort_JoinHostPort)
  have f: "is_f64 (Fin 2)" "(2::rat) < 2 ^ 63" "flt (Fin 2) (Fin (2 ^ 63))" using is_f64_int [of 2] by simp_all
  have N: "NewTokenBucket (Fin 2) (Fin 1) [] = Inr tb" using assms(1) by (simp add: http_example_limiter_def)
  note I = NewTokenBucket_inv [OF N f(1) is_f64_1 f(3)] and all = http_example_new [OF assms(1)]
  have later: "successively mem_later (map fst ?q)" using assms(6) by (simp add: comp_def case_prod_unfold)
  note srt = sorted_times [OF later, of host]
  obtain tb' outs0 where run0: "requests TokenBucket_Allow tb ?q = Some (tb', outs0)"
    using tb.requests_contract [OF _ later] I by blast
  obtain ws where ws: "serve (\<lambda>s e (w, r). mw next s e w r) tb rs = Some (tb', ws)"
    using http_serve_returns [OF assms(2) k(2)] run0 unfolding k(1) by blast
  obtain outs where run: "requests TokenBucket_Allow tb ?q = Some (tb', outs)"
      "map reached ws = map (\<lambda>(ret, evs). passes False ret) outs"
    using http_serve_granted [OF assms(2) k(2) assms(3) _ ws] assms(5) unfolding k(1) by (auto simp: http_example_config_def)
  have len: "length outs = length rs" using requests_length [OF run(1)] by simp
  then have len': "length ws = length rs" using arg_cong [OF run(2), of length] by simp
  have ans: "answers_for host ?q outs = alone (refillAndDecide tb) (tb_fresh tb) None (times_for host ?q)"
    using tb.alone_requests [of tb host ?q] I all assms(4) run(1) by auto
  have "snd ret = None" if "ret \<in> set (answers_for host ?q outs)" for ret
    using tb.alone_no_error [of tb None "hd (times_for host ?q)" "times_for host ?q" ret] I(3) srt that
    unfolding ans by (cases "times_for host ?q") auto
  note R = reached_answers [OF len' len run(2) this]
  show ?thesis
  proof (intro exI conjI allI impI)
    fix m n x xs
    let ?hs = "filter (\<lambda>((e, w, r), w'). example_keyFunc r = host) (zip rs ws)"
    let ?t = "\<lambda>x. env_now (fst (fst x))" and ?ok = "\<lambda>((e, w, r), w'). reached w'"
    assume "take n (drop m (filter (\<lambda>((e, w, r), w'). host_of r = host) (zip rs ws))) = x # xs"
    moreover have "filter (\<lambda>((e, w, r), w'). host_of r = host) (zip rs ws) = ?hs"
      using keys by (intro filter_cong) (auto dest: set_zip_leftD)
    ultimately have s: "take n (drop m ?hs) = x # xs" by simp
    have "map (\<lambda>x. (?t x, ?ok x)) ?hs = zip (times_for host ?q) (map (\<lambda>ret. Allowed (fst ret)) (answers_for host ?q outs))"
      using R by (simp add: case_prod_unfold)
    from count_reached [OF this _ s]
    have c: "take n (drop m (times_for host ?q)) = ?t x # map ?t xs"
        "length (filter ?ok (x # xs)) = count_allowed (take n (drop m (answers_for host ?q outs)))"
      unfolding ans by (simp_all add: alone_length)
    show "of_nat (length (filter ?ok (x # xs)))
        \<le> 2 + seconds_exact (?t (last (x # xs)) - ?t x) * (1 + 1 / 2 ^ 50) + of_nat (length xs) * (2 / 2 ^ 50)"
      using token_stretch [OF N f(1) is_f64_1 f(2) all assms(4) run(1) srt c(1)] last_map [of "x # xs" ?t]
      unfolding c(2) by simp
  qed (use ws len' in auto)
qed

subsection \<open>Witness\<close>

text \<open>A response of which only is kept whether the application has seen the request.\<close>

definition seen_writer :: "bool ResponseWriter" where
  "seen_writer = \<lparr>Header_Set = (\<lambda>k v w. w), WriteHeader = (\<lambda>n w. w), Write = (\<lambda>d w. w)\<rparr>"

abbreviation two_connections :: "(mem_env \<times> bool \<times> request) list" where
  "two_connections \<equiv> [(at_time 5, False, \<lparr>RemoteAddr = ''10.0.0.1:1000''\<rparr>), (at_time 9, False, \<lparr>RemoteAddr = ''10.0.0.1:2000''\<rparr>)]"

theorem http_example_rate_witness:
  "\<exists>tb mw tb' w1 w2. http_example_limiter = Inr tb
     \<and> http_Middleware seen_writer (http_example_config :: (TokenBucket, mem_env, unit, bool) http_Config) = Inr mw
     \<and> serve (\<lambda>s e (w, r). mw (\<lambda>w r. True) s e w r) tb two_connections = Some (tb', [w1, w2])
     \<and> of_nat (length (filter (\<lambda>b. b) [w1, w2])) \<le> 2 + seconds_exact 4 * (1 + 1 / 2 ^ 50) + 2 / 2 ^ 50"
proof -
  obtain mw where mw: "http_Middleware seen_writer (http_example_config :: (TokenBucket, mem_env, unit, bool) http_Config) = Inr mw"
    by (simp add: http_Middleware_def http_example_config_def)
  obtain tb where tb: "http_example_limiter = Inr tb"
    using small_token_bucket by (auto simp: http_example_limiter_def)
  have marks: "marks_next seen_writer (http_example_config :: (TokenBucket, mem_env, unit, bool) http_Config) (\<lambda>w r. True) (\<lambda>w. w)"
    by (simp add: marks_next_def seen_writer_def http_example_config_def)
  have host: "\<not> blank ''10.0.0.1''" by code_simp
  let ?host = "\<lambda>r :: request. ''10.0.0.1''" and ?port = "\<lambda>r :: request. if RemoteAddr r = ''10.0.0.1:1000'' then ''1000'' else ''2000''"
  have "\<exists>tb' ws. serve (\<lambda>s e (w, r). mw (\<lambda>w r. True) s e w r) tb two_connections = Some (tb', ws)
     \<and> length ws = length two_connections
     \<and> (\<forall>m n x xs. take n (drop m (filter (\<lambda>((e, w, r), w'). ?host r = ''10.0.0.1'') (zip two_connections ws))) = x # xs \<longrightarrow>
          of_nat (length (filter (\<lambda>((e, w, r), w'). w') (x # xs)))
            \<le> 2 + seconds_exact (env_now (fst (fst (last (x # xs)))) - env_now (fst (fst x))) * (1 + 1 / 2 ^ 50)
               + of_nat (length xs) * (2 / 2 ^ 50))"
    by (rule http_example_rate [OF tb mw marks host, where port_of = ?port]) (auto simp: JoinHostPort_def no_brackets_def)
  then obtain tb' ws where ws: "serve (\<lambda>s e (w, r). mw (\<lambda>w r. True) s e w r) tb two_connections = Some (tb', ws)"
      "length ws = length two_connections"
      "\<And>m n x xs. take n (drop m (filter (\<lambda>((e, w, r), w'). ?host r = ''10.0.0.1'') (zip two_connections ws))) = x # xs \<Longrightarrow>
          of_nat (length (filter (\<lambda>((e, w, r), w'). w') (x # xs)))
            \<le> 2 + seconds_exact (env_now (fst (fst (last (x # xs)))) - env_now (fst (fst x))) * (1 + 1 / 2 ^ 50)
               + of_nat (length xs) * (2 / 2 ^ 50)" by blast
  obtain w1 w2 where w: "ws = [w1, w2]" using ws(2) by (cases ws; cases "tl ws") auto
  have "of_nat (length (filter (\<lambda>b. b) [w1, w2])) \<le> 2 + seconds_exact 4 * (1 + 1 / 2 ^ 50) + 2 / 2 ^ 50"
    using ws(3) [of 2 0] unfolding w by (cases w1; cases w2) simp_all
  then show ?thesis using tb mw ws(1) unfolding w by blast
qed

end
