(* ===== verification/Mem_Concurrent.thy ===== *)
theory Mem_Concurrent
  imports Mem_Limiter
begin

section \<open>Goroutines in the sharded store\<close>

text \<open>
  \<open>memory/sharded_store.go\<close> with its locks and atomic counters. Any number of goroutines run
  \<open>withState\<close> at the same time. A step of a goroutine is what it does between two points where
  others can see or stop it: taking a mutex, or one operation on the atomic counter \<open>live\<close>
  together with the work on the shard whose lock it holds. (The counter \<open>evicts\<close>, which only
  \<open>drainEvictions\<close> reads, moves with \<open>live\<close>.) The locations of a goroutine follow the source:
  \<open>withState\<close> takes the shard lock (\<open>Lock\<close>), looks the key up (\<open>Enter\<close>), cleans up entry by
  entry (\<open>CleanHit\<close>, \<open>CleanMiss\<close>), reserves a slot by a compare-and-swap loop (\<open>Load\<close>, \<open>Cas\<close>,
  \<open>Full\<close>), which may let go of the lock to sweep all shards (\<open>SweepLock\<close>, \<open>SweepNext\<close>,
  \<open>SweepClean\<close>) and to evict from another one (\<open>Check\<close>, \<open>EvictNext\<close>, \<open>EvictAt\<close>) before it takes
  the lock again (\<open>Relock\<close>); then it inserts the key (\<open>Insert\<close>), runs the callback (\<open>Run\<close>) and
  unlocks (\<open>Unlock\<close>).
\<close>

subsection \<open>The state\<close>

record call =
  c_key :: string
  c_now :: time
  c_iter :: map_order

type_synonym 'v victim = "string + element \<times> 'v lruEntry"

datatype 'v loc =
    Lock | Enter | CleanHit "'v victim list" 'v | CleanMiss "'v victim list"
  | Load bool | Cas bool int | Full bool
  | SweepLock | SweepNext "nat list" | SweepClean nat "'v victim list" "nat list"
  | Check | EvictNext "nat list" | EvictAt nat "nat list" | Relock
  | Insert | Run 'v | Unlock go_return

text \<open>
  The store, the owner of each shard's mutex and of \<open>sweepMu\<close>, where each goroutine is, and the
  decisions made so far, in the order they were made.
\<close>

record 'v conc =
  cs_store :: "'v shardedStore"
  cs_lock :: "nat \<Rightarrow> nat option"
  cs_sweep :: "nat option"
  cs_pc :: "nat \<Rightarrow> (call \<times> 'v loc) option"
  cs_log :: "(string \<times> time \<times> go_return) list"

definition own :: "'v conc \<Rightarrow> call \<Rightarrow> nat" where
  "own c cl = shardFor (cs_store c) (c_key cl)"

definition goto :: "nat \<Rightarrow> call \<Rightarrow> 'v loc \<Rightarrow> 'v conc \<Rightarrow> 'v conc" where
  "goto t cl l c = c\<lparr>cs_pc := (cs_pc c)(t \<mapsto> (cl, l))\<rparr>"

definition acquire :: "nat \<Rightarrow> nat \<Rightarrow> 'v conc \<Rightarrow> 'v conc option" where
  "acquire i t c = (if cs_lock c i = None then Some (c\<lparr>cs_lock := (cs_lock c)(i \<mapsto> t)\<rparr>) else None)"

definition release :: "nat \<Rightarrow> 'v conc \<Rightarrow> 'v conc" where
  "release i c = c\<lparr>cs_lock := (cs_lock c)(i := None)\<rparr>"

definition put_store :: "'v shardedStore \<Rightarrow> 'v conc \<Rightarrow> 'v conc" where
  "put_store s c = c\<lparr>cs_store := s\<rparr>"

definition add_log :: "call \<Rightarrow> go_return \<Rightarrow> 'v conc \<Rightarrow> 'v conc" where
  "add_log cl ret c = c\<lparr>cs_log := cs_log c @ [(c_key cl, c_now cl, ret)]\<rparr>"

subsection \<open>The steps\<close>

text \<open>
  \<open>cleanupMap\<close> and \<open>cleanupLRU\<close> in steps: what is to be deleted, then one deletion at a time.
\<close>

definition begin_cleanup ::
  "map_order \<Rightarrow> 'v shardedStore \<Rightarrow> nat \<Rightarrow> time \<Rightarrow> 'v shardedStore \<times> 'v victim list" where
  "begin_cleanup iter s i now =
     (let opts = st_opts s; sh = shards s ! i
      in if keyTTL opts \<le> 0 \<or> cleanupInterval opts \<le> 0 then (s, [])
         else if Sub now (lastCleanup sh) < cleanupInterval opts then (s, [])
         else let sh1 = sh\<lparr>lastCleanup := now\<rparr>
              in (setShard s i sh1,
                  if isLRU s then map Inr (expiredLRU opts sh1 now) else map Inl (expiredMap opts iter sh1 now)))"

definition delete_one :: "nat \<Rightarrow> 'v victim \<Rightarrow> 'v shardedStore \<Rightarrow> 'v shardedStore" where
  "delete_one i x s =
     (let (sh, lv) = (case x of
            Inl key \<Rightarrow> deleteExpiredMap [key] (shards s ! i, live s)
          | Inr e \<Rightarrow> deleteExpiredLRU [e] (shards s ! i, live s))
      in (setShard s i sh)\<lparr>live := lv\<rparr>)"

text \<open>The first lookup of \<open>getOrCreateMap\<close> and \<open>getOrCreateLRU\<close>, up to the cleanup.\<close>

definition enter :: "call \<Rightarrow> nat \<Rightarrow> 'v shardedStore \<Rightarrow> ('v shardedStore \<times> 'v loc) option" where
  "enter cl i s =
     (let key = c_key cl; now = c_now cl; sh = shards s ! i;
          cleanup = (\<lambda>s1 l. let (s2, vs) = begin_cleanup (c_iter cl) s1 i now in Some (s2, l vs))
      in if isLRU s
         then (case orderItems sh key of
                 Some el \<Rightarrow>
                   (case elem_value sh el of
                      Some v \<Rightarrow> cleanup (setShard s i (touchLRU el now sh)) (\<lambda>vs. CleanHit vs v)
                    | None \<Rightarrow> None)
               | None \<Rightarrow> cleanup s CleanMiss)
         else (case map_of (items sh) key of
                 Some entry \<Rightarrow>
                   cleanup (setShard s i (sh\<lparr>items := AList.update key (entry\<lparr>ke_lastSeen := now\<rparr>) (items sh)\<rparr>))
                     (\<lambda>vs. CleanHit vs (ke_value entry))
               | None \<Rightarrow> cleanup s CleanMiss))"

text \<open>
  The second lookup, with a slot reserved: a key that came into being meanwhile gives the slot
  back; otherwise the key is created.
\<close>

definition insert_key :: "call \<Rightarrow> nat \<Rightarrow> 'v shardedStore \<Rightarrow> ('v shardedStore \<times> 'v loc) option" where
  "insert_key cl i s =
     (let key = c_key cl; now = c_now cl; sh = shards s ! i; v = create s now
      in if isLRU s
         then (case orderItems sh key of
                 Some el \<Rightarrow>
                   (case elem_value sh el of
                      Some v' \<Rightarrow> Some ((setShard s i (touchLRU el now sh))\<lparr>live := live s - 1\<rparr>, Run v')
                    | None \<Rightarrow> None)
               | None \<Rightarrow>
                   let el = nextElem sh
                   in Some (setShard s i
                             (sh\<lparr>order := (el, \<lparr>le_key = key, le_value = v, le_lastSeen = now\<rparr>) # order sh,
                                 orderItems := (orderItems sh)(key \<mapsto> el), nextElem := Suc el\<rparr>), Run v))
         else (case map_of (items sh) key of
                 Some entry \<Rightarrow>
                   Some ((setShard s i (sh\<lparr>items := AList.update key (entry\<lparr>ke_lastSeen := now\<rparr>) (items sh)\<rparr>))
                           \<lparr>live := live s - 1\<rparr>, Run (ke_value entry))
               | None \<Rightarrow>
                   Some (setShard s i (sh\<lparr>items := AList.update key \<lparr>ke_value = v, ke_lastSeen = now\<rparr> (items sh)\<rparr>),
                         Run v)))"

text \<open>
  The next step of goroutine \<open>t\<close>, which is at a location of a call; \<open>None\<close> when it waits for a
  mutex that another one holds.
\<close>

fun step :: "'v callback \<Rightarrow> nat \<Rightarrow> call \<Rightarrow> 'v loc \<Rightarrow> 'v conc \<Rightarrow> 'v conc option" where
  "step fn t cl Lock c = map_option (goto t cl Enter) (acquire (own c cl) t c)"
| "step fn t cl Enter c =
     map_option (\<lambda>(s, l). goto t cl l (put_store s c)) (enter cl (own c cl) (cs_store c))"
| "step fn t cl (CleanHit [] v) c = Some (goto t cl (Run v) c)"
| "step fn t cl (CleanHit (x # xs) v) c =
     Some (goto t cl (CleanHit xs v) (put_store (delete_one (own c cl) x (cs_store c)) c))"
| "step fn t cl (CleanMiss []) c =
     (let s = cs_store c
      in if maxKeys (st_opts s) \<le> 0
         then Some (goto t cl Insert (put_store (s\<lparr>live := live s + 1\<rparr>) c))
         else Some (goto t cl (Load False) c))"
| "step fn t cl (CleanMiss (x # xs)) c =
     Some (goto t cl (CleanMiss xs) (put_store (delete_one (own c cl) x (cs_store c)) c))"
| "step fn t cl (Load swept) c =
     (let n = live (cs_store c)
      in Some (goto t cl (if n < maxKeys (st_opts (cs_store c)) then Cas swept n else Full swept) c))"
| "step fn t cl (Cas swept n) c =
     (let s = cs_store c
      in if live s = n then Some (goto t cl Insert (put_store (s\<lparr>live := n + 1\<rparr>) c))
         else Some (goto t cl (Load swept) c))"
| "step fn t cl (Full swept) c =
     (let s = cs_store c; i = own c cl
      in if isLRU s
         then let (s1, evicted) = evictFrom s i
              in if evicted then Some (goto t cl (Load swept) (put_store s1 c))
                 else Some (goto t cl (if swept then Check else SweepLock) (release i c))
         else if \<not> swept then Some (goto t cl SweepLock (release i c))
         else let ret = (zero_Result, Some ErrMaxKeysExceeded)
              in Some (goto t cl (Unlock ret) (add_log cl ret c)))"
| "step fn t cl SweepLock c =
     (let s = cs_store c; opts = st_opts s; done = (if isLRU s then Check else Relock)
      in if keyTTL opts \<le> 0 \<or> cleanupInterval opts \<le> 0 then Some (goto t cl done c)
         else if cs_sweep c \<noteq> None then None
         else let c1 = c\<lparr>cs_sweep := Some t\<rparr>
              in if Sub (c_now cl) (lastSweep s) < cleanupInterval opts then Some (goto t cl (SweepNext []) c1)
                 else Some (goto t cl (SweepNext [0..<length (shards s)]) (put_store (s\<lparr>lastSweep := c_now cl\<rparr>) c1)))"
| "step fn t cl (SweepNext []) c =
     Some (goto t cl (if isLRU (cs_store c) then Check else Relock) (c\<lparr>cs_sweep := None\<rparr>))"
| "step fn t cl (SweepNext (j # js)) c =
     map_option (\<lambda>c1. let (s, vs) = begin_cleanup (c_iter cl) (cs_store c1) j (c_now cl)
                      in goto t cl (SweepClean j vs js) (put_store s c1)) (acquire j t c)"
| "step fn t cl (SweepClean j [] js) c = Some (goto t cl (SweepNext js) (release j c))"
| "step fn t cl (SweepClean j (x # xs) js) c =
     Some (goto t cl (SweepClean j xs js) (put_store (delete_one j x (cs_store c)) c))"
| "step fn t cl Check c =
     (let s = cs_store c
      in Some (goto t cl (if maxKeys (st_opts s) \<le> live s then EvictNext [0..<length (shards s)] else Relock) c))"
| "step fn t cl (EvictNext []) c = Some (goto t cl Relock c)"
| "step fn t cl (EvictNext (j # js)) c =
     (if j = own c cl then Some (goto t cl (EvictNext js) c)
      else map_option (goto t cl (EvictAt j js)) (acquire j t c))"
| "step fn t cl (EvictAt j js) c =
     (let (s1, evicted) = evictFrom (cs_store c) j
      in Some (goto t cl (if evicted then Relock else EvictNext js) (release j (put_store s1 c))))"
| "step fn t cl Relock c = map_option (goto t cl (Load True)) (acquire (own c cl) t c)"
| "step fn t cl Insert c =
     map_option (\<lambda>(s, l). goto t cl l (put_store s c)) (insert_key cl (own c cl) (cs_store c))"
| "step fn t cl (Run v) c =
     (let s = cs_store c; i = own c cl; (v', ret) = fn v (c_now cl)
      in Some (goto t cl (Unlock ret) (add_log cl ret
           (put_store (setShard s i (setValue (isLRU s) (c_key cl) v' (shards s ! i))) c))))"
| "step fn t cl (Unlock ret) c = Some ((release (own c cl) c)\<lparr>cs_pc := (cs_pc c)(t := None)\<rparr>)"

definition thread_step :: "'v callback \<Rightarrow> nat \<Rightarrow> 'v conc \<Rightarrow> 'v conc option" where
  "thread_step fn t c = (case cs_pc c t of None \<Rightarrow> None | Some (cl, l) \<Rightarrow> step fn t cl l c)"

text \<open>The whole: any idle goroutine may start a call, any goroutine may make its next step.\<close>

inductive conc_step :: "'v callback \<Rightarrow> 'v conc \<Rightarrow> 'v conc \<Rightarrow> bool" for fn where
  begin_call: "cs_pc c t = None \<Longrightarrow> conc_step fn c (goto t cl Lock c)"
| make_step: "thread_step fn t c = Some c' \<Longrightarrow> conc_step fn c c'"

definition quiet_conc :: "'v shardedStore \<Rightarrow> 'v conc" where
  "quiet_conc s = \<lparr>cs_store = s, cs_lock = (\<lambda>_. None), cs_sweep = None, cs_pc = (\<lambda>_. None), cs_log = []\<rparr>"

inductive conc_reachable :: "'v callback \<Rightarrow> 'v shardedStore \<Rightarrow> 'v conc \<Rightarrow> bool" for fn s0 where
  conc_init: "conc_reachable fn s0 (quiet_conc s0)"
| conc_next: "conc_reachable fn s0 c \<Longrightarrow> conc_step fn c c' \<Longrightarrow> conc_reachable fn s0 c'"

subsection \<open>The invariant\<close>

text \<open>The shard whose mutex a goroutine holds, whether it holds \<open>sweepMu\<close>, and a reserved slot.\<close>

fun holds :: "'v shardedStore \<Rightarrow> call \<Rightarrow> 'v loc \<Rightarrow> nat option" where
  "holds s cl Lock = None"
| "holds s cl SweepLock = None"
| "holds s cl (SweepNext js) = None"
| "holds s cl (SweepClean j vs js) = Some j"
| "holds s cl Check = None"
| "holds s cl (EvictNext js) = None"
| "holds s cl (EvictAt j js) = Some j"
| "holds s cl Relock = None"
| "holds s cl l = Some (shardFor s (c_key cl))"

fun sweeping :: "'v loc \<Rightarrow> bool" where
  "sweeping (SweepNext js) = True"
| "sweeping (SweepClean j vs js) = True"
| "sweeping l = False"

definition victims_ok :: "'v shardedStore \<Rightarrow> nat \<Rightarrow> 'v victim list \<Rightarrow> bool" where
  "victims_ok s i vs \<longleftrightarrow>
     (if isLRU s then \<exists>es. vs = map Inr es \<and> set es \<subseteq> set (order (shards s ! i)) \<and> distinct (map fst es)
      else \<exists>ks. vs = map Inl ks)"

definition spares :: "string \<Rightarrow> 'v victim list \<Rightarrow> bool" where
  "spares key vs \<longleftrightarrow> (\<forall>x \<in> set vs. (case x of Inl k \<Rightarrow> k | Inr (el, e) \<Rightarrow> le_key e) \<noteq> key)"

text \<open>What a goroutine can rely on where it is.\<close>

fun local_ok :: "'v shardedStore \<Rightarrow> call \<Rightarrow> 'v loc \<Rightarrow> bool" where
  "local_ok s cl (CleanHit vs v) \<longleftrightarrow>
     victims_ok s (shardFor s (c_key cl)) vs \<and> spares (c_key cl) vs \<and> st_value s (c_key cl) = Some v"
| "local_ok s cl (CleanMiss vs) \<longleftrightarrow> victims_ok s (shardFor s (c_key cl)) vs"
| "local_ok s cl (Load swept) \<longleftrightarrow> 0 < maxKeys (st_opts s)"
| "local_ok s cl (Cas swept n) \<longleftrightarrow> n < maxKeys (st_opts s) \<and> 0 < maxKeys (st_opts s)"
| "local_ok s cl (Full swept) \<longleftrightarrow> 0 < maxKeys (st_opts s)"
| "local_ok s cl SweepLock \<longleftrightarrow> 0 < maxKeys (st_opts s)"
| "local_ok s cl (SweepNext js) \<longleftrightarrow> 0 < maxKeys (st_opts s) \<and> set js \<subseteq> {..<length (shards s)}"
| "local_ok s cl (SweepClean j vs js) \<longleftrightarrow>
     0 < maxKeys (st_opts s) \<and> j < length (shards s) \<and> set js \<subseteq> {..<length (shards s)} \<and> victims_ok s j vs"
| "local_ok s cl Check \<longleftrightarrow> 0 < maxKeys (st_opts s) \<and> isLRU s"
| "local_ok s cl (EvictNext js) \<longleftrightarrow> 0 < maxKeys (st_opts s) \<and> isLRU s \<and> set js \<subseteq> {..<length (shards s)}"
| "local_ok s cl (EvictAt j js) \<longleftrightarrow>
     0 < maxKeys (st_opts s) \<and> isLRU s \<and> j < length (shards s) \<and> set js \<subseteq> {..<length (shards s)}"
| "local_ok s cl Relock \<longleftrightarrow> 0 < maxKeys (st_opts s)"
| "local_ok s cl (Run v) \<longleftrightarrow> st_value s (c_key cl) = Some v"
| "local_ok s cl l \<longleftrightarrow> True"

definition reserved :: "'v conc \<Rightarrow> nat set" where
  "reserved c = {t. \<exists>cl. cs_pc c t = Some (cl, Insert)}"

definition cinv :: "'v conc \<Rightarrow> bool" where
  "cinv c \<longleftrightarrow>
     finite (dom (cs_pc c))
     \<and> store_inv (int (card (reserved c))) (cs_store c)
     \<and> (\<forall>i t. cs_lock c i = Some t \<longleftrightarrow> (\<exists>cl l. cs_pc c t = Some (cl, l) \<and> holds (cs_store c) cl l = Some i))
     \<and> (\<forall>t. cs_sweep c = Some t \<longleftrightarrow> (\<exists>cl l. cs_pc c t = Some (cl, l) \<and> sweeping l))
     \<and> (\<forall>t cl l. cs_pc c t = Some (cl, l) \<longrightarrow> local_ok (cs_store c) cl l)"

text \<open>A change of the store that leaves its configuration alone and all shards but one.\<close>

definition only_shard :: "nat option \<Rightarrow> 'v shardedStore \<Rightarrow> 'v shardedStore \<Rightarrow> bool" where
  "only_shard h s s' \<longleftrightarrow>
     st_opts s' = st_opts s \<and> create s' = create s \<and> length (shards s') = length (shards s)
     \<and> (\<forall>j. h \<noteq> Some j \<longrightarrow> shards s' ! j = shards s ! j)"

lemma only_shard_shardFor: "only_shard h s s' \<Longrightarrow> shardFor s' k = shardFor s k"
  by (intro shardFor_cong) (simp add: only_shard_def)

lemma only_shard_holds: "only_shard h s s' \<Longrightarrow> holds s' cl l = holds s cl l"
  by (cases l) (simp_all add: only_shard_shardFor)

lemma only_shard_value:
  assumes "only_shard h s s'" "h \<noteq> Some (shardFor s k)"
  shows "st_value s' k = st_value s k" "st_lookup s' k = st_lookup s k"
proof -
  show "st_lookup s' k = st_lookup s k"
    using assms only_shard_shardFor [OF assms(1)] by (simp add: st_lookup_def only_shard_def)
  then show "st_value s' k = st_value s k" by (simp add: st_value_def)
qed

lemma only_shard_victims:
  "only_shard h s s' \<Longrightarrow> h \<noteq> Some i \<Longrightarrow> victims_ok s' i vs = victims_ok s i vs"
  by (simp add: victims_ok_def only_shard_def)

text \<open>What one goroutine relies on is not disturbed by work on a shard it does not hold.\<close>

lemma local_ok_frame:
  assumes "local_ok s cl l" "only_shard h s s'" "\<And>i. holds s cl l = Some i \<Longrightarrow> h \<noteq> Some i"
  shows "local_ok s' cl l"
proof -
  have o: "st_opts s' = st_opts s" "length (shards s') = length (shards s)" using assms(2) by (simp_all add: only_shard_def)
  show ?thesis
    using assms(1,3) only_shard_value [OF assms(2)] only_shard_victims [OF assms(2)]
    by (cases l) (auto simp: o only_shard_shardFor [OF assms(2)])
qed

lemma only_shard_simps [simp]:
  "only_shard h s s"
  "only_shard h s (s\<lparr>live := n\<rparr>)"
  "only_shard h s (s\<lparr>lastSweep := n'\<rparr>)"
  "only_shard (Some i) s (setShard s i sh)"
  "only_shard (Some i) s ((setShard s i sh)\<lparr>live := n\<rparr>)"
  by (auto simp: only_shard_def nth_list_update)

lemma only_shard_delete [simp]: "only_shard (Some i) s (delete_one i x s)"
  by (auto simp: delete_one_def Let_def only_shard_def nth_list_update split: prod.split)

lemma shardFor_delete_one [simp]: "shardFor (delete_one i x s) k = shardFor s k"
  by (rule only_shard_shardFor [OF only_shard_delete])

lemma only_shard_evict [simp]: "only_shard (Some i) s (fst (evictFrom s i))"
  by (auto simp: evictFrom_def Let_def only_shard_def nth_list_update split: prod.split)

lemma only_shard_begin [simp]: "only_shard (Some i) s (fst (begin_cleanup iter s i now))"
  by (auto simp: begin_cleanup_def Let_def only_shard_def nth_list_update)

lemma same_config [simp]:
  "st_opts (fst (evictFrom s i)) = st_opts s" "length (shards (fst (evictFrom s i))) = length (shards s)"
  "st_opts (delete_one i x s) = st_opts s" "length (shards (delete_one i x s)) = length (shards s)"
  "st_opts (fst (begin_cleanup iter s i now)) = st_opts s"
  "length (shards (fst (begin_cleanup iter s i now))) = length (shards s)"
  using only_shard_evict [of i s] only_shard_delete [of i s x] only_shard_begin [of i s iter now]
  by (simp_all add: only_shard_def)

definition pc_holds :: "'v shardedStore \<Rightarrow> (call \<times> 'v loc) option \<Rightarrow> nat option" where
  "pc_holds s q = (case q of None \<Rightarrow> None | Some (cl, l) \<Rightarrow> holds s cl l)"

definition pc_sweeps :: "(call \<times> 'v loc) option \<Rightarrow> bool" where
  "pc_sweeps q = (case q of None \<Rightarrow> False | Some (cl, l) \<Rightarrow> sweeping l)"

definition pc_slots :: "(call \<times> 'v loc) option \<Rightarrow> int" where
  "pc_slots q = (case q of Some (cl, Insert) \<Rightarrow> 1 | _ \<Rightarrow> 0)"

text \<open>A step of one goroutine to \<open>p\<close>, with the locks moved along.\<close>

definition moved ::
  "nat \<Rightarrow> (call \<times> 'v loc) option \<Rightarrow> 'v shardedStore \<Rightarrow> 'v conc \<Rightarrow> 'v conc \<Rightarrow> bool" where
  "moved t p s c c' \<longleftrightarrow>
     cs_store c' = s \<and> cs_pc c' = (cs_pc c)(t := p)
     \<and> (\<forall>i. cs_lock c' i = (if pc_holds (cs_store c) p = Some i then Some t
                            else if pc_holds (cs_store c) (cs_pc c t) = Some i then None else cs_lock c i))
     \<and> (\<forall>i. pc_holds (cs_store c) p = Some i \<longrightarrow> pc_holds (cs_store c) (cs_pc c t) = Some i \<or> cs_lock c i = None)
     \<and> cs_sweep c' = (if pc_sweeps p then Some t else if pc_sweeps (cs_pc c t) then None else cs_sweep c)
     \<and> (pc_sweeps p \<longrightarrow> pc_sweeps (cs_pc c t) \<or> cs_sweep c = None)"

lemma pc_slots_Insert: "pc_slots q = (if \<exists>cl. q = Some (cl, Insert) then 1 else 0)"
  by (auto simp: pc_slots_def split: option.split loc.split)

lemma card_reserved_update:
  assumes "finite (dom (cs_pc c))" "cs_pc c' = (cs_pc c)(t := p)"
  shows "int (card (reserved c')) = int (card (reserved c)) + pc_slots p - pc_slots (cs_pc c t)"
proof -
  have fin: "finite (reserved c)" using assms(1) by (rule finite_subset [rotated]) (auto simp: reserved_def)
  have r: "reserved c' = (reserved c - {t}) \<union> (if \<exists>cl. p = Some (cl, Insert) then {t} else {})"
    using assms(2) by (auto simp: reserved_def split: if_splits)
  have t: "t \<in> reserved c \<longleftrightarrow> (\<exists>cl. cs_pc c t = Some (cl, Insert))" by (auto simp: reserved_def)
  have pos: "t \<in> reserved c \<Longrightarrow> 0 < card (reserved c)" using fin by (auto simp: card_gt_0_iff)
  show ?thesis
    unfolding r pc_slots_Insert t [symmetric] using fin pos by (auto simp: card_Diff_singleton card_insert_if of_nat_diff)
qed

lemma cinvD:
  assumes "cinv c"
  shows "finite (dom (cs_pc c))" "store_inv (int (card (reserved c))) (cs_store c)"
    "cs_lock c i = Some t \<longleftrightarrow> pc_holds (cs_store c) (cs_pc c t) = Some i"
    "cs_sweep c = Some t \<longleftrightarrow> pc_sweeps (cs_pc c t)"
    "cs_pc c t = Some (cl, l) \<Longrightarrow> local_ok (cs_store c) cl l"
  using assms by (auto simp: cinv_def pc_holds_def pc_sweeps_def split: option.splits)

lemma cinvI:
  assumes "finite (dom (cs_pc c))" "store_inv (int (card (reserved c))) (cs_store c)"
    "\<And>i t. cs_lock c i = Some t \<longleftrightarrow> pc_holds (cs_store c) (cs_pc c t) = Some i"
    "\<And>t. cs_sweep c = Some t \<longleftrightarrow> pc_sweeps (cs_pc c t)"
    "\<And>t cl l. cs_pc c t = Some (cl, l) \<Longrightarrow> local_ok (cs_store c) cl l"
  shows "cinv c"
  using assms by (auto simp: cinv_def pc_holds_def pc_sweeps_def split: option.splits)

lemma cinv_moved:
  assumes inv: "cinv c" and m: "moved t p s c c'"
    and o: "only_shard h (cs_store c) s" "\<And>i. h = Some i \<Longrightarrow> pc_holds (cs_store c) (cs_pc c t) = Some i \<or> cs_lock c i = None"
    and st: "store_inv (int (card (reserved c)) + pc_slots p - pc_slots (cs_pc c t)) s"
    and lp: "\<And>cl l. p = Some (cl, l) \<Longrightarrow> local_ok s cl l"
  shows "cinv c'"
proof (rule cinvI)
  have c': "cs_store c' = s" "cs_pc c' = (cs_pc c)(t := p)" using m by (simp_all add: moved_def)
  have h: "pc_holds s q = pc_holds (cs_store c) q" for q
    by (auto simp: pc_holds_def only_shard_holds [OF o(1)] split: option.split)
  show "finite (dom (cs_pc c'))" using cinvD(1) [OF inv] by (simp add: c')
  show "store_inv (int (card (reserved c'))) (cs_store c')"
    using st card_reserved_update [OF cinvD(1) [OF inv] c'(2)] by (simp add: c'(1))
  fix i u
  show "cs_lock c' i = Some u \<longleftrightarrow> pc_holds (cs_store c') (cs_pc c' u) = Some i"
    using m cinvD(3) [OF inv, of i u] cinvD(3) [OF inv, of i t] unfolding moved_def c' h by (cases "u = t") auto
  show "cs_sweep c' = Some u \<longleftrightarrow> pc_sweeps (cs_pc c' u)"
    using m cinvD(4) [OF inv, of u] cinvD(4) [OF inv, of t] unfolding moved_def c' by (cases "u = t") auto
  fix cl l
  assume u: "cs_pc c' u = Some (cl, l)"
  show "local_ok (cs_store c') cl l"
  proof (cases "u = t")
    case True
    then show ?thesis using u lp by (simp add: c')
  next
    case False
    then have pc: "cs_pc c u = Some (cl, l)" using u by (simp add: c')
    have "h \<noteq> Some i" if "holds (cs_store c) cl l = Some i" for i
      using o(2) [of i] that cinvD(3) [OF inv, of i u] cinvD(3) [OF inv, of i t] False pc by (auto simp: pc_holds_def)
    then show ?thesis
      unfolding c'(1) using local_ok_frame [OF cinvD(5) [OF inv pc] o(1)] by blast
  qed
qed

lemma cinv_begin:
  assumes "cinv c" "cs_pc c t = None"
  shows "cinv (goto t cl Lock c)"
proof (rule cinv_moved [OF assms(1), where p = "Some (cl, Lock)" and t = t and s = "cs_store c" and h = None])
  show "moved t (Some (cl, Lock)) (cs_store c) c (goto t cl Lock c)"
    using assms(2) by (simp add: moved_def goto_def pc_holds_def pc_sweeps_def)
  show "store_inv (int (card (reserved c)) + pc_slots (Some (cl, Lock :: 'a loc)) - pc_slots (cs_pc c t)) (cs_store c)"
    using assms cinvD(2) by (simp add: pc_slots_def)
qed simp_all

subsection \<open>The pieces keep the store's invariant\<close>

lemma store_inv_live:
  assumes "store_inv r s" "0 < maxKeys (st_opts s) \<Longrightarrow> live s + d \<le> maxKeys (st_opts s)"
  shows "store_inv (r + d) (s\<lparr>live := live s + d\<rparr>)"
proof -
  have "key_count (s\<lparr>live := live s + d\<rparr>) = key_count s" by (simp add: key_count_def)
  then show ?thesis using assms unfolding store_inv_def by auto
qed

lemma same_entries:
  assumes "store_inv r s" "i < length (shards s)" "shard_ok (isLRU s) sh'" "entries (isLRU s) sh' = entries (isLRU s) (shards s ! i)"
  shows "store_inv r (setShard s i sh')" "st_lookup (setShard s i sh') = st_lookup s"
proof -
  have "store_inv r ((setShard s i sh')\<lparr>live := live s\<rparr>)"
    using shrink_shard_plain [OF assms(1-3), of "live s"] assms(4) by (simp add: shard_keys_def)
  then show "store_inv r (setShard s i sh')" by simp
  show "st_lookup (setShard s i sh') = st_lookup s"
    using assms(2,4) by (auto simp: st_lookup_def fun_eq_iff nth_list_update)
qed

lemma begin_cleanup_ok:
  fixes iter :: map_order and now :: time
  assumes inv: "store_inv r s" and i: "i < length (shards s)"
  defines "s1 \<equiv> fst (begin_cleanup iter s i now)" and "vs \<equiv> snd (begin_cleanup iter s i now)"
  shows "store_inv r s1" "st_lookup s1 = st_lookup s" "victims_ok s1 i vs"
proof -
  let ?sh = "(shards s ! i)\<lparr>lastCleanup := now\<rparr>"
  consider "s1 = s" "vs = []"
    | "s1 = setShard s i ?sh" "vs = (if isLRU s then map Inr (expiredLRU (st_opts s) ?sh now) else map Inl (expiredMap (st_opts s) iter ?sh now))"
  proof (cases "keyTTL (st_opts s) \<le> 0 \<or> cleanupInterval (st_opts s) \<le> 0
      \<or> Sub now (lastCleanup (shards s ! i)) < cleanupInterval (st_opts s)")
    case True
    then show thesis using that(1) by (auto simp: s1_def vs_def begin_cleanup_def Let_def)
  next
    case False
    then show thesis using that(2) by (simp add: s1_def vs_def begin_cleanup_def Let_def)
  qed
  then show "store_inv r s1" "st_lookup s1 = st_lookup s" "victims_ok s1 i vs"
  proof (atomize(full), cases)
    case 1
    then show "store_inv r s1 \<and> st_lookup s1 = st_lookup s \<and> victims_ok s1 i vs" using inv by (simp add: victims_ok_def)
  next
    case 2
    have ok: "shard_ok (isLRU s) ?sh" using store_inv_shard_ok [OF inv i] by simp
    have "isLRU s \<Longrightarrow> distinct (map fst (order ?sh))" using ok by (simp add: shard_ok_def)
    then have "victims_ok s1 i vs"
      using 2 i expiredLRU_sub [of "st_opts s" ?sh now] distinct_expiredLRU [of ?sh "st_opts s" now]
      by (auto simp: victims_ok_def)
    then show "store_inv r s1 \<and> st_lookup s1 = st_lookup s \<and> victims_ok s1 i vs"
      using same_entries [OF inv i ok] 2 by simp
  qed
qed

text \<open>The entry that was just used is not among the expired ones.\<close>

lemma begin_cleanup_spares:
  assumes inv: "store_inv r s" and i: "i = shardFor s key" and fresh: "st_lookup s key = Some (v, now)"
  shows "spares key (snd (begin_cleanup iter s i now))"
proof (cases "snd (begin_cleanup iter s i now) = []")
  case True
  then show ?thesis by (simp add: spares_def)
next
  case False
  let ?sh = "(shards s ! i)\<lparr>lastCleanup := now\<rparr>"
  have ttl: "0 < keyTTL (st_opts s)"
    and vs: "snd (begin_cleanup iter s i now) =
      (if isLRU s then map Inr (expiredLRU (st_opts s) ?sh now) else map Inl (expiredMap (st_opts s) iter ?sh now))"
    using False by (auto simp: begin_cleanup_def Let_def split: if_splits)
  have il: "i < length (shards s)" unfolding i using inv by (rule store_inv_shardFor)
  have ok: "shard_ok (isLRU s) ?sh" using store_inv_shard_ok [OF inv il] by simp
  show ?thesis
  proof (cases "isLRU s")
    case True
    have "le_key e \<noteq> key" if e: "(el, e) \<in> set (expiredLRU (st_opts s) ?sh now)" for el e
    proof
      assume "le_key e = key"
      moreover have "(el, e) \<in> set (order ?sh)" using e expiredLRU_sub by blast
      ultimately have "le_lastSeen e = now"
        using view_of_elem(1) [of ?sh el e] ok True fresh i by (simp add: st_lookup_def)
      then show False using e ttl by (auto simp: expiredLRU_def)
    qed
    then show ?thesis using vs True by (auto simp: spares_def)
  next
    case False
    obtain e where "map_of (items ?sh) key = Some e" "ke_lastSeen e = now"
      using fresh False i by (auto simp: store_view)
    then have "key \<notin> set (expiredMap (st_opts s) iter ?sh now)" using ttl by (auto simp: expiredMap_def)
    then show ?thesis using vs False by (auto simp: spares_def)
  qed
qed

lemma delete_one_Map:
  assumes inv: "store_inv r s" and i: "i < length (shards s)" and rej: "\<not> isLRU s"
  shows "store_inv r (delete_one i (Inl k) s)"
    and "key \<noteq> k \<Longrightarrow> st_lookup s key = Some x \<Longrightarrow> st_lookup (delete_one i (Inl k) s) key = Some x"
proof -
  let ?sh = "shards s ! i" and ?P = "\<lambda>p. fst p \<noteq> k"
  let ?sh' = "?sh\<lparr>items := filter ?P (items ?sh)\<rparr>"
  let ?lv = "live s - int (length (filter (\<lambda>p. fst p = k) (items ?sh)))"
  have ok: "shard_ok False ?sh" using store_inv_shard_ok [OF inv i] rej by simp
  then have d: "distinct (map fst (items ?sh))" by (simp add: shard_ok_def keys_Map)
  have eq: "delete_one i (Inl k) s = (setShard s i ?sh')\<lparr>live := ?lv\<rparr>"
    using deleteExpiredMap_eq [OF d, of "[k]" "live s"] by (simp add: delete_one_def)
  have len: "int (length (filter (\<lambda>p. fst p = k) (items ?sh))) + int (length (filter ?P (items ?sh))) = int (length (items ?sh))"
    unfolding of_nat_add [symmetric] by (simp only: sum_length_filter_compl)
  have "shard_ok False ?sh'" using ok d by (simp add: shard_ok_def keys_Map distinct_map_filter_key)
  moreover have "map_of (entries False ?sh') \<subseteq>\<^sub>m map_of (entries False ?sh)"
    using d by (intro entries_filter_items [where P = ?P]) (simp_all add: keys_Map)
  ultimately show "store_inv r (delete_one i (Inl k) s)"
    unfolding eq using inv i rej len by (intro conjunct1 [OF shrink_shard_plain]) (simp_all add: keys_Map)
  assume "key \<noteq> k" "st_lookup s key = Some x"
  moreover have "map_of (filter ?P (items ?sh)) key = map_of (items ?sh) key" if "key \<noteq> k"
    using that map_of_filter_key [of "\<lambda>q. q \<noteq> k" key "items ?sh"] by simp
  ultimately show "st_lookup (delete_one i (Inl k) s) key = Some x"
    unfolding eq using rej i by (cases "shardFor s key = i") (auto simp: store_view)
qed

lemma delete_one_LRU:
  assumes inv: "store_inv r s" and i: "i < length (shards s)" and lru: "isLRU s"
    and m: "(el, e) \<in> set (order (shards s ! i))"
  shows "store_inv r (delete_one i (Inr (el, e)) s)"
    and "order (shards (delete_one i (Inr (el, e)) s) ! i) = filter (\<lambda>p. fst p \<noteq> el) (order (shards s ! i))"
    and "key \<noteq> le_key e \<Longrightarrow> st_lookup s key = Some x \<Longrightarrow> st_lookup (delete_one i (Inr (el, e)) s) key = Some x"
proof -
  let ?sh = "shards s ! i"
  have ok: "shard_ok True ?sh" using store_inv_shard_ok [OF inv i] lru by simp
  obtain sh' where sh': "deleteExpiredLRU [(el, e)] (?sh, live s) = (sh', live s - 1)" "shard_ok True sh'"
      "order sh' = filter (\<lambda>p. fst p \<noteq> el) (order ?sh)" "int (length (order sh')) = int (length (order ?sh)) - 1"
    using deleteExpiredLRU_ok [OF ok, of "[(el, e)]" "live s"] m by auto
  have eq: "delete_one i (Inr (el, e)) s = (setShard s i sh')\<lparr>live := live s - 1\<rparr>"
    using sh'(1) by (simp add: delete_one_def)
  have "map_of (entries True sh') \<subseteq>\<^sub>m map_of (entries True ?sh)"
    using ok sh'(3) by (intro entries_filter_order [where P = "\<lambda>p. fst p \<noteq> el"]) (simp_all add: shard_ok_def)
  then show "store_inv r (delete_one i (Inr (el, e)) s)"
    unfolding eq using inv i lru sh' by (intro conjunct1 [OF shrink_shard_plain]) (simp_all add: keys_LRU)
  show "order (shards (delete_one i (Inr (el, e)) s) ! i) = filter (\<lambda>p. fst p \<noteq> el) (order ?sh)"
    using i sh'(3) by (simp add: eq)
  assume k: "key \<noteq> le_key e" and x: "st_lookup s key = Some x"
  show "st_lookup (delete_one i (Inr (el, e)) s) key = Some x"
  proof (cases "shardFor s key = i")
    case True
    then have "map_of (map lru_view (order ?sh)) key = Some x" using x lru by (simp add: st_lookup_def entries_def)
    then have "(key, x) \<in> set (map lru_view (order ?sh))" by (rule map_of_SomeD)
    then obtain el' e' where e': "(el', e') \<in> set (order ?sh)" "le_key e' = key" "x = (le_value e', le_lastSeen e')" by auto
    have "el' \<noteq> el"
    proof
      assume "el' = el"
      then have "e' = e" using e'(1) m ok by (metis shard_ok_def map_of_is_SomeI option.inject)
      then show False using k e'(2) by simp
    qed
    then have "(el', e') \<in> set (order sh')" using e'(1) sh'(3) by simp
    then have "map_of (entries True sh') key = Some x" using view_of_elem(1) [OF sh'(2)] e'(2,3) by metis
    then show ?thesis using True i lru by (simp add: eq st_lookup_def)
  next
    case False
    then show ?thesis using x by (simp add: eq st_lookup_def)
  qed
qed

lemma delete_one_ok:
  assumes inv: "store_inv r s" and i: "i < length (shards s)" and vs: "victims_ok s i (x # xs)"
  shows "store_inv r (delete_one i x s)" "victims_ok (delete_one i x s) i xs"
    and "spares key (x # xs) \<Longrightarrow> st_value s key = Some v \<Longrightarrow> st_value (delete_one i x s) key = Some v"
proof -
  have o: "st_opts (delete_one i x s) = st_opts s" using only_shard_delete [of i s x] by (simp add: only_shard_def)
  have "store_inv r (delete_one i x s) \<and> victims_ok (delete_one i x s) i xs
    \<and> (spares key (x # xs) \<longrightarrow> st_value s key = Some v \<longrightarrow> st_value (delete_one i x s) key = Some v)"
  proof (cases "isLRU s")
    case True
    then obtain el e es where x: "x = Inr (el, e)" "xs = map Inr es" "(el, e) \<in> set (order (shards s ! i))"
      "set es \<subseteq> set (order (shards s ! i))" "distinct (map fst ((el, e) # es))"
      using vs by (auto simp: victims_ok_def Cons_eq_map_conv)
    note d = delete_one_LRU [OF inv i True x(3)]
    have "set es \<subseteq> set (filter (\<lambda>p. fst p \<noteq> el) (order (shards s ! i)))" using x(4,5) by auto
    then have "victims_ok (delete_one i x s) i xs" using x True o d(2) by (auto simp: victims_ok_def)
    then show ?thesis using d(1,3) by (auto simp: x(1) spares_def st_value_def)
  next
    case False
    then obtain k ks where x: "x = Inl k" "xs = map Inl ks" using vs by (auto simp: victims_ok_def Cons_eq_map_conv)
    have "victims_ok (delete_one i x s) i xs" using x False o by (auto simp: victims_ok_def)
    then show ?thesis using delete_one_Map(1) [OF inv i False, of k] delete_one_Map(2) [OF inv i False, of key k]
      by (auto simp: x(1) spares_def st_value_def)
  qed
  then show "store_inv r (delete_one i x s)" "victims_ok (delete_one i x s) i xs"
    and "spares key (x # xs) \<Longrightarrow> st_value s key = Some v \<Longrightarrow> st_value (delete_one i x s) key = Some v" by blast+
qed

lemma only_shard_trans: "only_shard h a b \<Longrightarrow> only_shard h b c \<Longrightarrow> only_shard h a c"
  by (auto simp: only_shard_def)

lemma touch_found:
  assumes inv: "store_inv r s" and i: "i = shardFor s key"
  shows "isLRU s \<Longrightarrow> orderItems (shards s ! i) key = Some el \<Longrightarrow>
      \<exists>v. elem_value (shards s ! i) el = Some v \<and> st_value s key = Some v
        \<and> shard_ok True (touchLRU el now (shards s ! i))
        \<and> map_of (entries True (touchLRU el now (shards s ! i))) = (map_of (entries True (shards s ! i)))(key \<mapsto> (v, now))"
    and "\<not> isLRU s \<Longrightarrow> map_of (items (shards s ! i)) key = Some entry \<Longrightarrow>
      st_value s key = Some (ke_value entry)
      \<and> shard_ok False ((shards s ! i)\<lparr>items := AList.update key (entry\<lparr>ke_lastSeen := now\<rparr>) (items (shards s ! i))\<rparr>)
      \<and> map_of (entries False ((shards s ! i)\<lparr>items := AList.update key (entry\<lparr>ke_lastSeen := now\<rparr>) (items (shards s ! i))\<rparr>))
          = (map_of (entries False (shards s ! i)))(key \<mapsto> (ke_value entry, now))"
proof -
  have il: "i < length (shards s)" unfolding i using inv by (rule store_inv_shardFor)
  have ok: "shard_ok (isLRU s) (shards s ! i)" using inv il by (rule store_inv_shard_ok)
  show "\<exists>v. elem_value (shards s ! i) el = Some v \<and> st_value s key = Some v
        \<and> shard_ok True (touchLRU el now (shards s ! i))
        \<and> map_of (entries True (touchLRU el now (shards s ! i))) = (map_of (entries True (shards s ! i)))(key \<mapsto> (v, now))"
    if lru: "isLRU s" and el: "orderItems (shards s ! i) key = Some el"
  proof -
    have okT: "shard_ok True (shards s ! i)" using ok lru by simp
    obtain e where e: "(el, e) \<in> set (order (shards s ! i))" "le_key e = key" using okT el by (rule order_of_index)
    then show ?thesis
      using view_of_elem [OF okT e(1)] touchLRU_ok [OF okT e(1), of now] lru i by (simp add: st_value_def st_lookup_def)
  qed
  show "st_value s key = Some (ke_value entry)
      \<and> shard_ok False ((shards s ! i)\<lparr>items := AList.update key (entry\<lparr>ke_lastSeen := now\<rparr>) (items (shards s ! i))\<rparr>)
      \<and> map_of (entries False ((shards s ! i)\<lparr>items := AList.update key (entry\<lparr>ke_lastSeen := now\<rparr>) (items (shards s ! i))\<rparr>))
          = (map_of (entries False (shards s ! i)))(key \<mapsto> (ke_value entry, now))"
    if "\<not> isLRU s" "map_of (items (shards s ! i)) key = Some entry"
    using that ok i update_items [of "shards s ! i" key "entry\<lparr>ke_lastSeen := now\<rparr>"]
    by (simp add: st_value_def store_view)
qed

lemma touched_store:
  assumes inv: "store_inv r s" and i: "i = shardFor s key" and v: "st_value s key = Some v"
    and ok: "shard_ok (isLRU s) sh'"
    and upd: "map_of (entries (isLRU s) sh') = (map_of (entries (isLRU s) (shards s ! i)))(key \<mapsto> (v, now))"
  shows "store_inv r (setShard s i sh')" "st_lookup (setShard s i sh') = (st_lookup s)(key \<mapsto> (v, now))"
    "st_value (setShard s i sh') = st_value s"
proof -
  obtain t where "st_lookup s key = Some (v, t)" using v by (auto simp: st_value_def)
  then show "store_inv r (setShard s i sh')" using put_shard(1) [OF inv i ok upd] by simp
  show l: "st_lookup (setShard s i sh') = (st_lookup s)(key \<mapsto> (v, now))" by (rule put_shard(2) [OF inv i ok upd])
  show "st_value (setShard s i sh') = st_value s" using v by (auto simp: st_value_def l fun_eq_iff)
qed

text \<open>The outcome of the first lookup.\<close>

definition entered :: "int \<Rightarrow> call \<Rightarrow> nat \<Rightarrow> 'v shardedStore \<Rightarrow> 'v shardedStore \<Rightarrow> 'v loc \<Rightarrow> bool" where
  "entered r cl i s s' l \<longleftrightarrow>
     store_inv r s' \<and> only_shard (Some i) s s' \<and> local_ok s' cl l \<and> st_value s' = st_value s
     \<and> ((\<exists>vs v. l = CleanHit vs v) \<or> (\<exists>vs. l = CleanMiss vs))"

lemma entered_hit:
  assumes inv: "store_inv r s" and i: "i = shardFor s (c_key cl)" and v: "st_value s (c_key cl) = Some v"
    and ok: "shard_ok (isLRU s) sh'"
    and upd: "map_of (entries (isLRU s) sh') = (map_of (entries (isLRU s) (shards s ! i)))(c_key cl \<mapsto> (v, c_now cl))"
  defines "b \<equiv> begin_cleanup (c_iter cl) (setShard s i sh') i (c_now cl)"
  shows "entered r cl i s (fst b) (CleanHit (snd b) v)"
proof -
  let ?s1 = "setShard s i sh'"
  note t = touched_store [OF inv i v ok upd]
  have il: "i < length (shards ?s1)" using i store_inv_shardFor [OF inv] by simp
  note c = begin_cleanup_ok [OF t(1) il, of "c_iter cl" "c_now cl", folded b_def]
  have i1: "i = shardFor ?s1 (c_key cl)" by (simp add: i)
  have "spares (c_key cl) (snd b)" unfolding b_def using t(2) by (intro begin_cleanup_spares [OF t(1) i1, where v = v]) simp
  moreover have o: "only_shard (Some i) s (fst b)"
    unfolding b_def by (rule only_shard_trans [where b = ?s1]) simp_all
  moreover have "st_value (fst b) = st_value s" using c(2) t(3) by (simp add: st_value_def fun_eq_iff)
  ultimately show ?thesis
    using c(1,3) v i by (simp add: entered_def only_shard_shardFor [OF o])
qed

lemma entered_miss:
  assumes inv: "store_inv r s" and i: "i = shardFor s (c_key cl)"
  defines "b \<equiv> begin_cleanup (c_iter cl) s i (c_now cl)"
  shows "entered r cl i s (fst b) (CleanMiss (snd b))"
proof -
  have il: "i < length (shards s)" unfolding i using inv by (rule store_inv_shardFor)
  note c = begin_cleanup_ok [OF inv il, of "c_iter cl" "c_now cl", folded b_def]
  have o: "only_shard (Some i) s (fst b)" by (simp add: b_def)
  have "local_ok (fst b) cl (CleanMiss (snd b))" using c(3) i by (simp add: only_shard_shardFor [OF o])
  then show ?thesis using c(1,2) o by (auto simp: entered_def st_value_def fun_eq_iff)
qed

lemma enter_ok:
  assumes inv: "store_inv r s" and i: "i = shardFor s (c_key cl)"
  shows "\<exists>s' l. enter cl i s = Some (s', l) \<and> entered r cl i s s' l"
proof (cases "isLRU s")
  case True
  show ?thesis
  proof (cases "orderItems (shards s ! i) (c_key cl)")
    case None
    then show ?thesis using entered_miss [OF inv i] True by (simp add: enter_def Let_def case_prod_beta)
  next
    case (Some el)
    then obtain v where v: "elem_value (shards s ! i) el = Some v" "st_value s (c_key cl) = Some v"
      "shard_ok (isLRU s) (touchLRU el (c_now cl) (shards s ! i))"
      "map_of (entries (isLRU s) (touchLRU el (c_now cl) (shards s ! i)))
         = (map_of (entries (isLRU s) (shards s ! i)))(c_key cl \<mapsto> (v, c_now cl))"
      using touch_found(1) [OF inv i True Some, of "c_now cl"] True by auto
    then show ?thesis using entered_hit [OF inv i v(2-4)] True Some by (simp add: enter_def Let_def case_prod_beta)
  qed
next
  case False
  show ?thesis
  proof (cases "map_of (items (shards s ! i)) (c_key cl)")
    case None
    then show ?thesis using entered_miss [OF inv i] False by (simp add: enter_def Let_def case_prod_beta)
  next
    case (Some entry)
    let ?sh = "(shards s ! i)\<lparr>items := AList.update (c_key cl) (entry\<lparr>ke_lastSeen := c_now cl\<rparr>) (items (shards s ! i))\<rparr>"
    have v: "st_value s (c_key cl) = Some (ke_value entry)" "shard_ok (isLRU s) ?sh"
      "map_of (entries (isLRU s) ?sh) = (map_of (entries (isLRU s) (shards s ! i)))(c_key cl \<mapsto> (ke_value entry, c_now cl))"
      using touch_found(2) [OF inv i False Some, of "c_now cl"] False by simp_all
    then show ?thesis using entered_hit [OF inv i v] False Some by (simp add: enter_def Let_def case_prod_beta)
  qed
qed

text \<open>The outcome of the second lookup: the slot is used up, or given back.\<close>

definition inserted :: "int \<Rightarrow> call \<Rightarrow> nat \<Rightarrow> 'v shardedStore \<Rightarrow> 'v shardedStore \<Rightarrow> 'v loc \<Rightarrow> bool" where
  "inserted r cl i s s' l \<longleftrightarrow>
     store_inv (r - 1) s' \<and> only_shard (Some i) s s'
     \<and> (\<exists>v. l = Run v \<and> v = (case st_value s (c_key cl) of Some v0 \<Rightarrow> v0 | None \<Rightarrow> create s (c_now cl))
             \<and> st_value s' = (st_value s)(c_key cl \<mapsto> v))"

lemma inserted_back:
  assumes inv: "store_inv r s" and i: "i = shardFor s (c_key cl)" and v: "st_value s (c_key cl) = Some v"
    and ok: "shard_ok (isLRU s) sh'"
    and upd: "map_of (entries (isLRU s) sh') = (map_of (entries (isLRU s) (shards s ! i)))(c_key cl \<mapsto> (v, c_now cl))"
  shows "inserted r cl i s ((setShard s i sh')\<lparr>live := live s - 1\<rparr>) (Run v)"
proof -
  note t = touched_store [OF inv i v ok upd]
  have "store_inv (r + - 1) ((setShard s i sh')\<lparr>live := live (setShard s i sh') + - 1\<rparr>)"
    using store_inv_bound [OF t(1)] by (intro store_inv_live [OF t(1)]) auto
  moreover have "st_value ((setShard s i sh')\<lparr>live := live s - 1\<rparr>) = st_value (setShard s i sh')"
    by (simp add: st_value_def st_lookup_def fun_eq_iff)
  ultimately show ?thesis using v t(3) by (simp add: inserted_def fun_upd_idem)
qed

lemma inserted_new:
  assumes inv: "store_inv r s" and i: "i = shardFor s (c_key cl)" and n: "st_value s (c_key cl) = None"
    and ok: "shard_ok (isLRU s) sh'"
    and upd: "map_of (entries (isLRU s) sh')
       = (map_of (entries (isLRU s) (shards s ! i)))(c_key cl \<mapsto> (create s (c_now cl), c_now cl))"
  shows "inserted r cl i s (setShard s i sh') (Run (create s (c_now cl)))"
proof -
  have "st_lookup s (c_key cl) = None" using n by (simp add: st_value_def)
  then show ?thesis
    using put_shard [OF inv i ok upd] n by (simp add: inserted_def st_value_def fun_eq_iff)
qed

lemma insert_key_ok:
  assumes inv: "store_inv r s" and i: "i = shardFor s (c_key cl)"
  shows "\<exists>s' l. insert_key cl i s = Some (s', l) \<and> inserted r cl i s s' l"
proof (cases "isLRU s")
  case True
  have il: "i < length (shards s)" unfolding i using inv by (rule store_inv_shardFor)
  have ok: "shard_ok True (shards s ! i)" using store_inv_shard_ok [OF inv il] True by simp
  show ?thesis
  proof (cases "orderItems (shards s ! i) (c_key cl)")
    case None
    then have "st_value s (c_key cl) = None" using index_None_iff [OF ok] True i by (simp add: st_value_def st_lookup_def)
    from inserted_new [OF inv i this] show ?thesis
      using pushFront_ok [OF ok None, of "create s (c_now cl)" "c_now cl"] True None
      by (simp add: insert_key_def Let_def)
  next
    case (Some el)
    then obtain v where v: "elem_value (shards s ! i) el = Some v" "st_value s (c_key cl) = Some v"
      "shard_ok (isLRU s) (touchLRU el (c_now cl) (shards s ! i))"
      "map_of (entries (isLRU s) (touchLRU el (c_now cl) (shards s ! i)))
         = (map_of (entries (isLRU s) (shards s ! i)))(c_key cl \<mapsto> (v, c_now cl))"
      using touch_found(1) [OF inv i True Some, of "c_now cl"] True by auto
    then show ?thesis using inserted_back [OF inv i v(2-4)] True Some by (simp add: insert_key_def Let_def)
  qed
next
  case False
  have il: "i < length (shards s)" unfolding i using inv by (rule store_inv_shardFor)
  have ok: "shard_ok False (shards s ! i)" using store_inv_shard_ok [OF inv il] False by simp
  show ?thesis
  proof (cases "map_of (items (shards s ! i)) (c_key cl)")
    case None
    then have "st_value s (c_key cl) = None" using False i by (simp add: st_value_def store_view)
    from inserted_new [OF inv i this] show ?thesis
      using update_items [OF ok, of "c_key cl" "\<lparr>ke_value = create s (c_now cl), ke_lastSeen = c_now cl\<rparr>"] False None
      by (simp add: insert_key_def Let_def)
  next
    case (Some entry)
    let ?sh = "(shards s ! i)\<lparr>items := AList.update (c_key cl) (entry\<lparr>ke_lastSeen := c_now cl\<rparr>) (items (shards s ! i))\<rparr>"
    have v: "st_value s (c_key cl) = Some (ke_value entry)" "shard_ok (isLRU s) ?sh"
      "map_of (entries (isLRU s) ?sh) = (map_of (entries (isLRU s) (shards s ! i)))(c_key cl \<mapsto> (ke_value entry, c_now cl))"
      using touch_found(2) [OF inv i False Some, of "c_now cl"] False by simp_all
    then show ?thesis using inserted_back [OF inv i v] False Some by (simp add: insert_key_def Let_def)
  qed
qed

subsection \<open>Every step keeps the invariant\<close>

lemma moved_log: "moved t p s c c' \<Longrightarrow> moved t p s c (c'\<lparr>cs_log := L\<rparr>)"
  by (simp add: moved_def)

lemma moved_stay:
  assumes "cinv c" "cs_pc c t = Some (cl, l)"
    and "holds (cs_store c) cl l' = holds (cs_store c) cl l" "sweeping l' = sweeping l"
  shows "moved t (Some (cl, l')) s c (goto t cl l' (put_store s c))"
  using assms cinvD(3) [OF assms(1), of _ t] cinvD(4) [OF assms(1), of t]
  by (simp add: moved_def goto_def put_store_def pc_holds_def pc_sweeps_def)

lemma moved_acquire:
  assumes "cinv c" "cs_pc c t = Some (cl, l)" "acquire i t c = Some c1"
    and "holds (cs_store c) cl l = None" "holds (cs_store c) cl l' = Some i" "sweeping l' = sweeping l"
  shows "moved t (Some (cl, l')) s c (goto t cl l' (put_store s c1))"
  using assms cinvD(4) [OF assms(1), of t]
  by (auto simp: moved_def goto_def put_store_def acquire_def pc_holds_def pc_sweeps_def split: if_splits)

lemma moved_release:
  assumes "cinv c" "cs_pc c t = Some (cl, l)"
    and "holds (cs_store c) cl l = Some i" "holds (cs_store c) cl l' = None" "sweeping l' = sweeping l"
  shows "moved t (Some (cl, l')) s c (goto t cl l' (release i (put_store s c)))"
  using assms cinvD(4) [OF assms(1), of t]
  by (auto simp: moved_def goto_def put_store_def release_def pc_holds_def pc_sweeps_def)

lemma put_store_sweep: "put_store s (c\<lparr>cs_sweep := x\<rparr>) = (put_store s c)\<lparr>cs_sweep := x\<rparr>"
  by (cases c) (simp add: put_store_def)

lemma put_store_same [simp]: "put_store (cs_store c) c = c"
  by (simp add: put_store_def)

lemma goto_add_log: "goto t cl l (add_log cl ret c) = (goto t cl l c)\<lparr>cs_log := cs_log c @ [(c_key cl, c_now cl, ret)]\<rparr>"
  by (simp add: goto_def add_log_def)

lemma acquire_simps:
  "acquire i t c = Some c1 \<Longrightarrow> cs_store c1 = cs_store c" "acquire i t c = Some c1 \<Longrightarrow> cs_lock c i = None"
  by (auto simp: acquire_def split: if_splits)

text \<open>
  The three kinds of steps, with the invariant after them: work under the same locks, taking a
  shard's mutex (and working on that shard), giving a mutex back.
\<close>

lemma cinv_stay:
  assumes inv: "cinv c" and pc: "cs_pc c t = Some (cl, l)"
    and h: "holds (cs_store c) cl l' = holds (cs_store c) cl l" "sweeping l' = sweeping l"
    and o: "only_shard (holds (cs_store c) cl l) (cs_store c) s"
    and st: "store_inv (int (card (reserved c)) + pc_slots (Some (cl, l')) - pc_slots (Some (cl, l))) s"
    and lp: "local_ok s cl l'"
  shows "cinv (goto t cl l' (put_store s c))" "cinv (goto t cl l' (add_log cl ret (put_store s c)))"
proof -
  note m = moved_stay [OF inv pc h, of s]
  note go = cinv_moved [OF inv _ o, of t "Some (cl, l')"]
  show "cinv (goto t cl l' (put_store s c))" using st lp pc by (intro go [OF m]) (auto simp: pc_holds_def)
  show "cinv (goto t cl l' (add_log cl ret (put_store s c)))"
    unfolding goto_add_log using st lp pc by (intro go [OF moved_log [OF m]]) (auto simp: pc_holds_def)
qed

lemma cinv_acquire:
  assumes inv: "cinv c" and pc: "cs_pc c t = Some (cl, l)" and a: "acquire i t c = Some c1"
    and h: "holds (cs_store c) cl l = None" "holds (cs_store c) cl l' = Some i" "sweeping l' = sweeping l"
    and o: "only_shard (Some i) (cs_store c) s"
    and st: "store_inv (int (card (reserved c)) + pc_slots (Some (cl, l')) - pc_slots (Some (cl, l))) s"
    and lp: "local_ok s cl l'"
  shows "cinv (goto t cl l' (put_store s c1))"
  using st lp pc acquire_simps(2) [OF a]
  by (intro cinv_moved [OF inv moved_acquire [OF inv pc a h, of s] o]) auto

lemma cinv_release:
  assumes inv: "cinv c" and pc: "cs_pc c t = Some (cl, l)"
    and h: "holds (cs_store c) cl l = Some i" "holds (cs_store c) cl l' = None" "sweeping l' = sweeping l"
    and o: "only_shard (Some i) (cs_store c) s"
    and st: "store_inv (int (card (reserved c)) + pc_slots (Some (cl, l')) - pc_slots (Some (cl, l))) s"
    and lp: "local_ok s cl l'"
  shows "cinv (goto t cl l' (release i (put_store s c)))"
  using st lp pc h by (intro cinv_moved [OF inv moved_release [OF inv pc h, of s] o]) (auto simp: pc_holds_def)

lemma pc_slots_simps [simp]:
  "pc_slots (Some (cl, Insert)) = 1" "pc_slots None = 0"
  "l \<noteq> Insert \<Longrightarrow> pc_slots (Some (cl, l)) = 0"
  by (auto simp: pc_slots_Insert)

lemma cinv_go:
  assumes inv: "cinv c" and pc: "cs_pc c t = Some (cl, l)"
    and h: "holds (cs_store c) cl l' = holds (cs_store c) cl l" "sweeping l' = sweeping l" "l \<noteq> Insert" "l' \<noteq> Insert"
    and lp: "local_ok (cs_store c) cl l'"
  shows "cinv (goto t cl l' c)" "cinv (goto t cl l' (add_log cl ret c))"
  using cinv_stay [OF inv pc h(1,2), of "cs_store c"] cinvD(2) [OF inv] h(3,4) lp by simp_all

lemma cinv_take:
  assumes inv: "cinv c" and pc: "cs_pc c t = Some (cl, l)" and a: "acquire i t c = Some c1"
    and h: "holds (cs_store c) cl l = None" "holds (cs_store c) cl l' = Some i" "sweeping l' = sweeping l" "l' \<noteq> Insert"
    and lp: "local_ok (cs_store c) cl l'"
  shows "cinv (goto t cl l' c1)"
proof -
  have "l \<noteq> Insert" using h(1) by auto
  then show ?thesis
    using cinv_acquire [OF inv pc a h(1-3), of "cs_store c"] cinvD(2) [OF inv] h(4) lp acquire_simps(1) [OF a]
    by (metis add.right_neutral diff_zero only_shard_simps(1) pc_slots_simps(3) put_store_same)
qed

lemma cinv_drop:
  assumes inv: "cinv c" and pc: "cs_pc c t = Some (cl, l)"
    and h: "holds (cs_store c) cl l = Some i" "holds (cs_store c) cl l' = None" "sweeping l' = sweeping l" "l \<noteq> Insert"
    and lp: "local_ok (cs_store c) cl l'"
  shows "cinv (goto t cl l' (release i c))"
proof -
  have "l' \<noteq> Insert" using h(2) by auto
  then show ?thesis using cinv_release [OF inv pc h(1-3), of "cs_store c"] cinvD(2) [OF inv] h(4) lp by simp
qed

text \<open>\<open>sweepMu\<close> is taken and given back while no shard's mutex is held.\<close>

lemma cinv_sweep:
  assumes inv: "cinv c" and pc: "cs_pc c t = Some (cl, l)"
    and h: "holds (cs_store c) cl l = None" "holds (cs_store c) cl l' = None" "sweeping l' \<noteq> sweeping l"
    and sw: "sweeping l' \<Longrightarrow> cs_sweep c = None"
    and o: "only_shard None (cs_store c) s" and st: "store_inv (int (card (reserved c))) s" and lp: "local_ok s cl l'"
  shows "cinv (goto t cl l' ((put_store s c)\<lparr>cs_sweep := (if sweeping l' then Some t else None)\<rparr>))"
proof -
  have "moved t (Some (cl, l')) s c (goto t cl l' ((put_store s c)\<lparr>cs_sweep := (if sweeping l' then Some t else None)\<rparr>))"
    using pc h sw by (auto simp: moved_def goto_def put_store_def pc_holds_def pc_sweeps_def)
  moreover have "l \<noteq> Insert" "l' \<noteq> Insert" using h by auto
  ultimately show ?thesis using st lp pc by (intro cinv_moved [OF inv _ o]) auto
qed

lemma cinv_unlock:
  assumes inv: "cinv c" and pc: "cs_pc c t = Some (cl, Unlock ret)"
  shows "cinv ((release (own c cl) c)\<lparr>cs_pc := (cs_pc c)(t := None)\<rparr>)"
proof (rule cinv_moved [OF inv, where p = None and t = t and s = "cs_store c" and h = None])
  show "moved t None (cs_store c) c ((release (own c cl) c)\<lparr>cs_pc := (cs_pc c)(t := None)\<rparr>)"
    using pc by (simp add: moved_def release_def own_def pc_holds_def pc_sweeps_def)
qed (use pc cinvD(2) [OF inv] in simp_all)

lemma run_ok:
  assumes inv: "store_inv r s" and v: "st_value s key = Some v" and i: "i = shardFor s key"
  shows "store_inv r (setShard s i (setValue (isLRU s) key v' (shards s ! i)))"
    "st_value (setShard s i (setValue (isLRU s) key v' (shards s ! i))) = (st_value s)(key \<mapsto> v')"
proof -
  obtain t where l: "st_lookup s key = Some (v, t)" using v by (auto simp: st_value_def)
  have "shard_ok (isLRU s) (shards s ! i)"
    unfolding i using inv by (rule store_inv_shard_ok) (rule store_inv_shardFor [OF inv])
  moreover have "map_of (entries (isLRU s) (shards s ! i)) key = Some (v, t)" using l i by (simp add: st_lookup_def)
  ultimately have sv: "shard_ok (isLRU s) (setValue (isLRU s) key v' (shards s ! i))"
    "map_of (entries (isLRU s) (setValue (isLRU s) key v' (shards s ! i)))
       = (map_of (entries (isLRU s) (shards s ! i)))(key \<mapsto> (v', t))"
    by (rule setValue_ok)+
  note p = put_shard [OF inv i sv]
  show "store_inv r (setShard s i (setValue (isLRU s) key v' (shards s ! i)))" using p(1) l by simp
  show "st_value (setShard s i (setValue (isLRU s) key v' (shards s ! i))) = (st_value s)(key \<mapsto> v')"
    using p(2) by (simp add: st_value_def fun_eq_iff)
qed

lemma step_cinv_withState:
  assumes inv: "cinv c" and pc: "cs_pc c t = Some (cl, l)" and s: "step fn t cl l c = Some c'"
    and l: "l \<in> {Lock, Enter, Insert} \<or> (\<exists>vs v. l = CleanHit vs v) \<or> (\<exists>vs. l = CleanMiss vs)
      \<or> (\<exists>v. l = Run v) \<or> (\<exists>ret. l = Unlock ret)"
  shows "cinv c'"
proof -
  note st = cinvD(2) [OF inv] and lo = cinvD(5) [OF inv pc]
  have il: "own c cl < length (shards (cs_store c))" unfolding own_def using st by (rule store_inv_shardFor)
  from l consider "l = Lock" | "l = Enter" | "l = Insert" | v where "l = CleanHit [] v" | x xs v where "l = CleanHit (x # xs) v"
    | "l = CleanMiss []" | x xs where "l = CleanMiss (x # xs)" | v where "l = Run v" | ret where "l = Unlock ret"
    by (metis insert_iff neq_Nil_conv singletonD)
  then show ?thesis
  proof cases
    case 1
    then show ?thesis using s cinv_take [OF inv pc, of "own c cl" _ Enter] by (auto simp: own_def)
  next
    case 2
    obtain s' l' where e: "enter cl (own c cl) (cs_store c) = Some (s', l')" "entered (int (card (reserved c))) cl (own c cl) (cs_store c) s' l'"
      using enter_ok [OF st, of "own c cl" cl] by (auto simp: own_def)
    then have "holds (cs_store c) cl l' = Some (own c cl) \<and> \<not> sweeping l' \<and> l' \<noteq> Insert" by (auto simp: entered_def own_def)
    then show ?thesis
      using s e 2 cinv_stay(1) [OF inv pc, of l' s'] by (auto simp: entered_def own_def)
  next
    case 3
    obtain s' l' where e: "insert_key cl (own c cl) (cs_store c) = Some (s', l')" "inserted (int (card (reserved c))) cl (own c cl) (cs_store c) s' l'"
      using insert_key_ok [OF st, of "own c cl" cl] by (auto simp: own_def)
    then obtain v where v: "l' = Run v" "local_ok s' cl (Run v)" "store_inv (int (card (reserved c)) - 1) s'"
      "only_shard (Some (own c cl)) (cs_store c) s'" by (auto simp: inserted_def)
    then show ?thesis
      using s e(1) 3 cinv_stay(1) [OF inv pc, of l' s'] by (auto simp: own_def)
  next
    case 4
    then show ?thesis using s lo cinv_go(1) [OF inv pc, of "Run v"] by simp
  next
    case 5
    note d = delete_one_ok [OF st il, of x xs]
    have "victims_ok (cs_store c) (own c cl) (x # xs)" "spares (c_key cl) (x # xs)" "st_value (cs_store c) (c_key cl) = Some v"
      using lo 5 by (simp_all add: own_def)
    then have "local_ok (delete_one (own c cl) x (cs_store c)) cl (CleanHit xs v)"
      using d(2) d(3) [of "c_key cl" v] by (simp add: own_def spares_def)
    then show ?thesis
      using s 5 d(1) lo cinv_stay(1) [OF inv pc, of "CleanHit xs v" "delete_one (own c cl) x (cs_store c)"] by (simp add: own_def)
  next
    case 6
    show ?thesis
    proof (cases "maxKeys (st_opts (cs_store c)) \<le> 0")
      case True
      then have "store_inv (int (card (reserved c)) + 1) (cs_store c\<lparr>live := live (cs_store c) + 1\<rparr>)"
        by (intro store_inv_live [OF st]) simp
      then show ?thesis
        using s 6 True cinv_stay(1) [OF inv pc, of Insert "cs_store c\<lparr>live := live (cs_store c) + 1\<rparr>"] by (simp add: Let_def)
    next
      case False
      then show ?thesis using s 6 cinv_go(1) [OF inv pc, of "Load False"] by simp
    qed
  next
    case 7
    note d = delete_one_ok [OF st il, of x xs]
    have "victims_ok (cs_store c) (own c cl) (x # xs)" using lo 7 by (simp add: own_def)
    then have "local_ok (delete_one (own c cl) x (cs_store c)) cl (CleanMiss xs)"
      using d(2) by (simp add: own_def)
    then show ?thesis
      using s 7 d(1) lo cinv_stay(1) [OF inv pc, of "CleanMiss xs" "delete_one (own c cl) x (cs_store c)"] by (simp add: own_def)
  next
    case 8
    have v: "st_value (cs_store c) (c_key cl) = Some v" using lo 8 by simp
    note r = run_ok(1) [OF st v refl]
    show ?thesis
      using s 8 r cinv_stay(2) [OF inv pc, of "Unlock (snd (fn v (c_now cl)))" _ "snd (fn v (c_now cl))"]
      by (auto simp: own_def case_prod_beta Let_def)
  next
    case 9
    then show ?thesis using s cinv_unlock [OF inv, of t cl ret] pc by auto
  qed
qed

lemma evict_cases:
  assumes "store_inv r s" "i < length (shards s)" "isLRU s"
  shows "store_inv r (fst (evictFrom s i))"
  using assms evictFrom_ok [OF assms] evictFrom_empty [of s i] by (cases "order (shards s ! i) = []") auto

lemma step_cinv_reserveSlot:
  assumes inv: "cinv c" and pc: "cs_pc c t = Some (cl, l)" and s: "step fn t cl l c = Some c'"
    and l: "l \<in> {Check, Relock} \<or> (\<exists>b. l = Load b) \<or> (\<exists>b n. l = Cas b n) \<or> (\<exists>b. l = Full b)
      \<or> (\<exists>js. l = EvictNext js) \<or> (\<exists>j js. l = EvictAt j js)"
  shows "cinv c'"
proof -
  let ?s = "cs_store c" and ?i = "own c cl"
  note st = cinvD(2) [OF inv] and lo = cinvD(5) [OF inv pc]
  have il: "?i < length (shards ?s)" unfolding own_def using st by (rule store_inv_shardFor)
  from l consider "l = Check" | "l = Relock" | b where "l = Load b" | b n where "l = Cas b n" | b where "l = Full b"
    | "l = EvictNext []" | j js where "l = EvictNext (j # js)" | j js where "l = EvictAt j js"
    by (metis insert_iff neq_Nil_conv singletonD)
  then show ?thesis
  proof cases
    case 1
    then show ?thesis
      using s lo cinv_go(1) [OF inv pc, of Relock] cinv_go(1) [OF inv pc, of "EvictNext [0..<length (shards ?s)]"]
      by (auto simp: Let_def lessThan_atLeast0 split: if_splits)
  next
    case 2
    then show ?thesis using s lo cinv_take [OF inv pc, of ?i _ "Load True"] by (auto simp: own_def)
  next
    case 3
    then show ?thesis
      using s lo cinv_go(1) [OF inv pc, of "Cas b (live ?s)"] cinv_go(1) [OF inv pc, of "Full b"]
      by (auto simp: Let_def split: if_splits)
  next
    case 4
    show ?thesis
    proof (cases "live ?s = n")
      case True
      then have "store_inv (int (card (reserved c)) + 1) (?s\<lparr>live := live ?s + 1\<rparr>)"
        using lo 4 by (intro store_inv_live [OF st]) simp
      then show ?thesis using s 4 True cinv_stay(1) [OF inv pc, of Insert "?s\<lparr>live := n + 1\<rparr>"] by simp
    next
      case False
      then show ?thesis using s 4 lo cinv_go(1) [OF inv pc, of "Load b"] by simp
    qed
  next
    case 5
    have lo5: "0 < maxKeys (st_opts ?s)" using lo 5 by simp
    consider "isLRU ?s" "snd (evictFrom ?s ?i)" | "isLRU ?s" "\<not> snd (evictFrom ?s ?i)" | "\<not> isLRU ?s" "\<not> b" | "\<not> isLRU ?s" "b"
      by blast
    then show ?thesis
    proof cases
      case 1
      then have "c' = goto t cl (Load b) (put_store (fst (evictFrom ?s ?i)) c)"
        using s 5 by (simp add: Let_def case_prod_beta)
      moreover have "local_ok (fst (evictFrom ?s ?i)) cl (Load b)"
        using lo5 by simp
      ultimately show ?thesis
        using cinv_stay(1) [OF inv pc, of "Load b" "fst (evictFrom ?s ?i)"] evict_cases [OF st il 1(1)] 5 by (simp add: own_def)
    next
      case 2
      then have "c' = goto t cl (if b then Check else SweepLock) (release ?i c)" using s 5 by (simp add: Let_def case_prod_beta)
      then show ?thesis using cinv_drop [OF inv pc, of ?i "if b then Check else SweepLock"] 5 lo5 2 by (auto simp: own_def)
    next
      case 3
      then show ?thesis using s 5 lo5 cinv_drop [OF inv pc, of ?i SweepLock] by (simp add: Let_def own_def)
    next
      case 4
      then show ?thesis using s 5 cinv_go(2) [OF inv pc, of "Unlock (zero_Result, Some ErrMaxKeysExceeded)"] by (auto simp: Let_def)
    qed
  next
    case 6
    then show ?thesis using s lo cinv_go(1) [OF inv pc, of Relock] by simp
  next
    case 7
    show ?thesis
    proof (cases "j = ?i")
      case True
      then show ?thesis using s 7 lo cinv_go(1) [OF inv pc, of "EvictNext js"] by simp
    next
      case False
      then show ?thesis using s 7 lo cinv_take [OF inv pc, of j _ "EvictAt j js"] by auto
    qed
  next
    case 8
    let ?e = "fst (evictFrom ?s j)" and ?l = "if snd (evictFrom ?s j) then Relock else EvictNext js"
    have c': "c' = goto t cl ?l (release j (put_store ?e c))" using s 8 by (simp add: case_prod_beta)
    have lo8: "0 < maxKeys (st_opts ?s)" "isLRU ?s" "j < length (shards ?s)" "set js \<subseteq> {..<length (shards ?s)}"
      using lo 8 by simp_all
    have "local_ok ?e cl ?l" using lo8 by simp
    then show ?thesis
      unfolding c' using cinv_release [OF inv pc, of j ?l ?e] evict_cases [OF st lo8(3,2)] 8 by simp
  qed
qed

lemma step_cinv_sweepExpired:
  assumes inv: "cinv c" and pc: "cs_pc c t = Some (cl, l)" and s: "step fn t cl l c = Some c'"
    and l: "l = SweepLock \<or> (\<exists>js. l = SweepNext js) \<or> (\<exists>j vs js. l = SweepClean j vs js)"
  shows "cinv c'"
proof -
  let ?s = "cs_store c" and ?done = "if isLRU (cs_store c) then Check else Relock"
  note st = cinvD(2) [OF inv] and lo = cinvD(5) [OF inv pc]
  from l consider "l = SweepLock" | "l = SweepNext []" | j js where "l = SweepNext (j # js)"
    | j js where "l = SweepClean j [] js" | j x xs js where "l = SweepClean j (x # xs) js"
    by (metis neq_Nil_conv)
  then show ?thesis
  proof cases
    case 1
    let ?off = "keyTTL (st_opts ?s) \<le> 0 \<or> cleanupInterval (st_opts ?s) \<le> 0"
    let ?early = "Sub (c_now cl) (lastSweep ?s) < cleanupInterval (st_opts ?s)"
    consider "?off" | "\<not> ?off" "cs_sweep c = None" "?early" | "\<not> ?off" "cs_sweep c = None" "\<not> ?early"
      using s 1 by (auto simp: Let_def split: if_splits)
    then show ?thesis
    proof cases
      case off: 1
      then have "c' = goto t cl ?done c" using s 1 by (auto simp: Let_def)
      then show ?thesis using cinv_go(1) [OF inv pc, of ?done] 1 lo by simp
    next
      case 2
      then have "c' = goto t cl (SweepNext []) ((put_store ?s c)\<lparr>cs_sweep := Some t\<rparr>)" using s 1 by (simp add: Let_def)
      then show ?thesis using cinv_sweep [OF inv pc, of "SweepNext []" ?s] 1 2 lo st by simp
    next
      case 3
      let ?s1 = "?s\<lparr>lastSweep := c_now cl\<rparr>" and ?l = "SweepNext [0..<length (shards ?s)]"
      have "c' = goto t cl ?l ((put_store ?s1 c)\<lparr>cs_sweep := Some t\<rparr>)" using s 1 3 by (simp add: Let_def put_store_sweep)
      then show ?thesis using cinv_sweep [OF inv pc, of ?l ?s1] 1 3 lo st by (simp add: lessThan_atLeast0)
    qed
  next
    case 2
    then have "c' = goto t cl ?done ((put_store ?s c)\<lparr>cs_sweep := None\<rparr>)" using s by simp
    then show ?thesis using cinv_sweep [OF inv pc, of ?done ?s] 2 lo st by simp
  next
    case 3
    have lo3: "0 < maxKeys (st_opts ?s)" "j < length (shards ?s)" "set js \<subseteq> {..<length (shards ?s)}" using lo 3 by auto
    let ?b = "begin_cleanup (c_iter cl) ?s j (c_now cl)"
    obtain c1 where a: "acquire j t c = Some c1" and c': "c' = goto t cl (SweepClean j (snd ?b) js) (put_store (fst ?b) c1)"
      using s 3 by (auto simp: case_prod_beta acquire_simps(1))
    note b = begin_cleanup_ok [OF st lo3(2), of "c_iter cl" "c_now cl"]
    have "local_ok (fst ?b) cl (SweepClean j (snd ?b) js)" using b(3) lo3 by simp
    then show ?thesis
      unfolding c' using cinv_acquire [OF inv pc a, of "SweepClean j (snd ?b) js" "fst ?b"] b(1) 3 by simp
  next
    case 4
    then show ?thesis using s lo cinv_drop [OF inv pc, of j "SweepNext js"] by simp
  next
    case 5
    have lo5: "0 < maxKeys (st_opts ?s)" "j < length (shards ?s)" "set js \<subseteq> {..<length (shards ?s)}"
      "victims_ok ?s j (x # xs)" using lo 5 by simp_all
    note d = delete_one_ok [OF st lo5(2,4)]
    have "local_ok (delete_one j x ?s) cl (SweepClean j xs js)" using lo5 d(2) by simp
    then show ?thesis
      using s 5 d(1) cinv_stay(1) [OF inv pc, of "SweepClean j xs js" "delete_one j x ?s"] by simp
  qed
qed

lemma step_cinv:
  assumes "cinv c" "thread_step fn t c = Some c'"
  shows "cinv c'"
proof -
  obtain cl l where pc: "cs_pc c t = Some (cl, l)" and s: "step fn t cl l c = Some c'"
    using assms(2) by (auto simp: thread_step_def split: option.splits)
  show ?thesis
    using step_cinv_withState [OF assms(1) pc s] step_cinv_reserveSlot [OF assms(1) pc s]
      step_cinv_sweepExpired [OF assms(1) pc s]
    by (cases l) auto
qed

lemma reachable_cinv:
  assumes "conc_reachable fn s0 c" "store_inv 0 s0"
  shows "cinv c"
  using assms(1)
proof (induction rule: conc_reachable.induct)
  case conc_init
  have "reserved (quiet_conc s0) = {}" by (simp add: reserved_def quiet_conc_def)
  then show ?case using assms(2) by (intro cinvI) (simp_all add: quiet_conc_def pc_holds_def pc_sweeps_def)
next
  case (conc_next c c')
  from conc_next(2) show ?case
    using cinv_begin [OF conc_next(3)] step_cinv [OF conc_next(3)] by cases blast+
qed

subsection \<open>The configuration stays\<close>

lemma enter_config: "enter cl i s = Some (s', l) \<Longrightarrow> st_opts s' = st_opts s \<and> create s' = create s"
  by (auto simp: enter_def Let_def begin_cleanup_def split: if_splits option.splits)

lemma insert_config: "insert_key cl i s = Some (s', l) \<Longrightarrow> st_opts s' = st_opts s \<and> create s' = create s"
  by (auto simp: insert_key_def Let_def split: if_splits option.splits)

lemma step_config:
  assumes "thread_step fn t c = Some c'"
  shows "st_opts (cs_store c') = st_opts (cs_store c) \<and> create (cs_store c') = create (cs_store c)"
proof -
  obtain cl l where s: "step fn t cl l c = Some c'"
    using assms by (auto simp: thread_step_def split: option.splits)
  have e: "create (fst (evictFrom s i)) = create s" "create (delete_one i x s) = create s"
    "create (fst (begin_cleanup iter s i now)) = create s" for s :: "'a shardedStore" and i x iter now
    using only_shard_evict [of i s] only_shard_delete [of i s x] only_shard_begin [of i s iter now]
    by (simp_all add: only_shard_def)
  note defs = goto_def put_store_def release_def add_log_def acquire_def Let_def case_prod_beta
  show ?thesis
  proof (cases "l = Enter \<or> l = Insert")
    case True
    then show ?thesis
      using s enter_config [of cl "own c cl" "cs_store c"] insert_config [of cl "own c cl" "cs_store c"]
      by (auto simp: goto_def put_store_def)
  next
    case False
    show ?thesis
      using s False by (cases "(fn, t, cl, l, c)" rule: step.cases) (auto simp: defs e split: if_splits)
  qed
qed

lemma reachable_config:
  assumes "conc_reachable fn s0 c"
  shows "st_opts (cs_store c) = st_opts s0 \<and> create (cs_store c) = create s0"
  using assms
proof (induction rule: conc_reachable.induct)
  case conc_init
  show ?case by (simp add: quiet_conc_def)
next
  case (conc_next c c')
  from conc_next(2) show ?case using conc_next(3) step_config [of fn _ c c'] by cases (auto simp: goto_def)
qed

subsection \<open>No deadlock\<close>

text \<open>
  Whoever holds a shard's mutex can go on, because nobody asks for a second one; whoever holds
  \<open>sweepMu\<close> waits at most for a shard's mutex.
\<close>

lemma holder_moves:
  assumes inv: "cinv c" and pc: "cs_pc c t = Some (cl, l)" and h: "holds (cs_store c) cl l = Some i"
  shows "\<exists>c'. thread_step fn t c = Some c'"
proof -
  note st = cinvD(2) [OF inv]
  have "\<exists>c'. step fn t cl l c = Some c'"
  proof (cases "l = Enter \<or> l = Insert")
    case True
    then show ?thesis
      using enter_ok [OF st, of "own c cl" cl] insert_key_ok [OF st, of "own c cl" cl] by (auto simp: own_def)
  next
    case False
    then show ?thesis
      using h by (cases "(fn, t, cl, l, c)" rule: step.cases) (auto simp: Let_def case_prod_beta)
  qed
  then show ?thesis using pc by (simp add: thread_step_def)
qed

lemma waiter_waits:
  assumes pc: "cs_pc c t = Some (cl, l)" and h: "holds (cs_store c) cl l = None"
  shows "(\<exists>c'. thread_step fn t c = Some c') \<or> (\<exists>i u. cs_lock c i = Some u) \<or> \<not> sweeping l \<and> (\<exists>u. cs_sweep c = Some u)"
proof -
  have "(\<exists>c'. step fn t cl l c = Some c') \<or> (\<exists>i u. cs_lock c i = Some u) \<or> \<not> sweeping l \<and> (\<exists>u. cs_sweep c = Some u)"
    using h by (cases "(fn, t, cl, l, c)" rule: step.cases) (auto simp: acquire_def Let_def case_prod_beta)
  then show ?thesis using pc by (simp add: thread_step_def)
qed

lemma lock_held_moves:
  assumes inv: "cinv c" and "cs_lock c i = Some u"
  shows "\<exists>t c'. thread_step fn t c = Some c'"
proof -
  have "pc_holds (cs_store c) (cs_pc c u) = Some i" using cinvD(3) [OF inv] assms(2) by simp
  then obtain cl l where "cs_pc c u = Some (cl, l)" "holds (cs_store c) cl l = Some i"
    by (auto simp: pc_holds_def split: option.splits)
  then show ?thesis using holder_moves [OF inv] by blast
qed

lemma conc_progress:
  assumes inv: "cinv c" and "cs_pc c t \<noteq> None"
  shows "\<exists>u c'. thread_step fn u c = Some c'"
proof (cases "\<exists>i u. cs_lock c i = Some u")
  case True
  then show ?thesis using lock_held_moves [OF inv] by blast
next
  case False
  have free: "holds (cs_store c) cl l = None" if "cs_pc c u = Some (cl, l)" for u cl l
    using False cinvD(3) [OF inv, of _ u] that by (cases "holds (cs_store c) cl l") (auto simp: pc_holds_def)
  obtain cl l where pc: "cs_pc c t = Some (cl, l)" using assms(2) by auto
  from waiter_waits [OF pc free [OF pc], of fn] False consider "\<exists>c'. thread_step fn t c = Some c'" | u where "cs_sweep c = Some u" by blast
  then show ?thesis
  proof cases
    case 2
    then obtain cl' l' where u: "cs_pc c u = Some (cl', l')" "sweeping l'"
      using cinvD(4) [OF inv, of u] by (auto simp: pc_sweeps_def split: option.splits)
    then show ?thesis using waiter_waits [OF u(1) free [OF u(1)], of fn] False by blast
  qed blast
qed

subsection \<open>Calls take effect one after the other\<close>

text \<open>
  The decisions for one key so far, with the clock readings they were made with.
\<close>

definition log_for :: "string \<Rightarrow> (string \<times> time \<times> go_return) list \<Rightarrow> (time \<times> go_return) list" where
  "log_for key es = map snd (filter (\<lambda>(k, _). k = key) es)"

lemma log_for_append: "log_for key (es @ [(k, t, ret)]) = log_for key es @ (if k = key then [(t, ret)] else [])"
  by (simp add: log_for_def)

lemma alone_snoc:
  "alone fn fr vo (ts @ [t]) = alone fn fr vo ts @ [snd (fn (case state_after fn fr vo ts of Some v \<Rightarrow> v | None \<Rightarrow> fr t) t)]"
  by (induction ts arbitrary: vo) (simp_all add: case_prod_beta Let_def)

lemma state_after_snoc:
  "state_after fn fr vo (ts @ [t]) = Some (fst (fn (case state_after fn fr vo ts of Some v \<Rightarrow> v | None \<Rightarrow> fr t) t))"
  by (induction ts arbitrary: vo) simp_all

lemma state_after_None: "state_after fn fr vo ts = None \<Longrightarrow> ts = [] \<and> vo = None"
proof (cases ts rule: rev_cases)
  case (snoc ys y)
  then show "state_after fn fr vo ts = None \<Longrightarrow> ts = [] \<and> vo = None" by (simp add: state_after_snoc)
qed simp

text \<open>
  The invariant for a store without key limit and TTL: a key's state is what the decisions so far
  made of it, or it was just created by a goroutine that has not run its callback yet.
\<close>

definition in_order :: "'v callback \<Rightarrow> (time \<Rightarrow> 'v) \<Rightarrow> 'v option \<Rightarrow> 'v conc \<Rightarrow> string \<Rightarrow> bool" where
  "in_order fn fr vo c key \<longleftrightarrow>
     (let ts = map fst (log_for key (cs_log c))
      in map snd (log_for key (cs_log c)) = alone fn fr vo ts
         \<and> (st_value (cs_store c) key = state_after fn fr vo ts
            \<or> ts = [] \<and> vo = None \<and> (\<exists>t cl. cs_pc c t = Some (cl, Run (fr (c_now cl))) \<and> c_key cl = key)))"

fun plain_loc :: "'v loc \<Rightarrow> bool" where
  "plain_loc (CleanHit vs v) \<longleftrightarrow> vs = []"
| "plain_loc (CleanMiss vs) \<longleftrightarrow> vs = []"
| "plain_loc l \<longleftrightarrow> (case l of Lock \<Rightarrow> True | Enter \<Rightarrow> True | Insert \<Rightarrow> True | Run v \<Rightarrow> True | Unlock ret \<Rightarrow> True | _ \<Rightarrow> False)"

lemma in_order_keep:
  assumes "in_order fn fr vo c key" "cs_pc c' = (cs_pc c)(t := p)" "log_for key (cs_log c') = log_for key (cs_log c)"
    and "st_value (cs_store c') key = st_value (cs_store c) key"
    and "\<And>cl v. cs_pc c t = Some (cl, Run v) \<Longrightarrow> c_key cl \<noteq> key"
  shows "in_order fn fr vo c' key"
proof -
  have "(\<exists>u cl. cs_pc c u = Some (cl, Run (fr (c_now cl))) \<and> c_key cl = key)
      \<Longrightarrow> (\<exists>u cl. cs_pc c' u = Some (cl, Run (fr (c_now cl))) \<and> c_key cl = key)"
    unfolding assms(2) using assms(5) by (metis fun_upd_other)
  then show ?thesis using assms(1,3,4) by (auto simp: in_order_def Let_def)
qed

lemma in_order_insert:
  assumes "in_order fn fr vo c key" "st_value (cs_store c) key = None"
    and "cs_pc c' = (cs_pc c)(t \<mapsto> (cl, Run (fr (c_now cl))))" "cs_log c' = cs_log c" "c_key cl = key"
  shows "in_order fn fr vo c' key"
proof -
  let ?ts = "map fst (log_for key (cs_log c))"
  have "cs_pc c' t = Some (cl, Run (fr (c_now cl)))" by (simp add: assms(3))
  moreover have "vo = None \<and> ?ts = []"
    using assms(1,2) state_after_None [of fn fr vo ?ts] by (auto simp: in_order_def Let_def)
  ultimately show ?thesis using assms(1,4,5) by (auto simp: in_order_def Let_def)
qed

lemma in_order_run:
  assumes o: "in_order fn fr vo c key" and inv: "cinv c" and pc: "cs_pc c t = Some (cl, Run v)" and k: "c_key cl = key"
    and log: "cs_log c' = cs_log c @ [(key, c_now cl, snd (fn v (c_now cl)))]"
    and val: "st_value (cs_store c') key = Some (fst (fn v (c_now cl)))"
  shows "in_order fn fr vo c' key"
proof -
  let ?ts = "map fst (log_for key (cs_log c))"
  have v: "st_value (cs_store c) key = Some v" using cinvD(5) [OF inv pc] k by simp
  have "(case state_after fn fr vo ?ts of Some v' \<Rightarrow> v' | None \<Rightarrow> fr (c_now cl)) = v"
  proof (cases "st_value (cs_store c) key = state_after fn fr vo ?ts")
    case True
    then show ?thesis using v by (cases "state_after fn fr vo ?ts") simp_all
  next
    case False
    then obtain u cl' where u: "?ts = []" "vo = None" "cs_pc c u = Some (cl', Run (fr (c_now cl')))" "c_key cl' = key"
      using o by (auto simp: in_order_def Let_def)
    have "cs_lock c (shardFor (cs_store c) key) = Some t" "cs_lock c (shardFor (cs_store c) key) = Some u"
      using cinvD(3) [OF inv] pc u k by (auto simp: pc_holds_def)
    then have "cl' = cl \<and> fr (c_now cl') = v" using pc u(3) by simp
    then show ?thesis using u(1,2) by auto
  qed
  then show ?thesis
    using o val by (simp add: in_order_def Let_def log log_for_append alone_snoc state_after_snoc)
qed

definition linear :: "'v callback \<Rightarrow> 'v shardedStore \<Rightarrow> 'v conc \<Rightarrow> bool" where
  "linear fn s0 c \<longleftrightarrow>
     (\<forall>t cl l. cs_pc c t = Some (cl, l) \<longrightarrow> plain_loc l)
     \<and> (\<forall>key. in_order fn (create s0) (st_value s0 key) c key)"

lemma linearD:
  assumes "linear fn s0 c"
  shows "cs_pc c t = Some (cl, l) \<Longrightarrow> plain_loc l" "in_order fn (create s0) (st_value s0 key) c key"
  using assms by (simp_all add: linear_def)

lemma linear_keep:
  assumes "linear fn s0 c" "cs_pc c' = (cs_pc c)(t := p)" "cs_log c' = cs_log c" "st_value (cs_store c') = st_value (cs_store c)"
    and "\<And>cl v. cs_pc c t \<noteq> Some (cl, Run v)" "\<And>cl l. p = Some (cl, l) \<Longrightarrow> plain_loc l"
  shows "linear fn s0 c'"
  unfolding linear_def
proof (intro conjI allI impI)
  fix u cl l
  assume "cs_pc c' u = Some (cl, l)"
  then show "plain_loc l" using assms(2,6) linearD(1) [OF assms(1), of u cl l] by (cases "u = t") auto
next
  fix key
  show "in_order fn (create s0) (st_value s0 key) c' key"
    by (rule in_order_keep [OF linearD(2) [OF assms(1)] assms(2)]) (simp_all add: assms(3-5))
qed

lemma linear_change:
  assumes "linear fn s0 c" "cs_pc c' = (cs_pc c)(t \<mapsto> (cl, l'))" "plain_loc l'"
    and "\<And>key. key \<noteq> c_key cl \<Longrightarrow> log_for key (cs_log c') = log_for key (cs_log c)"
    and "\<And>key. key \<noteq> c_key cl \<Longrightarrow> st_value (cs_store c') key = st_value (cs_store c) key"
    and "cs_pc c t = Some (cl, l)"
    and "in_order fn (create s0) (st_value s0 (c_key cl)) c' (c_key cl)"
  shows "linear fn s0 c'"
  unfolding linear_def
proof (intro conjI allI impI)
  fix u cl1 l1
  assume "cs_pc c' u = Some (cl1, l1)"
  then show "plain_loc l1" using assms(2,3) linearD(1) [OF assms(1), of u cl1 l1] by (cases "u = t") auto
next
  fix key
  show "in_order fn (create s0) (st_value s0 key) c' key"
  proof (cases "key = c_key cl")
    case False
    then show ?thesis
      using assms(4-6) by (intro in_order_keep [OF linearD(2) [OF assms(1)] assms(2)]) auto
  qed (simp add: assms(7))
qed

lemma plain_cases:
  assumes "plain_loc l"
  obtains "l = Lock" | "l = Enter" | v where "l = CleanHit [] v" | "l = CleanMiss []" | "l = Insert" | v where "l = Run v"
    | ret where "l = Unlock ret"
  using assms by (cases l) auto

lemma step_linear:
  assumes lin: "linear fn s0 c" and inv: "cinv c" and s: "thread_step fn t c = Some c'"
    and opts: "keeps_all_keys (st_opts (cs_store c))" and cr: "create (cs_store c) = create s0"
  shows "linear fn s0 c'"
proof -
  obtain cl l where pc: "cs_pc c t = Some (cl, l)" and st: "step fn t cl l c = Some c'"
    using s by (auto simp: thread_step_def split: option.splits)
  note si = cinvD(2) [OF inv]
  have ttl: "begin_cleanup iter s' i now = (s', [])" if "st_opts s' = st_opts (cs_store c)" for iter s' i now
    using opts that by (simp add: begin_cleanup_def keeps_all_keys_def Let_def)
  from linearD(1) [OF lin pc] show ?thesis
  proof (cases rule: plain_cases)
    case 1
    then obtain c1 where "acquire (own c cl) t c = Some c1" "c' = goto t cl Enter c1" using st by auto
    then show ?thesis
      using pc 1 by (intro linear_keep [OF lin, of c' t "Some (cl, Enter)"]) (auto simp: acquire_def goto_def split: if_splits)
  next
    case 2
    obtain s' l' where e: "enter cl (own c cl) (cs_store c) = Some (s', l')" "entered (int (card (reserved c))) cl (own c cl) (cs_store c) s' l'"
      using enter_ok [OF si, of "own c cl" cl] by (auto simp: own_def)
    have "plain_loc l'"
      using e(1) by (auto simp: enter_def ttl Let_def split: if_splits option.splits)
    then show ?thesis
      using pc st 2 e by (intro linear_keep [OF lin, of c' t "Some (cl, l')"]) (auto simp: goto_def put_store_def entered_def)
  next
    case (3 v)
    then show ?thesis
      using pc st by (intro linear_keep [OF lin, of c' t "Some (cl, Run v)"]) (auto simp: goto_def)
  next
    case 4
    have "st_value (s'\<lparr>live := n\<rparr>) = st_value s'" for s' :: "'a shardedStore" and n
      by (simp add: st_value_def st_lookup_def fun_eq_iff)
    then show ?thesis
      using pc st 4 opts
      by (intro linear_keep [OF lin, of c' t "Some (cl, Insert)"]) (auto simp: goto_def put_store_def keeps_all_keys_def Let_def)
  next
    case 5
    obtain s' l' where e: "insert_key cl (own c cl) (cs_store c) = Some (s', l')" "inserted (int (card (reserved c))) cl (own c cl) (cs_store c) s' l'"
      using insert_key_ok [OF si, of "own c cl" cl] by (auto simp: own_def)
    then obtain v where v: "l' = Run v" "v = (case st_value (cs_store c) (c_key cl) of Some v0 \<Rightarrow> v0 | None \<Rightarrow> create s0 (c_now cl))"
      "st_value s' = (st_value (cs_store c))(c_key cl \<mapsto> v)" unfolding inserted_def cr by blast
    have c': "c' = goto t cl (Run v) (put_store s' c)" using st 5 e(1) v(1) by simp
    show ?thesis
    proof (cases "st_value (cs_store c) (c_key cl)")
      case None
      then have v0: "v = create s0 (c_now cl)" using v(2) by simp
      have "in_order fn (create s0) (st_value s0 (c_key cl)) c' (c_key cl)"
        by (rule in_order_insert [OF linearD(2) [OF lin] None, of c' t cl]) (simp_all add: c' goto_def put_store_def v0)
      then show ?thesis
        using pc v(3) by (intro linear_change [OF lin, of c' t cl "Run v"]) (simp_all add: c' goto_def put_store_def)
    next
      case (Some v0)
      then have "st_value s' = st_value (cs_store c)" using v by (simp add: fun_upd_idem)
      then show ?thesis
        using pc 5 by (intro linear_keep [OF lin, of c' t "Some (cl, Run v)"]) (auto simp: c' goto_def put_store_def)
    qed
  next
    case (6 v)
    let ?out = "fn v (c_now cl)" and ?i = "shardFor (cs_store c) (c_key cl)"
    let ?s = "setShard (cs_store c) ?i (setValue (isLRU (cs_store c)) (c_key cl) (fst ?out) (shards (cs_store c) ! ?i))"
    have val: "st_value (cs_store c) (c_key cl) = Some v" using cinvD(5) [OF inv pc] 6 by simp
    note r = run_ok(2) [OF si val refl, of "fst ?out"]
    have c': "c' = goto t cl (Unlock (snd ?out)) (add_log cl (snd ?out) (put_store ?s c))"
      using st 6 by (simp add: Let_def case_prod_beta own_def)
    have "in_order fn (create s0) (st_value s0 (c_key cl)) c' (c_key cl)"
      using pc 6 r by (intro in_order_run [OF linearD(2) [OF lin] inv, of t cl v]) (simp_all add: c' goto_def put_store_def add_log_def)
    then show ?thesis
      using pc r by (intro linear_change [OF lin, of c' t cl "Unlock (snd ?out)"])
        (simp_all add: c' goto_def put_store_def add_log_def log_for_append)
  next
    case (7 ret)
    then show ?thesis
      using pc st by (intro linear_keep [OF lin, of c' t None]) (auto simp: release_def)
  qed
qed

lemma reachable_linear:
  assumes "conc_reachable fn s0 c" "store_inv 0 s0" "keeps_all_keys (st_opts s0)"
  shows "linear fn s0 c"
  using assms(1)
proof (induction rule: conc_reachable.induct)
  case conc_init
  show ?case by (simp add: linear_def in_order_def quiet_conc_def log_for_def)
next
  case (conc_next c c')
  from conc_next(2) show ?case
  proof cases
    case (begin_call t cl)
    then show ?thesis
      by (intro linear_keep [OF conc_next(3), of c' t "Some (cl, Lock)"]) (simp_all add: goto_def)
  next
    case (make_step t)
    then show ?thesis
      using step_linear [OF conc_next(3) reachable_cinv [OF conc_next(1) assms(2)]] reachable_config [OF conc_next(1)] assms(3)
      by simp
  qed
qed

subsection \<open>Properties\<close>

text \<open>
  Claim C6. The limit on the number of keys is exact under any interleaving of any number of
  goroutines: in every reachable state of a new store, the counter \<open>live\<close> is the number of keys
  in all shards plus the slots that goroutines have reserved and not yet used, and with a key
  limit that sum never exceeds it; and no two goroutines hold the mutex of the same shard.
\<close>

theorem concurrent_accounting:
  assumes "buildOptions opts = Inr o1" "newStateStore o1 cr onEv = Inr s0" "conc_reachable fn s0 c"
  shows "live (cs_store c) = key_count (cs_store c) + int (card (reserved c))
    \<and> (0 < maxKeys o1 \<longrightarrow> key_count (cs_store c) + int (card (reserved c)) \<le> maxKeys o1)
    \<and> (\<forall>t cl l t' cl' l' i. cs_pc c t = Some (cl, l) \<and> cs_pc c t' = Some (cl', l')
         \<and> holds (cs_store c) cl l = Some i \<and> holds (cs_store c) cl' l' = Some i \<longrightarrow> t = t')"
proof -
  have s0: "store_inv 0 s0" "st_opts s0 = o1"
    using newStateStore_inv [OF buildOptions_valid [OF assms(1)], where cr = cr and ev = onEv] assms(2) by auto
  have inv: "cinv c" using assms(3) s0(1) by (rule reachable_cinv)
  have "st_opts (cs_store c) = o1" using reachable_config [OF assms(3)] s0(2) by simp
  then have "live (cs_store c) = key_count (cs_store c) + int (card (reserved c))
    \<and> (0 < maxKeys o1 \<longrightarrow> key_count (cs_store c) + int (card (reserved c)) \<le> maxKeys o1)"
    using cinvD(2) [OF inv] unfolding store_inv_def by auto
  moreover have "t = t'" if "cs_pc c t = Some (cl, l)" "cs_pc c t' = Some (cl', l')"
      "holds (cs_store c) cl l = Some i" "holds (cs_store c) cl' l' = Some i" for t cl l t' cl' l' i
  proof -
    have "cs_lock c i = Some t" "cs_lock c i = Some t'" using cinvD(3) [OF inv] that by (simp_all add: pc_holds_def)
    then show ?thesis by simp
  qed
  ultimately show ?thesis by blast
qed

text \<open>
  Claim C8. The store cannot deadlock: whenever a goroutine is inside \<open>withState\<close>, in any state
  that a new store and any number of goroutines can reach, some goroutine can make its next step.
\<close>

theorem concurrent_no_deadlock:
  assumes "buildOptions opts = Inr o1" "newStateStore o1 cr onEv = Inr s0" "conc_reachable fn s0 c" "cs_pc c t \<noteq> None"
  shows "\<exists>u c'. thread_step fn u c = Some c'"
proof -
  have "store_inv 0 s0"
    using newStateStore_inv [OF buildOptions_valid [OF assms(1)], where cr = cr and ev = onEv] assms(2) by auto
  then show ?thesis using conc_progress [OF reachable_cinv [OF assms(3)] assms(4)] by blast
qed

text \<open>
  Claim C5. Calls for one key take effect one after the other. On a new store without key limit and
  TTL, however the goroutines interleave, the decisions for a key are those of the callback run by
  one goroutine alone, in the order of the critical sections, with the clock readings that the
  calls brought along.
\<close>

theorem concurrent_linearizable:
  assumes "buildOptions opts = Inr o1" "newStateStore o1 cr onEv = Inr s0" "conc_reachable fn s0 c" "keeps_all_keys o1"
  shows "map snd (log_for key (cs_log c)) = alone fn cr None (map fst (log_for key (cs_log c)))"
proof -
  have s0: "store_inv 0 s0" "st_opts s0 = o1" "create s0 = cr" "st_value s0 = Map.empty"
    using newStateStore_inv [OF buildOptions_valid [OF assms(1)], where cr = cr and ev = onEv] assms(2) by auto
  then have "linear fn s0 c" using assms(3,4) by (intro reachable_linear) simp_all
  then show ?thesis using linearD(2) [of fn s0 c key] s0 by (simp add: in_order_def Let_def)
qed

subsection \<open>A schedule\<close>

text \<open>A run of chosen goroutines: \<open>Some\<close> call starts it, \<open>None\<close> is the next step.\<close>

fun run_schedule :: "'v callback \<Rightarrow> (nat \<times> call option) list \<Rightarrow> 'v conc \<Rightarrow> 'v conc option" where
  "run_schedule fn [] c = Some c"
| "run_schedule fn ((t, Some cl) # sched) c =
     (if cs_pc c t = None then run_schedule fn sched (goto t cl Lock c) else None)"
| "run_schedule fn ((t, None) # sched) c =
     (case thread_step fn t c of None \<Rightarrow> None | Some c' \<Rightarrow> run_schedule fn sched c')"

lemma run_schedule_reachable:
  "run_schedule fn sched c = Some c' \<Longrightarrow> conc_reachable fn s0 c \<Longrightarrow> conc_reachable fn s0 c'"
  by (induction fn sched c rule: run_schedule.induct)
    (auto split: if_splits option.splits intro: conc_next begin_call make_step)

definition count_calls :: "nat callback" where
  "count_calls v now = (Suc v, (\<lparr>Allowed = True, Remaining = 0, RetryAfter = 0\<rparr>, None))"

definition call_at :: "string \<Rightarrow> time \<Rightarrow> call" where
  "call_at key now = \<lparr>c_key = key, c_now = now, c_iter = (\<lambda>ks. ks)\<rparr>"

text \<open>
  A store for one key with two shards. Goroutine 0 puts the key \<open>x\<close> in; much later goroutine 1
  comes with the key \<open>a\<close>, finds the store full, lets go of its lock and sweeps the expired \<open>x\<close>
  away; goroutine 2 takes the free slot for \<open>a\<close>; goroutine 1 takes its lock again, finds the store
  full and returns \<open>ErrMaxKeysExceeded\<close> without looking for its key, which is there.
\<close>

definition race_options :: "Option list" where
  "race_options = [WithMaxKeys 1, WithKeyTTL 10, WithCleanupInterval 5, WithShardCount 2]"

definition race_opts :: options where
  "race_opts = WithShardCount 2 (WithCleanupInterval 5 (WithKeyTTL 10 (WithMaxKeys 1 defaultOptions)))"

definition race_store :: "nat shardedStore" where
  "race_store = newShardedStore race_opts (\<lambda>_. 0) None"

definition race :: "(nat \<times> call option) list" where
  "race = (0, Some (call_at ''x'' 1)) # replicate 8 (0, None)
     @ (1, Some (call_at ''a'' 20)) # replicate 12 (1, None)
     @ (2, Some (call_at ''a'' 20)) # replicate 8 (2, None)
     @ replicate 3 (1, None)"

lemma race_built: "buildOptions race_options = Inr race_opts" "newStateStore race_opts (\<lambda>_. 0) None = Inr race_store"
proof -
  show b: "buildOptions race_options = Inr race_opts" by code_simp
  show "newStateStore race_opts (\<lambda>_. 0) None = Inr race_store"
    unfolding race_store_def by (rule newStateStore_inv(1) [OF buildOptions_valid [OF b]])
qed

lemma race_check:
  "case run_schedule count_calls race (quiet_conc race_store) of
     None \<Rightarrow> False
   | Some c \<Rightarrow> map (\<lambda>(k, t, ret). (k, snd ret)) (cs_log c) = [(''x'', None), (''a'', None), (''a'', Some ErrMaxKeysExceeded)]
       \<and> map_option fst (st_lookup (cs_store c) ''a'') = Some 1"
  by code_simp

lemma race_state:
  obtains c where "conc_reachable count_calls race_store c"
    "map (\<lambda>(k, t, ret). (k, snd ret)) (cs_log c) = [(''x'', None), (''a'', None), (''a'', Some ErrMaxKeysExceeded)]"
    "st_value (cs_store c) ''a'' = Some 1"
proof -
  obtain c where c: "run_schedule count_calls race (quiet_conc race_store) = Some c"
      "map (\<lambda>(k, t, ret). (k, snd ret)) (cs_log c) = [(''x'', None), (''a'', None), (''a'', Some ErrMaxKeysExceeded)]"
      "map_option fst (st_lookup (cs_store c) ''a'') = Some 1"
    using race_check by (cases "run_schedule count_calls race (quiet_conc race_store)") auto
  then show thesis using that run_schedule_reachable [OF c(1) conc_init] by (simp add: st_value_def)
qed

theorem concurrent_rejects_present_key:
  "\<exists>c now res. conc_reachable count_calls race_store c
     \<and> (''a'', now, res, Some ErrMaxKeysExceeded) \<in> set (cs_log c) \<and> st_value (cs_store c) ''a'' = Some 1"
proof -
  obtain c where c: "conc_reachable count_calls race_store c"
    "map (\<lambda>(k, t, ret). (k, snd ret)) (cs_log c) = [(''x'', None), (''a'', None), (''a'', Some ErrMaxKeysExceeded)]"
    "st_value (cs_store c) ''a'' = Some 1" by (rule race_state)
  have "(''a'', Some ErrMaxKeysExceeded) \<in> set (map (\<lambda>(k, t, ret). (k, snd ret)) (cs_log c))" unfolding c(2) by simp
  then obtain now res where "(''a'', now, res, Some ErrMaxKeysExceeded) \<in> set (cs_log c)" by auto
  then show ?thesis using c(1,3) by blast
qed

subsection \<open>Witnesses\<close>

theorem concurrent_accounting_witness:
  "\<exists>c. conc_reachable count_calls race_store c \<and> st_value (cs_store c) ''a'' = Some 1
     \<and> key_count (cs_store c) + int (card (reserved c)) \<le> 1"
proof -
  obtain c where c: "conc_reachable count_calls race_store c" "st_value (cs_store c) ''a'' = Some 1" by (rule race_state)
  have "maxKeys race_opts = 1" by code_simp
  then show ?thesis using concurrent_accounting [OF race_built c(1)] c by auto
qed

theorem concurrent_no_deadlock_witness:
  "\<exists>u c'. thread_step count_calls u (goto 0 (call_at ''a'' 5) Lock (quiet_conc race_store)) = Some c'"
proof -
  have "conc_reachable count_calls race_store (goto 0 (call_at ''a'' 5) Lock (quiet_conc race_store))"
    by (rule conc_next [OF conc_init begin_call]) (simp add: quiet_conc_def)
  moreover have "cs_pc (goto 0 (call_at ''a'' 5) Lock (quiet_conc race_store)) 0 \<noteq> None" by (simp add: goto_def)
  ultimately show ?thesis by (rule concurrent_no_deadlock [OF race_built])
qed

text \<open>Two goroutines with the same key, the second one started while the first holds the lock.\<close>

definition plain_store :: "nat shardedStore" where
  "plain_store = newShardedStore defaultOptions (\<lambda>_. 0) None"

lemma plain_built: "newStateStore defaultOptions (\<lambda>_. 0) None = Inr plain_store" "keeps_all_keys defaultOptions"
proof -
  show "newStateStore defaultOptions (\<lambda>_. 0) None = Inr plain_store"
    unfolding plain_store_def by (rule newStateStore_inv(1) [OF buildOptions_valid [OF buildOptions_Nil]])
  show "keeps_all_keys defaultOptions" by code_simp
qed

definition two_calls :: "(nat \<times> call option) list" where
  "two_calls = [(0, Some (call_at ''a'' 5)), (0, None), (1, Some (call_at ''a'' 4))] @ replicate 5 (0, None) @ replicate 5 (1, None)"

lemma two_calls_check:
  "case run_schedule count_calls two_calls (quiet_conc plain_store) of
     None \<Rightarrow> False
   | Some c \<Rightarrow> map (\<lambda>(k, t, ret). (k, t, Allowed (fst ret))) (cs_log c) = [(''a'', 5, True), (''a'', 4, True)]"
  by code_simp

theorem concurrent_linearizable_witness:
  "\<exists>c. conc_reachable count_calls plain_store c \<and> length (cs_log c) = 2
     \<and> map snd (log_for ''a'' (cs_log c)) = alone count_calls (\<lambda>_. 0) None (map fst (log_for ''a'' (cs_log c)))"
proof -
  obtain c where c: "run_schedule count_calls two_calls (quiet_conc plain_store) = Some c"
      "map (\<lambda>(k, t, ret). (k, t, Allowed (fst ret))) (cs_log c) = [(''a'', 5, True), (''a'', 4, True)]"
    using two_calls_check by (cases "run_schedule count_calls two_calls (quiet_conc plain_store)") auto
  note r = run_schedule_reachable [OF c(1) conc_init]
  have "length (cs_log c) = 2" using arg_cong [OF c(2), of length] by simp
  then show ?thesis using concurrent_linearizable [OF buildOptions_Nil plain_built(1) r plain_built(2)] r by blast
qed

end
