(* ===== verification/Mem_Solo.thy ===== *)
theory Mem_Solo
  imports Mem_Concurrent
begin

section \<open>One goroutine alone in the sharded store\<close>

text \<open>
  The two models of \<open>memory/sharded_store.go\<close> agree: a goroutine that runs alone through the steps
  of \<open>Mem_Concurrent\<close> does, loop by loop, what the function \<open>withState\<close> of \<open>Mem_Store\<close> computes,
  and it always comes to the end of its call.
\<close>

subsection \<open>States with one goroutine\<close>

definition solo ::
  "nat \<Rightarrow> call \<Rightarrow> 'v loc \<Rightarrow> nat option \<Rightarrow> nat option \<Rightarrow> 'v shardedStore \<Rightarrow> (string \<times> time \<times> go_return) list \<Rightarrow> 'v conc" where
  "solo t cl l h w s lg =
     \<lparr>cs_store = s, cs_lock = (\<lambda>i. if h = Some i then Some t else None), cs_sweep = w, cs_pc = [t \<mapsto> (cl, l)], cs_log = lg\<rparr>"

abbreviation leads :: "'v callback \<Rightarrow> nat \<Rightarrow> 'v conc \<Rightarrow> 'v conc \<Rightarrow> bool" where
  "leads fn t \<equiv> (\<lambda>c c'. thread_step fn t c = Some c')\<^sup>*\<^sup>*"

lemma solo_simps [simp]:
  "cs_store (solo t cl l h w s lg) = s"
  "cs_sweep (solo t cl l h w s lg) = w"
  "own (solo t cl l h w s lg) cl' = shardFor s (c_key cl')"
  "goto t cl' l' (solo t cl l h w s lg) = solo t cl' l' h w s lg"
  "put_store s' (solo t cl l h w s lg) = solo t cl l h w s' lg"
  "acquire i t (solo t cl l None w s lg) = Some (solo t cl l (Some i) w s lg)"
  "release i (solo t cl l (Some i) w s lg) = solo t cl l None w s lg"
  "(solo t cl l h w s lg)\<lparr>cs_sweep := w'\<rparr> = solo t cl l h w' s lg"
  "add_log cl' ret (solo t cl l h w s lg) = solo t cl l h w s (lg @ [(c_key cl', c_now cl', ret)])"
  "thread_step fn t (solo t cl l h w s lg) = step fn t cl l (solo t cl l h w s lg)"
  by (auto simp: solo_def own_def goto_def put_store_def acquire_def release_def add_log_def thread_step_def fun_eq_iff)

lemma leads_step:
  "step fn t cl l (solo t cl l h w s lg) = Some c \<Longrightarrow> leads fn t c c' \<Longrightarrow> leads fn t (solo t cl l h w s lg) c'"
  by (rule converse_rtranclp_into_rtranclp) simp_all

subsection \<open>The cleanup\<close>

lemma deleteExpiredMap_Cons: "deleteExpiredMap (k # ks) p = deleteExpiredMap ks (deleteExpiredMap [k] p)"
  by (cases p) (simp split: option.split)

lemma deleteExpiredLRU_Cons: "deleteExpiredLRU (e # es) p = deleteExpiredLRU es (deleteExpiredLRU [e] p)"
  by (cases p; cases e) (simp split: option.split)

lemma delete_one_simps:
  "delete_one i (Inl k) s = (setShard s i (fst (deleteExpiredMap [k] (shards s ! i, live s))))
     \<lparr>live := snd (deleteExpiredMap [k] (shards s ! i, live s))\<rparr>"
  "delete_one i (Inr e) s = (setShard s i (fst (deleteExpiredLRU [e] (shards s ! i, live s))))
     \<lparr>live := snd (deleteExpiredLRU [e] (shards s ! i, live s))\<rparr>"
  by (simp_all add: delete_one_def Let_def case_prod_beta)

lemma delete_fold_Map:
  "i < length (shards s) \<Longrightarrow> fold (delete_one i) (map Inl ks) s
     = (let (sh, lv) = deleteExpiredMap ks (shards s ! i, live s) in (setShard s i sh)\<lparr>live := lv\<rparr>)"
proof (induction ks arbitrary: s)
  case (Cons k ks)
  then show ?case
    by (subst deleteExpiredMap_Cons) (simp add: delete_one_simps Let_def case_prod_beta del: deleteExpiredMap.simps)
qed simp

lemma delete_fold_LRU:
  "i < length (shards s) \<Longrightarrow> fold (delete_one i) (map Inr es) s
     = (let (sh, lv) = deleteExpiredLRU es (shards s ! i, live s) in (setShard s i sh)\<lparr>live := lv\<rparr>)"
proof (induction es arbitrary: s)
  case (Cons e es)
  then show ?case
    by (subst deleteExpiredLRU_Cons) (simp add: delete_one_simps Let_def case_prod_beta del: deleteExpiredLRU.simps)
qed simp

lemma cleanup_in_steps:
  "i < length (shards s) \<Longrightarrow>
     fold (delete_one i) (snd (begin_cleanup iter s i now)) (fst (begin_cleanup iter s i now)) = cleanupShard iter s i now"
  by (simp add: begin_cleanup_def cleanupShard_def cleanupLRU_def cleanupMap_def Let_def delete_fold_Map delete_fold_LRU case_prod_beta)

lemma clean_hit:
  "leads fn t (solo t cl (CleanHit vs v) h w s lg) (solo t cl (Run v) h w (fold (delete_one (shardFor s (c_key cl))) vs s) lg)"
proof (induction vs arbitrary: s)
  case (Cons x vs)
  then show ?case using Cons [of "delete_one (shardFor s (c_key cl)) x s"] by (intro leads_step) simp_all
qed (auto intro: leads_step)

lemma clean_miss:
  "leads fn t (solo t cl (CleanMiss vs) h w s lg) (solo t cl (CleanMiss []) h w (fold (delete_one (shardFor s (c_key cl))) vs s) lg)"
proof (induction vs arbitrary: s)
  case (Cons x vs)
  then show ?case using Cons [of "delete_one (shardFor s (c_key cl)) x s"] by (intro leads_step) simp_all
qed simp

lemma sweep_clean:
  "leads fn t (solo t cl (SweepClean j vs js) (Some j) w s lg) (solo t cl (SweepNext js) None w (fold (delete_one j) vs s) lg)"
proof (induction vs arbitrary: s)
  case (Cons x vs)
  then show ?case using Cons [of "delete_one j x s"] by (intro leads_step) simp_all
qed (auto intro: leads_step)

subsection \<open>The sweep and the eviction elsewhere\<close>

lemma cleanupShard_config [simp]:
  "st_opts (cleanupShard iter s i now) = st_opts s" "length (shards (cleanupShard iter s i now)) = length (shards s)"
  by (auto simp: cleanupShard_def cleanupLRU_def cleanupMap_def Let_def split: prod.split)

lemma sweep_loop_config [simp]:
  "st_opts (sweep_loop iter js now s) = st_opts s" "length (shards (sweep_loop iter js now s)) = length (shards s)"
  by (induction js arbitrary: s) simp_all

lemma sweepExpired_config [simp]:
  "st_opts (sweepExpired iter s now) = st_opts s" "length (shards (sweepExpired iter s now)) = length (shards s)"
  by (simp_all add: sweepExpired_def Let_def)

lemma evictAnyOther_loop_config:
  "st_opts (evictAnyOther_loop js i s) = st_opts s \<and> length (shards (evictAnyOther_loop js i s)) = length (shards s)"
  by (induction js arbitrary: s) (simp_all add: Let_def case_prod_beta)

lemma evictAnyOther_config [simp]:
  "st_opts (evictAnyOther s i) = st_opts s" "length (shards (evictAnyOther s i)) = length (shards s)"
  by (simp_all add: evictAnyOther_def evictAnyOther_loop_config)

lemma sweep_next:
  "set js \<subseteq> {..<length (shards s)} \<Longrightarrow>
     leads fn t (solo t cl (SweepNext js) None (Some t) s lg)
       (solo t cl (if isLRU s then Check else Relock) None None (sweep_loop (c_iter cl) js (c_now cl) s) lg)"
proof (induction js arbitrary: s)
  case Nil
  then show ?case by (auto intro: leads_step)
next
  case (Cons j js)
  let ?b = "begin_cleanup (c_iter cl) s j (c_now cl)"
  have "fold (delete_one j) (snd ?b) (fst ?b) = cleanupShard (c_iter cl) s j (c_now cl)"
    using Cons.prems by (intro cleanup_in_steps) simp
  then have "leads fn t (solo t cl (SweepClean j (snd ?b) js) (Some j) (Some t) (fst ?b) lg)
      (solo t cl (SweepNext js) None (Some t) (cleanupShard (c_iter cl) s j (c_now cl)) lg)"
    using sweep_clean [of fn t cl j "snd ?b" js "Some t" "fst ?b" lg] by simp
  also have "leads fn t (solo t cl (SweepNext js) None (Some t) (cleanupShard (c_iter cl) s j (c_now cl)) lg)
      (solo t cl (if isLRU s then Check else Relock) None None (sweep_loop (c_iter cl) (j # js) (c_now cl) s) lg)"
    using Cons.IH [of "cleanupShard (c_iter cl) s j (c_now cl)"] Cons.prems by simp
  finally show ?case by (intro leads_step) (simp_all add: case_prod_beta)
qed

lemma sweep:
  "leads fn t (solo t cl SweepLock None None s lg)
     (solo t cl (if isLRU s then Check else Relock) None None (sweepExpired (c_iter cl) s (c_now cl)) lg)"
  (is "leads fn t ?c ?c'")
proof (cases "keyTTL (st_opts s) \<le> 0 \<or> cleanupInterval (st_opts s) \<le> 0")
  case True
  then show ?thesis by (intro leads_step) (auto simp: sweepExpired_def)
next
  case on: False
  show ?thesis
  proof (cases "Sub (c_now cl) (lastSweep s) < cleanupInterval (st_opts s)")
    case True
    then show ?thesis using on sweep_next [of "[]" s fn t cl lg] by (intro leads_step) (auto simp: sweepExpired_def Let_def)
  next
    case False
    then show ?thesis
      using on sweep_next [of "[0..<length (shards s)]" "s\<lparr>lastSweep := c_now cl\<rparr>" fn t cl lg]
      by (intro leads_step) (auto simp: sweepExpired_def Let_def lessThan_atLeast0)
  qed
qed

lemma evict_next:
  "leads fn t (solo t cl (EvictNext js) None None s lg)
     (solo t cl Relock None None (evictAnyOther_loop js (shardFor s (c_key cl)) s) lg)"
proof (induction js arbitrary: s)
  case Nil
  then show ?case by (auto intro: leads_step)
next
  case (Cons j js)
  let ?i = "shardFor s (c_key cl)" and ?s = "fst (evictFrom s j)"
  show ?case
  proof (cases "j = ?i")
    case True
    then show ?thesis using Cons.IH [of s] by (intro leads_step) simp_all
  next
    case False
    have i: "shardFor ?s (c_key cl) = ?i" by (rule shardFor_cong) simp
    have "leads fn t (solo t cl (EvictAt j js) (Some j) None s lg)
        (solo t cl Relock None None (evictAnyOther_loop (j # js) ?i s) lg)"
      using Cons.IH [of ?s] False i by (intro leads_step) (auto simp: case_prod_beta Let_def)
    then show ?thesis using False by (intro leads_step) simp_all
  qed
qed

subsection \<open>Reserving a slot\<close>

abbreviation full_error :: go_return where
  "full_error \<equiv> (zero_Result, Some ErrMaxKeysExceeded)"

definition reserve_end ::
  "nat \<Rightarrow> call \<Rightarrow> nat \<Rightarrow> 'v shardedStore \<times> bool \<Rightarrow> (string \<times> time \<times> go_return) list \<Rightarrow> 'v conc" where
  "reserve_end t cl i r lg =
     (if snd r then solo t cl Insert (Some i) None (fst r) lg
      else solo t cl (Unlock full_error) (Some i) None (fst r) (lg @ [(c_key cl, c_now cl, full_error)]))"

text \<open>Without its lock: evict elsewhere when the store is still full, then take the lock again.\<close>

lemma evict_elsewhere:
  assumes "leads fn t (solo t cl (Load True) (Some (shardFor s (c_key cl))) None
      (if maxKeys (st_opts s) \<le> live s then evictAnyOther s (shardFor s (c_key cl)) else s) lg) c'"
  shows "leads fn t (solo t cl Check None None s lg) c'"
proof (cases "maxKeys (st_opts s) \<le> live s")
  case True
  let ?i = "shardFor s (c_key cl)"
  have i: "shardFor (evictAnyOther s ?i) (c_key cl) = ?i" by (rule shardFor_cong) simp
  have "leads fn t (solo t cl (EvictNext [0..<length (shards s)]) None None s lg) (solo t cl Relock None None (evictAnyOther s ?i) lg)"
    using evict_next by (simp add: evictAnyOther_def)
  also have "leads fn t (solo t cl Relock None None (evictAnyOther s ?i) lg) c'"
    using assms True i by (intro leads_step) simp_all
  finally show ?thesis using True by (intro leads_step) simp_all
next
  case False
  then have "leads fn t (solo t cl Relock None None s lg) c'" using assms by (intro leads_step) simp_all
  then show ?thesis using False by (intro leads_step) simp_all
qed

lemma reserve_loop:
  assumes "reserveSlot_loop iter i now swept s = Some r" "iter = c_iter cl" "now = c_now cl" "i = shardFor s (c_key cl)"
  shows "leads fn t (solo t cl (Load swept) (Some i) None s lg) (reserve_end t cl i r lg)"
  using assms
proof (induction rule: reserveSlot_loop.raw_induct [rotated, consumes 1])
  case (1 loop iter i now swept s r)
  note IH = 1(1)
  show ?case
  proof (cases "live s < maxKeys (st_opts s)")
    case True
    then have r: "r = (s\<lparr>live := live s + 1\<rparr>, True)" using 1(2) by simp
    have "leads fn t (solo t cl (Cas swept (live s)) (Some i) None s lg) (reserve_end t cl i r lg)"
      by (intro leads_step) (auto simp: r Let_def reserve_end_def)
    then show ?thesis using True by (intro leads_step) simp_all
  next
    case full: False
    have "leads fn t (solo t cl (Full swept) (Some i) None s lg) (reserve_end t cl i r lg)"
    proof (cases "isLRU s")
      case lru: True
      show ?thesis
      proof (cases "snd (evictFrom s i)")
        case True
        have "shardFor (fst (evictFrom s i)) (c_key cl) = i" unfolding 1(5) by (rule shardFor_cong) simp
        then have "leads fn t (solo t cl (Load swept) (Some i) None (fst (evictFrom s i)) lg) (reserve_end t cl i r lg)"
          using 1(2-5) full lru True by (intro IH) simp_all
        then show ?thesis using lru True 1(5) by (intro leads_step) (auto simp: case_prod_beta Let_def)
      next
        case False
        let ?s1 = "if swept then s else sweepExpired iter s now"
        have i1: "shardFor ?s1 (c_key cl) = i" unfolding 1(5) by (rule shardFor_cong) simp
        let ?s2 = "if maxKeys (st_opts ?s1) \<le> live ?s1 then evictAnyOther ?s1 i else ?s1"
        have "shardFor ?s2 (c_key cl) = shardFor ?s1 (c_key cl)" by (rule shardFor_cong) simp
        then have "leads fn t (solo t cl (Load True) (Some i) None ?s2 lg) (reserve_end t cl i r lg)"
          using 1(2-4) full lru False i1 by (intro IH) (simp_all add: Let_def)
        then have ev: "leads fn t (solo t cl Check None None ?s1 lg) (reserve_end t cl i r lg)"
          by (intro evict_elsewhere) (simp only: i1)
        have "leads fn t (solo t cl (if swept then Check else SweepLock) None None s lg) (reserve_end t cl i r lg)"
        proof (cases swept)
          case no: False
          have "leads fn t (solo t cl SweepLock None None s lg) (solo t cl Check None None ?s1 lg)"
            using sweep [of fn t cl s lg] lru no 1(3,4) by simp
          then show ?thesis using ev no by simp
        qed (use ev in simp)
        then show ?thesis using lru False 1(5) by (intro leads_step) (auto simp: case_prod_beta Let_def)
      qed
    next
      case rej: False
      show ?thesis
      proof (cases swept)
        case True
        then have "r = (s, False)" using 1(2) full rej by simp
        then show ?thesis using rej True by (auto intro: leads_step simp: Let_def reserve_end_def)
      next
        case False
        let ?w = "sweepExpired iter s now"
        have i1: "shardFor ?w (c_key cl) = i" unfolding 1(5) by (rule shardFor_cong) simp
        then have "leads fn t (solo t cl (Load True) (Some i) None ?w lg) (reserve_end t cl i r lg)"
          using 1(2-5) full rej False by (intro IH) simp_all
        then have "leads fn t (solo t cl Relock None None ?w lg) (reserve_end t cl i r lg)"
          using i1 by (intro leads_step) simp_all
        with sweep [of fn t cl s lg] have "leads fn t (solo t cl SweepLock None None s lg) (reserve_end t cl i r lg)"
          using rej 1(3,4) by simp
        then show ?thesis using rej False 1(5) by (intro leads_step) simp_all
      qed
    qed
    then show ?thesis using full by (intro leads_step) simp_all
  qed
qed

lemma reserve:
  assumes "reserveSlot (c_iter cl) s i (c_now cl) = Some r" "i = shardFor s (c_key cl)"
  shows "leads fn t (solo t cl (CleanMiss []) (Some i) None s lg) (reserve_end t cl i r lg)"
proof (cases "maxKeys (st_opts s) \<le> 0")
  case True
  then show ?thesis using assms by (intro leads_step) (auto simp: reserveSlot_def Let_def reserve_end_def)
next
  case False
  then have "leads fn t (solo t cl (Load False) (Some i) None s lg) (reserve_end t cl i r lg)"
    using assms by (intro reserve_loop) (simp_all add: reserveSlot_def)
  then show ?thesis using False by (intro leads_step) (simp_all add: Let_def)
qed

subsection \<open>The whole call\<close>

definition lookup_end ::
  "nat \<Rightarrow> call \<Rightarrow> nat \<Rightarrow> 'v shardedStore \<times> 'v option \<Rightarrow> (string \<times> time \<times> go_return) list \<Rightarrow> 'v conc" where
  "lookup_end t cl i r lg =
     (case snd r of
        Some v \<Rightarrow> solo t cl (Run v) (Some i) None (fst r) lg
      | None \<Rightarrow> solo t cl (Unlock full_error) (Some i) None (fst r) (lg @ [(c_key cl, c_now cl, full_error)]))"

lemma lookup_hit:
  fixes s :: "'v shardedStore"
  assumes i: "i = shardFor s (c_key cl)" "i < length (shards s)"
    and e: "enter cl i s0 = (let b = begin_cleanup (c_iter cl) s i (c_now cl) in Some (fst b, CleanHit (snd b) v))"
    and s0: "shardFor s0 (c_key cl) = i"
  shows "leads fn t (solo t cl Enter (Some i) None s0 lg) (solo t cl (Run v) (Some i) None (cleanupShard (c_iter cl) s i (c_now cl)) lg)"
proof -
  let ?b = "begin_cleanup (c_iter cl) s i (c_now cl)"
  have "shardFor (fst ?b) (c_key cl) = i" unfolding i(1) by (rule shardFor_cong) simp
  then show ?thesis
    using clean_hit [of fn t cl "snd ?b" v "Some i" None "fst ?b" lg] e s0
    by (intro leads_step) (simp_all add: Let_def cleanup_in_steps [OF i(2)])
qed

lemma lookup_miss:
  assumes inv: "store_inv 0 s" and i: "i = shardFor s (c_key cl)"
    and e: "enter cl i s = (let b = begin_cleanup (c_iter cl) s i (c_now cl) in Some (fst b, CleanMiss (snd b)))"
    and r: "reserveSlot (c_iter cl) (cleanupShard (c_iter cl) s i (c_now cl)) i (c_now cl) = Some r"
  shows "leads fn t (solo t cl Enter (Some i) None s lg) (reserve_end t cl i r lg)"
proof -
  let ?b = "begin_cleanup (c_iter cl) s i (c_now cl)" and ?s = "cleanupShard (c_iter cl) s i (c_now cl)"
  have il: "i < length (shards s)" unfolding i using inv by (rule store_inv_shardFor)
  have ib: "shardFor (fst ?b) (c_key cl) = i" unfolding i by (rule shardFor_cong) simp
  have i2: "i = shardFor ?s (c_key cl)" unfolding i by (rule shardFor_cong) simp
  have "leads fn t (solo t cl (CleanMiss (snd ?b)) (Some i) None (fst ?b) lg) (solo t cl (CleanMiss []) (Some i) None ?s lg)"
    using clean_miss [of fn t cl "snd ?b" "Some i" None "fst ?b" lg] by (simp add: ib cleanup_in_steps [OF il])
  also have "leads fn t (solo t cl (CleanMiss []) (Some i) None ?s lg) (reserve_end t cl i r lg)" using r i2 by (rule reserve)
  finally show ?thesis using e i by (intro leads_step) (simp_all add: Let_def)
qed

lemma reserved_slot:
  assumes inv: "store_inv 0 s" and i: "i = shardFor s key"
    and r: "reserveSlot iter (cleanupShard iter s i now) i now = Some (s1, ok)"
  shows "st_opts s1 = st_opts s" "i = shardFor s1 key" "ok \<Longrightarrow> store_inv 1 s1"
proof -
  let ?c = "cleanupShard iter s i now"
  have il: "i < length (shards s)" unfolding i using inv by (rule store_inv_shardFor)
  have "store_inv 0 ?c" using cleanupShard_ok [OF inv il] by blast
  then have "sub_store s1 ?c" "ok \<Longrightarrow> store_inv 1 s1"
    using reserveSlot_total [of ?c i iter now] r il by auto
  then show "st_opts s1 = st_opts s" "ok \<Longrightarrow> store_inv 1 s1" "i = shardFor s1 key"
    unfolding i by (auto simp: sub_store_def intro!: shardFor_cong [symmetric])
qed

lemma insert_leads:
  assumes "insert_key cl i s = Some (s', Run v)" "i = shardFor s (c_key cl)"
  shows "leads fn t (solo t cl Insert (Some i) None s lg) (solo t cl (Run v) (Some i) None s' lg)"
  using assms by (intro leads_step) auto

lemma lookup_Map:
  assumes inv: "store_inv 0 s" and rej: "\<not> isLRU s" and i: "i = shardFor s (c_key cl)"
    and g: "getOrCreateMap (c_iter cl) s i (c_key cl) (c_now cl) = Some r"
  shows "leads fn t (solo t cl Enter (Some i) None s lg) (lookup_end t cl i r lg)"
proof (cases "map_of (items (shards s ! i)) (c_key cl)")
  case (Some entry)
  let ?s1 = "setShard s i ((shards s ! i)\<lparr>items := AList.update (c_key cl) (entry\<lparr>ke_lastSeen := c_now cl\<rparr>) (items (shards s ! i))\<rparr>)"
  have "leads fn t (solo t cl Enter (Some i) None s lg)
      (solo t cl (Run (ke_value entry)) (Some i) None (cleanupShard (c_iter cl) ?s1 i (c_now cl)) lg)"
    using i store_inv_shardFor [OF inv] Some rej
    by (intro lookup_hit) (simp_all add: enter_def Let_def case_prod_beta)
  then show ?thesis using g Some rej by (auto simp: getOrCreateMap_def Let_def lookup_end_def cleanupShard_def)
next
  case None
  let ?c = "cleanupMap (c_iter cl) s i (c_now cl)"
  have c: "?c = cleanupShard (c_iter cl) s i (c_now cl)" using rej by (simp add: cleanupShard_def)
  obtain s1 ok where r: "reserveSlot (c_iter cl) ?c i (c_now cl) = Some (s1, ok)" using g None
    by (auto simp: getOrCreateMap_def split: option.splits)
  have go: "leads fn t (solo t cl Enter (Some i) None s lg) (reserve_end t cl i (s1, ok) lg)"
    using r unfolding c by (rule lookup_miss [OF inv i, rotated]) (simp add: enter_def None rej Let_def case_prod_beta)
  show ?thesis
  proof (cases ok)
    case False
    then have "r = (s1, None)" using g None r by (simp add: getOrCreateMap_def)
    then show ?thesis using go False by (simp add: reserve_end_def lookup_end_def)
  next
    case True
    note s1 = reserved_slot [OF inv i r [unfolded c]]
    obtain s' v where r': "r = (s', Some v)" "insert_key cl i s1 = Some (s', Run v)"
      using g None r True rej s1(1) by (auto simp: getOrCreateMap_def insert_key_def Let_def split: option.splits)
    then show ?thesis using go True insert_leads [OF r'(2) s1(2), of fn t lg] by (simp add: reserve_end_def lookup_end_def)
  qed
qed

lemma lookup_LRU:
  assumes inv: "store_inv 0 s" and lru: "isLRU s" and i: "i = shardFor s (c_key cl)"
    and g: "getOrCreateLRU (c_iter cl) s i (c_key cl) (c_now cl) = Some r"
  shows "leads fn t (solo t cl Enter (Some i) None s lg) (lookup_end t cl i r lg)"
proof (cases "orderItems (shards s ! i) (c_key cl)")
  case (Some el)
  let ?s1 = "setShard s i (touchLRU el (c_now cl) (shards s ! i))"
  obtain v where v: "elem_value (shards s ! i) el = Some v" using touch_found(1) [OF inv i lru Some] by blast
  have "leads fn t (solo t cl Enter (Some i) None s lg)
      (solo t cl (Run v) (Some i) None (cleanupShard (c_iter cl) ?s1 i (c_now cl)) lg)"
    using i store_inv_shardFor [OF inv] Some lru v
    by (intro lookup_hit) (simp_all add: enter_def Let_def case_prod_beta)
  then show ?thesis using g Some lru v by (auto simp: getOrCreateLRU_def Let_def lookup_end_def cleanupShard_def)
next
  case None
  let ?c = "cleanupLRU s i (c_now cl)"
  have c: "?c = cleanupShard (c_iter cl) s i (c_now cl)" using lru by (simp add: cleanupShard_def)
  obtain s1 ok where r: "reserveSlot (c_iter cl) ?c i (c_now cl) = Some (s1, ok)" using g None
    by (auto simp: getOrCreateLRU_def split: option.splits)
  have go: "leads fn t (solo t cl Enter (Some i) None s lg) (reserve_end t cl i (s1, ok) lg)"
    using r unfolding c by (rule lookup_miss [OF inv i, rotated]) (simp add: enter_def None lru Let_def case_prod_beta)
  show ?thesis
  proof (cases ok)
    case False
    then have "r = (s1, None)" using g None r by (simp add: getOrCreateLRU_def)
    then show ?thesis using go False by (simp add: reserve_end_def lookup_end_def)
  next
    case True
    note s1 = reserved_slot [OF inv i r [unfolded c]]
    have "elem_value (shards s1 ! i) el \<noteq> None" if "orderItems (shards s1 ! i) (c_key cl) = Some el" for el
      using touch_found(1) [OF s1(3) [OF True] s1(2) _ that] s1(1) lru by auto
    then obtain s' v where r': "r = (s', Some v)" "insert_key cl i s1 = Some (s', Run v)"
      using g None r True lru s1(1) by (auto simp: getOrCreateLRU_def insert_key_def Let_def split: option.splits)
    then show ?thesis using go True insert_leads [OF r'(2) s1(2), of fn t lg] by (simp add: reserve_end_def lookup_end_def)
  qed
qed

text \<open>The state after the call: the goroutine is idle again and every mutex free.\<close>

lemma unlock_leads:
  "leads fn t (solo t cl (Unlock ret) (Some (shardFor s (c_key cl))) None s lg) ((quiet_conc s)\<lparr>cs_log := lg\<rparr>)"
proof (rule leads_step)
  show "step fn t cl (Unlock ret) (solo t cl (Unlock ret) (Some (shardFor s (c_key cl))) None s lg) = Some ((quiet_conc s)\<lparr>cs_log := lg\<rparr>)"
    by (auto simp: solo_def quiet_conc_def own_def release_def fun_eq_iff)
qed simp

lemma solo_withState:
  assumes inv: "store_inv 0 s" and w: "withState (c_iter cl) s (c_key cl) (c_now cl) fn = Some (s', ret)"
  shows "leads fn t (solo t cl Lock None None s lg) ((quiet_conc s')\<lparr>cs_log := lg @ [(c_key cl, c_now cl, ret)]\<rparr>)"
proof -
  let ?i = "shardFor s (c_key cl)"
  let ?g = "if isLRU s then getOrCreateLRU (c_iter cl) s ?i (c_key cl) (c_now cl) else getOrCreateMap (c_iter cl) s ?i (c_key cl) (c_now cl)"
  obtain s1 res where g: "?g = Some (s1, res)" using w by (auto simp: withState_def Let_def split: option.splits)
  have "got s (c_key cl) (c_now cl) s1 res"
    using getOrCreateLRU_ok [OF inv _ refl, where key = "c_key cl" and iter = "c_iter cl" and now = "c_now cl"]
      getOrCreateMap_ok [OF inv _ refl, where key = "c_key cl" and iter = "c_iter cl" and now = "c_now cl"] g by (auto split: if_splits)
  then have i1: "shardFor s1 (c_key cl) = ?i" by (auto simp: got_def frame_store_def intro: shardFor_cong split: option.splits)
  have "leads fn t (solo t cl Enter (Some ?i) None s lg) (lookup_end t cl ?i (s1, res) lg)"
    using g lookup_LRU [OF inv _ refl] lookup_Map [OF inv _ refl] by (simp split: if_splits)
  also have "leads fn t (lookup_end t cl ?i (s1, res) lg) ((quiet_conc s')\<lparr>cs_log := lg @ [(c_key cl, c_now cl, ret)]\<rparr>)"
  proof (cases res)
    case None
    then have "s' = s1" "ret = full_error" using w g by (auto simp: withState_def Let_def)
    then show ?thesis using None i1 unlock_leads [of fn t cl full_error s1] by (simp add: lookup_end_def)
  next
    case (Some v)
    let ?s = "setShard s1 ?i (setValue (isLRU s1) (c_key cl) (fst (fn v (c_now cl))) (shards s1 ! ?i))"
    have "s' = ?s" "ret = snd (fn v (c_now cl))" using w g Some by (auto simp: withState_def Let_def case_prod_beta)
    moreover have "shardFor ?s (c_key cl) = ?i" by (simp add: i1)
    ultimately have "leads fn t (solo t cl (Run v) (Some ?i) None s1 lg) ((quiet_conc s')\<lparr>cs_log := lg @ [(c_key cl, c_now cl, ret)]\<rparr>)"
      using unlock_leads [of fn t cl ret ?s "lg @ [(c_key cl, c_now cl, ret)]"] i1
      by (intro leads_step) (simp_all add: case_prod_beta Let_def)
    then show ?thesis using Some by (simp add: lookup_end_def)
  qed
  finally show ?thesis by (intro leads_step) simp_all
qed

subsection \<open>Property\<close>

lemma idle_state:
  assumes inv: "cinv c" and idle: "\<And>u. cs_pc c u = None"
  shows "c = (quiet_conc (cs_store c))\<lparr>cs_log := cs_log c\<rparr>" "store_inv 0 (cs_store c)"
proof -
  have "cs_lock c i = None" for i using cinvD(3) [OF inv, of i] idle by (cases "cs_lock c i") (auto simp: pc_holds_def)
  moreover have "cs_sweep c = None" using cinvD(4) [OF inv] idle by (cases "cs_sweep c") (auto simp: pc_sweeps_def)
  moreover have "cs_pc c = (\<lambda>_. None)" using idle by (simp add: fun_eq_iff)
  ultimately show "c = (quiet_conc (cs_store c))\<lparr>cs_log := cs_log c\<rparr>" by (cases c) (simp add: quiet_conc_def fun_eq_iff)
  have "reserved c = {}" using idle by (simp add: reserved_def)
  then show "store_inv 0 (cs_store c)" using cinvD(2) [OF inv] by simp
qed

text \<open>
  Claim C7. A call that no other call overlaps ends, and the model with locks agrees with the
  sequential one: from every state that goroutines can reach and in which all are idle, a
  goroutine that runs \<open>withState\<close> alone gets, after finitely many steps, to the state in which it
  is idle again, with all mutexes free, the store that the sequential \<open>withState\<close> computes, and
  its result decided.
\<close>

theorem lone_call_ends:
  assumes "buildOptions opts = Inr o1" "newStateStore o1 cr onEv = Inr s0" "conc_reachable fn s0 c" "\<And>u. cs_pc c u = None"
  shows "\<exists>s' ret. withState (c_iter cl) (cs_store c) (c_key cl) (c_now cl) fn = Some (s', ret)
     \<and> (\<lambda>c c'. thread_step fn t c = Some c')\<^sup>*\<^sup>* (goto t cl Lock c)
         (c\<lparr>cs_store := s', cs_log := cs_log c @ [(c_key cl, c_now cl, ret)]\<rparr>)"
proof -
  have "store_inv 0 s0"
    using newStateStore_inv [OF buildOptions_valid [OF assms(1)], where cr = cr and ev = onEv] assms(2) by auto
  then have "cinv c" using assms(3) by (intro reachable_cinv)
  note c = idle_state [OF this assms(4)]
  obtain s' ret where w: "withState (c_iter cl) (cs_store c) (c_key cl) (c_now cl) fn = Some (s', ret)"
    using withState_ok [OF c(2), of "c_iter cl" "c_key cl" "c_now cl" fn] by blast
  have "goto t cl Lock c = solo t cl Lock None None (cs_store c) (cs_log c)"
    by (subst c(1)) (simp add: goto_def solo_def quiet_conc_def)
  moreover have "c\<lparr>cs_store := s', cs_log := lg\<rparr> = (quiet_conc s')\<lparr>cs_log := lg\<rparr>" for lg
    by (subst c(1)) (simp add: quiet_conc_def)
  ultimately show ?thesis using w solo_withState [OF c(2) w] by simp
qed

theorem lone_call_ends_witness:
  "\<exists>s' ret. withState (\<lambda>ks. ks) plain_store ''a'' 5 count_calls = Some (s', ret)
     \<and> (\<lambda>c c'. thread_step count_calls 3 c = Some c')\<^sup>*\<^sup>* (goto 3 (call_at ''a'' 5) Lock (quiet_conc plain_store))
         ((quiet_conc plain_store)\<lparr>cs_store := s', cs_log := [(''a'', 5, ret)]\<rparr>)"
  using lone_call_ends [OF buildOptions_Nil plain_built(1) conc_init, of "call_at ''a'' 5" count_calls 3]
  by (simp add: quiet_conc_def call_at_def)

end
