(* ===== verification/Spec2Isabelle.thy ===== *)
theory Spec2Isabelle
  imports Layered Contract_Suite Result_Types Examples Mem_Solo
begin

text \<open>
  \<^bold>\<open>Verification of kaka, a rate limiting library for Go.\<close>

  \<^bold>\<open>The program.\<close> A \<open>kaka.Limiter\<close> has one method, \<open>Allow(ctx, key)\<close>, which returns a \<open>Result\<close>
  (\<open>Allowed\<close>, \<open>Remaining\<close>, \<open>RetryAfter\<close>) and an error. The package \<open>memory\<close> has three limiters
  (token bucket, leaky bucket, sliding window log), each a small algorithm on the state of one
  key, run under the lock of a shard of a common store; the package \<open>redis\<close> has the same three
  as Lua scripts that a Redis server runs atomically; \<open>layered\<close> puts a local limiter in front
  of a remote one; the four packages under \<open>middleware\<close> put a limiter in front of a web
  application; \<open>internal/contracttest\<close> tests every limiter alike.

  \<^bold>\<open>How it is modelled.\<close> Every function of the source is a function of the same name (prefixed where
  two packages share a name). A method returns the new state of its receiver; \<open>None\<close> is a call
  that does not return; a Go error is the second component of the returned pair; a panic of a
  constructor is \<open>Inl\<close> with its message; the calls a \<open>MetricSink\<close> or an error callback receives
  are a list of events, in order. What a call does not control (the reading of the clock, the
  order in which a Go map is ranged over, what happened to a Redis server meanwhile, a random
  number) is the environment of the call, an argument. Integers are mathematical ones with the
  wrap-around and the saturation of Go written out; floats are exact IEEE doubles.

  \<^bold>\<open>Theories, from the bottom up.\<close>
  \<^item> \<open>Kaka_Prelude\<close>: 64-bit integers, facts on lists. \<open>Go_Float64\<close>: binary64 arithmetic as rounding
    of rationals, with the locales \<open>correct_rounding\<close> and \<open>bounded_rounding\<close> and their instance
    \<open>ieee\<close>. \<open>Go_Time\<close>: \<open>time.Time\<close> and \<open>time.Duration\<close>. \<open>Go_Format\<close>: decimal numerals.
  \<^item> \<open>Kaka_Core\<close> (\<open>limiter.go\<close>, \<open>metrics.go\<close>, the three \<open>validateKey\<close>): results, errors, events, and
    \<open>strings.TrimSpace\<close> on UTF-8. \<open>Kaka_Contract\<close>: the contract of a limiter as the locale
    \<open>limiter_contract\<close>, and runs of requests.
  \<^item> \<open>Mem_Numeric\<close> (\<open>memory/numeric.go\<close>), \<open>Mem_Options\<close> (\<open>memory/options.go\<close>, \<open>eviction.go\<close>, \<open>clock.go\<close>).
  \<^item> \<open>Mem_Store\<close> (\<open>memory/sharded_store.go\<close>, \<open>state_store.go\<close>, \<open>hash.go\<close>): the store for one goroutine
    at a time. \<open>Mem_Store_Inv\<close>: its invariant, kept by every operation, and that the retry loop of
    \<open>reserveSlot\<close> ends. \<open>Mem_Store_Spec\<close>: the interface \<open>stateStore\<close> as the locale \<open>state_store\<close>,
    interpreted on the sharded store.
  \<^item> \<open>Mem_Concurrent\<close>: the same store with its mutexes and its atomic counter as a step relation of any
    number of goroutines; invariant, absence of deadlock, and linearisation per key. \<open>Mem_Solo\<close>:
    a goroutine alone does what the functions of \<open>Mem_Store\<close> compute, and ends.
  \<^item> \<open>Mem_Limiter\<close>: what the three \<open>Allow\<close> methods share, the locales \<open>mem_algorithm\<close> and
    \<open>memory_limiter\<close>; \<open>Mem_TokenBucket\<close>, \<open>Mem_LeakyBucket\<close>, \<open>Mem_SlidingWindow\<close>: the three limiters,
    each with an interpretation of \<open>memory_limiter\<close>.
  \<^item> \<open>Layered\<close> (\<open>layered/limiter.go\<close>), over any two limiters; the locale \<open>two_tier\<close>.
  \<^item> \<open>Redis_Lua\<close> (\<open>redis/scripts/*.lua\<close>): the scripts as computations over a record of Redis commands.
    \<open>Redis_Limiter\<close> (\<open>redis/*.go\<close>): options, script runner, the three \<open>Allow\<close> methods over a record of
    client operations. \<open>Redis_Laws\<close>: the documented behaviour of the commands and of the client, as
    predicates that theorems assume by name. \<open>Redis_Contract\<close>: the locales \<open>redis_algorithm\<close> and
    \<open>redis_limiter\<close>. \<open>Redis_Buckets\<close>, \<open>Redis_TokenBucket\<close>, \<open>Redis_LeakyBucket\<close>, \<open>Redis_Window\<close>: the
    decision functions that the scripts implement, and their rates. \<open>Redis_Errors\<close>: any client,
    failing ones included. \<open>Redis_Server\<close>: a server that satisfies the laws, for the witnesses.
  \<^item> \<open>Middleware\<close> (\<open>middleware/*/middleware.go\<close>): the four handlers over records of the frameworks'
    methods. \<open>Examples\<close> (\<open>examples/http-example/main.go\<close>).
  \<^item> \<open>Contract_Suite\<close> (\<open>internal/contracttest/contracttest.go\<close>): the behaviour tests as functions.
  \<^item> \<open>Result_Types\<close>: the range of the fields of a \<open>Result\<close>. This theory: compositions.

  \<^bold>\<open>What is shown.\<close>
  \<^item> \<^emph>\<open>Exactness.\<close> The in-memory sliding window, with its slices trimmed and grown in place and its
    binary search, gives the answers of a reference that remembers every allowed request; the
    Redis one gives the same reference's answers in whole milliseconds; at most \<open>limit\<close> requests
    of a key pass in any window. The bucket scripts refine decision functions on an amount and a
    time.
  \<^item> \<^emph>\<open>Rates.\<close> In any stretch of a key's requests the four buckets allow at most the capacity plus the
    inflow, with an explicit bound on what the float arithmetic can give away; on Redis also
    when the clock jumps.
  \<^item> \<^emph>\<open>Contract.\<close> Every run of each of the six limiters returns, with well-formed results. The wait of
    the in-memory sliding window is exact; that of the token bucket is long enough up to one part
    in \<open>2\<^sup>4\<^sup>0\<close> and a nanosecond. Blank keys are exactly the white space ones. The behaviour tests pass
    for the limiters in memory. All results fit their Go types.
  \<^item> \<^emph>\<open>Goroutines.\<close> For any number of goroutines under any interleaving, the key counter is exact and
    bounded by the limit, no state is stuck, and each key sees its calls one after the other
    (the latter for a store that keeps all keys).
  \<^item> \<^emph>\<open>Failures.\<close> Errors of Redis never reach the caller: the error policy decides instead; the
    script runner recovers from a flushed script cache; with Redis down a layered limiter that
    fails open allows what its local window allows.
  \<^item> \<^emph>\<open>Composition.\<close> A layered limiter allows a request only if its remote tier does; the four
    middlewares are one specification; the limits hold for what reaches an application behind
    the net/http middleware, and for the example server by host.

  \<^bold>\<open>Termination and bounds.\<close> Most recursion is structural. The binary search \<open>searchValid\<close>, the trimming
  of white space and the printing of numerals have a measure. The retry loop of \<open>reserveSlot\<close> is
  a \<open>partial_function\<close>, and \<open>reserveSlot_total\<close> shows that it returns on every store that
  satisfies the invariant. No definition has fuel. For goroutines, \<open>concurrent_no_deadlock\<close> shows
  that some step is always possible and \<open>lone_call_ends\<close> that a call without overlap ends; that
  every call ends under a fair scheduler is not shown.
  The theorems bound their parameters where the arithmetic does: a capacity below \<open>2\<^sup>6\<^sup>3\<close> in memory, so
  that it converts to an \<open>int\<close>; windows, limits and TTLs that an \<open>int64\<close> can hold; on Redis, where Lua
  counts in doubles, a capacity of at most \<open>2\<^sup>5\<^sup>2\<close>, a rate of at least \<open>2\<^sup>-\<^sup>3\<^sup>2\<close>, a limit of at most \<open>2\<^sup>5\<^sup>3\<close> and
  server times up to \<open>2\<^sup>4\<^sup>2\<close> milliseconds (\<open>max_millis\<close>), past the year 2100.

  \<^bold>\<open>Assumptions.\<close> On code outside the repository:
  \<^item> the laws of the Redis commands, of the client and of the encoding of arguments (\<open>redis_laws\<close>,
    \<open>client_laws\<close>, \<open>encode_laws\<close>; \<open>honest\<close> is all three and that the server runs the script that was
    loaded). \<open>Redis_Server\<close> has a server for which they hold;
  \<^item> what happens on the server between calls: nothing to the keys (\<open>quiet\<close>), or keys may expire
    (\<open>benign\<close>). The exactness and rate theorems on Redis need \<open>quiet\<close>, those on the window also
    distinct random members and a server clock that does not run backwards;
  \<^item> that a client which cannot reach its server returns errors (\<open>unreachable\<close>), and that replies are
    64-bit integers (\<open>int64_client\<close>); each for the theorems that name it;
  \<^item> that only the application marks a response as its own (\<open>marks_next\<close>).

  On the use of the library: in memory, the theorems on runs assume that clock readings do not run
  backwards; \<open>sliding_window_out_of_order\<close> shows what happens otherwise. Those that follow the
  history of a key assume a store without key limit and TTL (\<open>keeps_all_keys\<close>); the contracts, the key
  accounting and the absence of deadlock do not.

  \<^bold>\<open>Behaviour worth knowing\<close>, each with a theorem: a denied token bucket request can announce no
  wait at rates far above \<open>10\<^sup>9\<close> (\<open>token_bucket_denied_without_wait\<close>); out-of-order clock readings let
  more than \<open>limit\<close> requests through a window (\<open>sliding_window_out_of_order\<close>); a Redis window below a
  millisecond never denies (\<open>redis_window_submillisecond\<close>); a Redis wait of over 292 years wraps
  around (\<open>redis_wait_wraps\<close>); a full store can refuse a key that it holds
  (\<open>concurrent_rejects_present_key\<close>).

  \<^bold>\<open>Not modelled.\<close> The Redis server, \<open>go-redis\<close> and the web frameworks (parameters); contexts and their
  cancellation, which only the Redis client reads; \<open>getOrCreate\<close> of the store, a helper of tests
  that hands out a pointer without its lock; overlapping calls of a Redis limiter, so that
  the mutex of \<open>redis/script.go\<close> is left out; the arguments of the failure messages of the tests; the
  Redis, Gin, Echo and Fiber example servers, which wire modelled parts to sockets and frameworks;
  the benchmark server and its adapters of other libraries; the memory model below the mutexes and atomics of Go.
\<close>

section \<open>Layered limiters over memory limiters\<close>

text \<open>
  A layered limiter with an in-memory token bucket in front of an in-memory sliding window,
  with or without a sink.
\<close>

interpretation bucket_over_window: two_tier
  TokenBucket_Allow "\<lambda>l. tb_cfg l \<and> store_inv 0 (tb_store l) \<and> create (tb_store l) = tb_fresh l"
  "\<lambda>l env. states_ok (tb_ok l (env_now env)) (tb_store l)" mem_later
  SlidingWindow_Allow "\<lambda>l. sw_cfg l \<and> store_inv 0 (sw_store l) \<and> create (sw_store l) = sw_fresh l"
  "\<lambda>l env. states_ok (sw_ok l (env_now env)) (sw_store l)" mem_later
  with_sink
  for with_sink
  by unfold_locales

lemma granted_times:
  assumes "length outs = length rs"
  shows "times_for key (granted rs outs) = allowed_times (times_for key rs) (map fst (answers_for key rs outs))"
  using assms
proof (induction rs outs rule: list_induct2')
  case (4 r rs out outs)
  then show ?case by (cases r; cases out) auto
qed simp_all

text \<open>
  Claim C25. A layered limiter whose remote tier is a sliding window obeys the window limit,
  whatever the local tier is and does: for every instant \<open>e\<close>, at most \<open>limit\<close> of the requests
  for a key that the layered limiter allowed have a remote clock reading in \<open>(e - window, e]\<close>.
\<close>

theorem layered_window_limit:
  assumes "NewSlidingWindow limit window opts = Inr sw" "window \<le> max_int64" "keeps_all_keys (sw_opts sw)"
    and "ly_remote ly = SlidingWindow_Allow" "\<not> blank key" "sorted (times_for key (map remote_part rs))"
    and "requests (layered_Allow ly) (l, sw) rs = Some ((l', sw'), outs)"
  shows "int (length (filter (\<lambda>x. e - window < x \<and> x \<le> e)
     (times_for key (map remote_part (granted rs outs))))) \<le> limit"
proof -
  let ?rs = "remote_requests ly (l, sw) rs"
  obtain outs' where sub: "subseq ?rs (map remote_part rs)" and run: "requests SlidingWindow_Allow sw ?rs = Some (sw', outs')"
    and gr: "granted ?rs outs' = map remote_part (granted rs outs)"
    using layered_run [OF assms(7)] assms(4) by auto
  have srt: "sorted (times_for key ?rs)" using times_for_subseq [OF sub] assms(6) by (rule sorted_subseq)
  show ?thesis
    using window_alone_bound [OF assms(1,2) srt] granted_times [OF requests_length [OF run], of key]
      sliding_window_answers [OF assms(1-3,5) run] gr by simp
qed

text \<open>
  Claim C26. A token bucket layered over a sliding window keeps the limiter contract along every
  run with clocks that do not run backwards, with any options on both tiers.
\<close>

theorem layered_contract:
  assumes "NewTokenBucket capacity rate opts = Inr tb" "is_f64 capacity" "is_f64 rate" "flt capacity (Fin (2 ^ 63))"
    and "NewSlidingWindow limit window opts' = Inr sw" "window \<le> max_int64"
    and "layered_New (Some TokenBucket_Allow) (Some SlidingWindow_Allow) opts'' = Inr ly"
    and "successively (\<lambda>(e1, e2) (e1', e2'). mem_later e1 e1' \<and> mem_later e2 e2') (map fst rs)"
  shows "\<exists>s' outs. requests (layered_Allow ly) (tb, sw) rs = Some (s', outs) \<and> length outs = length rs
     \<and> list_all2 (\<lambda>(env, key) (ret, evs). return_ok key ret) rs outs"
proof -
  have "ly = \<lparr>ly_local = TokenBucket_Allow, ly_remote = SlidingWindow_Allow, ly_sink = ly_sink ly\<rparr>"
    using assms(7) by (auto simp: layered_New_def Let_def)
  then show ?thesis
    using bucket_over_window.requests_contract [of "(tb, sw)" rs "ly_sink ly"] assms(8)
      NewTokenBucket_inv [OF assms(1-4)] NewSlidingWindow_inv [OF assms(5,6)]
    by (auto split: prod.split)
qed

subsection \<open>Witnesses\<close>

abbreviation layered_demo :: "((mem_env \<times> mem_env) \<times> string) list" where
  "layered_demo \<equiv> [((at_time 5, at_time 5), ''a''), ((at_time 5, at_time 6), ''a''), ((at_time 7, at_time 8), ''a'')]"

lemma layered_demo_runs:
  "\<exists>tb sw ly tb' sw' outs. NewTokenBucket (Fin 2) (Fin 1) [] = Inr tb \<and> NewSlidingWindow 2 10 [] = Inr sw
     \<and> keeps_all_keys (sw_opts sw) \<and> layered_New (Some TokenBucket_Allow) (Some SlidingWindow_Allow) [] = Inr ly
     \<and> ly_remote ly = SlidingWindow_Allow
     \<and> requests (layered_Allow ly) (tb, sw) layered_demo = Some ((tb', sw'), outs)"
proof -
  obtain tb where tb: "NewTokenBucket (Fin 2) (Fin 1) [] = Inr tb" using small_token_bucket by blast
  obtain sw where sw: "NewSlidingWindow 2 10 [] = Inr sw" "keeps_all_keys (sw_opts sw)" using small_window by blast
  let ?ly = "\<lparr>ly_local = TokenBucket_Allow, ly_remote = SlidingWindow_Allow, ly_sink = False\<rparr>"
  have ly: "layered_New (Some TokenBucket_Allow) (Some SlidingWindow_Allow) [] = Inr ?ly"
    by (simp add: layered_New_def)
  have "\<exists>s' outs. requests (layered_Allow ?ly) (tb, sw) layered_demo = Some (s', outs)"
    using bucket_over_window.requests_contract [of "(tb, sw)" layered_demo False]
      NewTokenBucket_inv [OF tb is_f64_2 is_f64_1] NewSlidingWindow_inv [OF sw(1)]
    by (auto simp: max_int64_def)
  then show ?thesis using tb sw ly by fastforce
qed

theorem layered_window_limit_witness:
  "\<exists>ly (tb :: TokenBucket) (sw :: SlidingWindow) s' outs. requests (layered_Allow ly) (tb, sw) layered_demo = Some (s', outs)
     \<and> int (length (filter (\<lambda>x. 10 - 10 < x \<and> x \<le> 10)
         (times_for ''a'' (map remote_part (granted layered_demo outs))))) \<le> 2"
proof -
  obtain tb :: TokenBucket and sw ly tb' sw' outs where r: "NewSlidingWindow 2 10 [] = Inr sw" "keeps_all_keys (sw_opts sw)"
    "ly_remote ly = SlidingWindow_Allow"
    "requests (layered_Allow ly) (tb, sw) layered_demo = Some ((tb', sw'), outs)"
    using layered_demo_runs by blast
  have "sorted (times_for ''a'' (map remote_part layered_demo))" by (simp add: remote_part_def)
  from layered_window_limit [OF r(1) _ r(2,3) key_a this r(4), of 10] r(4) show ?thesis
    by (simp add: max_int64_def del: requests.simps) blast
qed

theorem layered_contract_witness:
  "\<exists>ly (tb :: TokenBucket) (sw :: SlidingWindow) s' outs. requests (layered_Allow ly) (tb, sw) layered_demo = Some (s', outs)
     \<and> list_all2 (\<lambda>(env, key) (ret, evs). return_ok key ret) layered_demo outs"
proof -
  obtain tb sw ly where r: "NewTokenBucket (Fin 2) (Fin 1) [] = Inr tb" "NewSlidingWindow 2 10 [] = Inr sw"
    "layered_New (Some TokenBucket_Allow) (Some SlidingWindow_Allow) [] = Inr ly"
    using layered_demo_runs by blast
  have "successively (\<lambda>(e1, e2) (e1', e2'). mem_later e1 e1' \<and> mem_later e2 e2') (map fst layered_demo)" by simp
  from layered_contract [OF r(1) is_f64_2 is_f64_1 _ r(2) _ r(3) this] show ?thesis
    by (simp add: max_int64_def del: requests.simps) blast
qed

section \<open>Goroutines in a sliding window\<close>


section \<open>The net/http middleware in front of a sliding window\<close>

lemma allowed_times_zip: "allowed_times ts rs = map fst (filter snd (zip ts (map Allowed rs)))"
  by (induction ts rs rule: allowed_times.induct) auto

lemma reached_times:
  assumes "length ws = length rs" "length outs = length rs"
    and "map reached ws = map (\<lambda>(ret, evs). passes handled ret) outs"
    and "\<And>ret. ret \<in> set (answers_for k (map (\<lambda>(e, w, r). (e, key r)) rs) outs) \<Longrightarrow> snd ret = None"
  shows "map (\<lambda>((e, w, r), w'). env_now e) (filter (\<lambda>((e, w, r), w'). key r = k \<and> reached w') (zip rs ws))
     = allowed_times (times_for k (map (\<lambda>(e, w, r). (e, key r)) rs)) (map fst (answers_for k (map (\<lambda>(e, w, r). (e, key r)) rs) outs))"
proof -
  let ?zip = "map (\<lambda>((e, w, r), w'). (env_now e, reached w')) (filter (\<lambda>((e, w, r), w'). key r = k) (zip rs ws))"
  have "map (\<lambda>((e, w, r), w'). env_now e) (filter (\<lambda>((e, w, r), w'). key r = k \<and> reached w') (zip rs ws)) = map fst (filter snd ?zip)"
    by (simp add: filter_map comp_def case_prod_unfold conj_commute)
  then show ?thesis using reached_answers [OF assms] by (simp add: allowed_times_zip comp_def)
qed

text \<open>
  Claim C10. An application behind the net/http middleware and an in-memory sliding window, with or
  without custom handlers. While the clock does not run backwards, every request is answered, and
  for every rate limit key that is not blank and every instant \<open>t\<close>, at most \<open>limit\<close> requests for
  the key with a clock reading in \<open>(t - window, t]\<close> reach the application.
\<close>

theorem http_window_limit:
  assumes "http_Middleware rw config = Inr mw" "h_Limiter config = Some SlidingWindow_Allow" "marks_next rw config next reached"
    and "NewSlidingWindow limit window opts = Inr sw" "window \<le> max_int64" "keeps_all_keys (sw_opts sw)"
    and "\<not> blank key" "\<And>e w r. (e, w, r) \<in> set rs \<Longrightarrow> \<not> reached w" "successively mem_later (map fst rs)"
  shows "\<exists>sw' ws. serve (\<lambda>s e (w, r). mw next s e w r) sw rs = Some (sw', ws) \<and> length ws = length rs
     \<and> int (length (filter (\<lambda>((e, w, r), w'). http_key config r = key \<and> reached w' \<and> t - window < env_now e \<and> env_now e \<le> t)
         (zip rs ws))) \<le> limit"
proof -
  let ?q = "map (\<lambda>(e, w, r). (e, http_key config r)) rs"
  have later: "successively mem_later (map fst ?q)" using assms(9) by (simp add: comp_def case_prod_unfold)
  obtain sw' outs0 where run: "requests SlidingWindow_Allow sw ?q = Some (sw', outs0)"
    using sw.requests_contract [OF _ later] NewSlidingWindow_inv [OF assms(4,5)] by blast
  obtain ws where ws: "serve (\<lambda>s e (w, r). mw next s e w r) sw rs = Some (sw', ws)"
    using http_serve_returns [OF assms(1,2) run] by blast
  obtain outs where o: "requests SlidingWindow_Allow sw ?q = Some (sw', outs)"
      "map reached ws = map (\<lambda>(ret, evs). passes (h_ErrorHandler config \<noteq> None) ret) outs"
    using http_serve_granted [OF assms(1-3) _ ws] assms(8) by blast
  have len: "length outs = length rs" using requests_length [OF o(1)] by simp
  then have len': "length ws = length rs" using arg_cong [OF o(2), of length] by simp
  note ans = sliding_window_answers [OF assms(4-7) o(1)]
  note srt = sorted_times [OF later, of key]
  have "snd ret = None" if "ret \<in> set (answers_for key ?q outs)" for ret
    using that unfolding ans window_alone [OF assms(4,5) srt] by auto
  from reached_times [OF len' len o(2) this]
  have times: "map (\<lambda>((e, w, r), w'). env_now e) (filter (\<lambda>((e, w, r), w'). http_key config r = key \<and> reached w') (zip rs ws))
      = allowed_times (times_for key ?q) (map fst (answers_for key ?q outs))" by simp
  have "int (length (filter (\<lambda>x. t - window < x \<and> x \<le> t) (allowed_times (times_for key ?q) (map fst (answers_for key ?q outs))))) \<le> limit"
    unfolding ans using assms(4,5) srt by (rule window_alone_bound)
  then show ?thesis
    unfolding times [symmetric] filter_map length_map filter_filter using ws len'
    by (simp add: case_prod_unfold comp_def conj_ac)
qed

section \<open>A layered limiter without its Redis\<close>

lemma let_through_times:
  assumes "length outs = length rs" "\<And>ret. ret \<in> set (answers_for key rs outs) \<Longrightarrow> snd ret = None"
  shows "times_for key (let_through rs outs) = allowed_times (times_for key rs) (map fst (answers_for key rs outs))"
  using assms
proof (induction rs outs rule: list_induct2')
  case (4 r rs out outs)
  obtain e k ret evs where r: "r = (e, k)" "out = (ret, evs)" by (cases r; cases out)
  have "consults ret \<longleftrightarrow> Allowed (fst ret)" if "k = key"
    using 4(3) [of ret] that by (cases ret) (simp add: r consults_def)
  then show ?case using 4 by (auto simp: r)
qed simp_all

text \<open>
  Claim C16. A layered limiter with an in-memory sliding window in front of a Redis token bucket of
  policy \<open>ErrorFailOpen\<close>, while Redis is down: every call returns, and the layered limiter allows
  for a key exactly the requests that the local sliding window alone would allow; so the limit
  of the local window still holds.
\<close>

theorem layered_outage:
  assumes "NewSlidingWindow limit window opts = Inr sw" "window \<le> max_int64" "keeps_all_keys (sw_opts sw)"
    and "ly_local ly = SlidingWindow_Allow" "ly_remote ly = r_TokenBucket_Allow"
    and "unreachable (l_client (rtb_base tb))" "policy (l_opts (rtb_base tb)) = ErrorFailOpen"
    and "\<not> blank key" "successively mem_later (map fst (local_requests rs))"
  shows "\<exists>sw' r' outs. requests (layered_Allow ly) (sw, (tb, w)) rs = Some ((sw', r'), outs)
     \<and> times_for key (local_requests (granted rs outs))
       = allowed_times (times_for key (local_requests rs)) (window_reference limit window [] (times_for key (local_requests rs)))
     \<and> int (length (filter (\<lambda>x. t - window < x \<and> x \<le> t) (times_for key (local_requests (granted rs outs))))) \<le> limit"
proof -
  let ?q = "local_requests rs"
  obtain sw' louts where run: "requests SlidingWindow_Allow sw ?q = Some (sw', louts)"
    using sw.requests_contract [OF _ assms(9)] NewSlidingWindow_inv [OF assms(1,2)] by blast
  have rem: "\<exists>r' res evs. ly_remote ly r re k = Some (r', (res, None), evs) \<and> Allowed res \<and> fst r' = tb"
    if "fst r = tb" "\<not> blank k" for r re k
    using rtb_unreachable [OF assms(6) that(2), of "snd r" re] assms(7) that(1) prod.collapse [of r]
    by (auto simp: assms(5) degraded_result_def)
  obtain r' outs where lay: "requests (layered_Allow ly) (sw, (tb, w)) rs = Some ((sw', r'), outs)"
      "local_requests (granted rs outs) = let_through ?q louts"
    using layered_open_run [of "\<lambda>r. fst r = tb", OF rem _ run [folded assms(4)], of "(tb, w)"] by auto
  note ans = sliding_window_answers [OF assms(1-3,8) run]
  note srt = sorted_times [OF assms(9), of key]
  have "snd ret = None" if "ret \<in> set (answers_for key ?q louts)" for ret
    using that unfolding ans window_alone [OF assms(1,2) srt] by auto
  then have times: "times_for key (local_requests (granted rs outs))
      = allowed_times (times_for key ?q) (map fst (alone (recordAndDecide sw) (sw_fresh sw) None (times_for key ?q)))"
    using let_through_times [OF requests_length [OF run], of key] by (simp add: lay(2) ans)
  have "int (length (filter (\<lambda>x. t - window < x \<and> x \<le> t) (times_for key (local_requests (granted rs outs))))) \<le> limit"
    unfolding times using assms(1,2) srt by (rule window_alone_bound)
  then show ?thesis using lay(1) times window_alone [OF assms(1,2) srt] by (simp add: comp_def)
qed

section \<open>Witnesses\<close>




definition window_config :: "(SlidingWindow, mem_env, unit, bool) http_Config" where
  "window_config = \<lparr>h_Limiter = Some SlidingWindow_Allow, h_KeyFunc = None, h_DeniedHandler = None, h_ErrorHandler = None,
     h_DisableHeaders = False\<rparr>"

abbreviation http_demo :: "(mem_env \<times> bool \<times> request) list" where
  "http_demo \<equiv> [(at_time 5, False, \<lparr>RemoteAddr = ''a''\<rparr>), (at_time 6, False, \<lparr>RemoteAddr = ''b''\<rparr>), (at_time 7, False, \<lparr>RemoteAddr = ''a''\<rparr>)]"

theorem http_window_limit_witness:
  "\<exists>mw sw sw' ws. http_Middleware seen_writer window_config = Inr mw \<and> NewSlidingWindow 2 10 [] = Inr sw
     \<and> serve (\<lambda>s e (w, r). mw (\<lambda>w r. True) s e w r) sw http_demo = Some (sw', ws) \<and> length ws = 3
     \<and> int (length (filter (\<lambda>((e, w, r), w'). http_key window_config r = ''a'' \<and> w' \<and> 9 - 10 < env_now e \<and> env_now e \<le> 9)
         (zip http_demo ws))) \<le> 2"
proof -
  obtain mw where mw: "http_Middleware seen_writer window_config = Inr mw"
    by (simp add: http_Middleware_def window_config_def)
  obtain sw where sw: "NewSlidingWindow 2 10 [] = Inr sw" "keeps_all_keys (sw_opts sw)" using small_window by blast
  have "h_Limiter window_config = Some SlidingWindow_Allow" "marks_next seen_writer window_config (\<lambda>w r. True) (\<lambda>w. w)"
    by (simp_all add: window_config_def marks_next_def seen_writer_def)
  then have "\<exists>sw' ws. serve (\<lambda>s e (w, r). mw (\<lambda>w r. True) s e w r) sw http_demo = Some (sw', ws) \<and> length ws = length http_demo
     \<and> int (length (filter (\<lambda>((e, w, r), w'). http_key window_config r = ''a'' \<and> w' \<and> 9 - 10 < env_now e \<and> env_now e \<le> 9)
         (zip http_demo ws))) \<le> 2"
    by (rule http_window_limit [OF mw _ _ sw(1) _ sw(2) key_a]) (auto simp: max_int64_def)
  moreover have "length http_demo = 3" by simp
  ultimately show ?thesis using mw sw(1) by (simp only:) blast
qed

abbreviation outage_demo :: "((mem_env \<times> (nat \<Rightarrow> nat)) \<times> string) list" where
  "outage_demo \<equiv> [((at_time 5, \<lambda>w. w), ''a''), ((at_time 6, \<lambda>w. w), ''''), ((at_time 7, \<lambda>w. w), ''a'')]"

theorem layered_outage_witness:
  "\<exists>sw sw' r' outs. NewSlidingWindow 2 10 [] = Inr sw
     \<and> requests (layered_Allow \<lparr>ly_local = SlidingWindow_Allow, ly_remote = r_TokenBucket_Allow, ly_sink = True\<rparr>)
         (sw, (lonely_bucket, 0)) outage_demo = Some ((sw', r'), outs)
     \<and> times_for ''a'' (local_requests (granted outage_demo outs))
       = [5, 7]"
proof -
  let ?ly = "\<lparr>ly_local = SlidingWindow_Allow, ly_remote = r_TokenBucket_Allow, ly_sink = True\<rparr>"
  obtain sw where sw: "NewSlidingWindow 2 10 [] = Inr sw" "keeps_all_keys (sw_opts sw)" using small_window by blast
  have p: "policy (l_opts (rtb_base lonely_bucket)) = ErrorFailOpen"
    by (simp add: lonely_bucket_def newLimiter_def WithErrorPolicy_def WithOnError_def r_WithMetricSink_def)
  have "blank ''''" by code_simp
  then have rs: "local_requests outage_demo = [(at_time 5, ''a''), (at_time 7, ''a'')]"
    using key_a by simp
  have "\<exists>sw' r' outs. requests (layered_Allow ?ly) (sw, (lonely_bucket, 0)) outage_demo = Some ((sw', r'), outs)
     \<and> times_for ''a'' (local_requests (granted outage_demo outs))
       = allowed_times (times_for ''a'' (local_requests outage_demo)) (window_reference 2 10 [] (times_for ''a'' (local_requests outage_demo)))
     \<and> int (length (filter (\<lambda>x. 9 - 10 < x \<and> x \<le> 9) (times_for ''a'' (local_requests (granted outage_demo outs))))) \<le> 2"
    by (rule layered_outage [OF sw(1) _ sw(2) _ _ lonely_unreachable p key_a]) (simp_all add: rs max_int64_def)
  moreover have "allowed_times (times_for ''a'' (local_requests outage_demo)) (window_reference 2 10 [] (times_for ''a'' (local_requests outage_demo))) = [5, 7]"
    unfolding rs by (simp add: in_window_def Let_def)
  ultimately show ?thesis using sw(1) by auto
qed

end
